(* ===== verification/Prelude.thy ===== *)
theory Prelude
  imports Main "HOL-Library.Word"
begin

section \<open>Shared vocabulary of the development\<close>

text \<open>
  What every component theory uses: bytes, the ways a piece of the code can fail to
  return normally (\<open>fault\<close>) and the bind of the resulting sum type, slices of a block
  of memory and writes into it (the pointer arithmetic of the buffers), and a counting
  function over the live objects of a heap that is a partial map.  The collection
  \<open>proxy_defs\<close> gathers the definitions that proofs about one handler unfold together.
\<close>

named_theorems proxy_defs "definitions unfolded by proofs about one handler"

type_synonym byte = "8 word"
type_synonym u32 = "32 word"

subsection \<open>Faults and the bind of the sum type\<close>

text \<open>
  Each constructor is one way in which the C code does not return to its caller:
  a dereference of freed memory, a dereference of NULL, an index outside an array, the
  removal of an element from a queue it is not in, an integer division by zero, a change to
  a started watcher, a watcher that libev refuses to start (a negative descriptor or a negative
  repeat), \<open>abort()\<close>, \<open>exit(n)\<close>, and a recursion that does not come back.  \<open>Script_end\<close> is no
  behaviour of the program: the model's operations take the results of their system
  calls from a list, and \<open>Script_end\<close> says that the list given was too short for the
  calls the code makes.
\<close>

datatype fault =
    Use_after_free
  | Null_deref
  | Out_of_bounds
  | Corrupt_queue
  | Div_by_zero
  | Active_watcher
  | Bad_watcher
  | Aborted
  | Exited int
  | No_return
  | Script_end

definition bindR :: "'e + 'a \<Rightarrow> ('a \<Rightarrow> 'e + 'b) \<Rightarrow> 'e + 'b" where
  "bindR m f = (case m of Inl e \<Rightarrow> Inl e | Inr x \<Rightarrow> f x)"

lemma bindR_simps [simp]:
  "bindR (Inl e) f = Inl e"
  "bindR (Inr x) f = f x"
  by (simp_all add: bindR_def)

lemma bindR_Inr_iff [simp]:
  "bindR m f = Inr y \<longleftrightarrow> (\<exists>x. m = Inr x \<and> f x = Inr y)"
  by (cases m) simp_all

lemma bindR_Inl_iff:
  "bindR m f = Inl e \<longleftrightarrow> m = Inl e \<or> (\<exists>x. m = Inr x \<and> f x = Inl e)"
  by (cases m) simp_all

lemma bindR_cong [fundef_cong]:
  assumes "m = m'" and "\<And>x. m' = Inr x \<Longrightarrow> f x = g x"
  shows "bindR m f = bindR m' g"
  using assms by (cases m') simp_all

text \<open>Popping the next result from a list of prepared results.\<close>

definition pop :: "'a list \<Rightarrow> fault + ('a \<times> 'a list)" where
  "pop xs = (case xs of [] \<Rightarrow> Inl Script_end | x # ys \<Rightarrow> Inr (x, ys))"

lemma pop_simps [simp]:
  "pop [] = Inl Script_end"
  "pop (x # xs) = Inr (x, xs)"
  by (simp_all add: pop_def)

lemma pop_Inr_iff [simp]: "pop xs = Inr (y, ys) \<longleftrightarrow> xs = y # ys"
  by (cases xs) auto

lemma pop_Inl_iff: "pop xs = Inl e \<longleftrightarrow> xs = [] \<and> e = Script_end"
  by (cases xs) auto

text \<open>
  \<open>okR Q m\<close>: if \<open>m\<close> returns, its result satisfies \<open>Q\<close>; if it does not, the reason is not an
  error of memory or arithmetic but one of the \<open>soft\<close> ones: no memory (\<open>abort\<close>, or the
  unbounded recursion of the buffer pool) or a list of answers that is too short.  The
  lemmas \<open>okR_intros\<close> take a handler apart along its binds.
\<close>

definition soft :: "fault \<Rightarrow> bool" where
  "soft e \<longleftrightarrow> e = Script_end \<or> e = No_return \<or> e = Aborted"

definition okR :: "('a \<Rightarrow> bool) \<Rightarrow> fault + 'a \<Rightarrow> bool" where
  "okR Q m = (case m of Inl e \<Rightarrow> soft e | Inr x \<Rightarrow> Q x)"

lemma okR_Inr [simp]: "okR Q (Inr x) = Q x"
  by (simp add: okR_def)

lemma okR_Inl [simp]: "okR Q (Inl e) = soft e"
  by (simp add: okR_def)

lemma soft_simps [simp]: "soft Script_end" "soft No_return" "soft Aborted"
  by (simp_all add: soft_def)

lemma okR_bind [simp]: "okR Q (bindR m f) = okR (\<lambda>x. okR Q (f x)) m"
  by (cases m) simp_all

lemma okR_pop [simp]: "okR Q (pop xs) = (\<forall>x ys. xs = x # ys \<longrightarrow> Q (x, ys))"
  by (cases xs) simp_all

lemma okR_mono: "okR P m \<Longrightarrow> (\<And>x. m = Inr x \<Longrightarrow> P x \<Longrightarrow> Q x) \<Longrightarrow> okR Q m"
  by (cases m) simp_all

lemma okR_InrD: "okR Q m \<Longrightarrow> m = Inr x \<Longrightarrow> Q x"
  by simp

lemma okR_InlD: "okR Q m \<Longrightarrow> m = Inl e \<Longrightarrow> soft e"
  by simp

lemma okR_if:
  "(b \<Longrightarrow> okR Q m) \<Longrightarrow> (\<not> b \<Longrightarrow> okR Q n) \<Longrightarrow> okR Q (if b then m else n)"
  by simp

text \<open>
  \<open>okE E Q m\<close> is \<open>okR Q m\<close> for an \<open>m\<close> that may also stop with one of the faults \<open>E\<close>.
\<close>

definition okE :: "(fault \<Rightarrow> bool) \<Rightarrow> ('a \<Rightarrow> bool) \<Rightarrow> fault + 'a \<Rightarrow> bool" where
  "okE E Q m = (case m of Inl e \<Rightarrow> soft e \<or> E e | Inr x \<Rightarrow> Q x)"

lemma okE_simps [simp]:
  "okE E Q (Inr x) = Q x"
  "okE E Q (Inl e) = (soft e \<or> E e)"
  by (simp_all add: okE_def)

lemma okE_bind [simp]: "okE E Q (bindR m f) = okE E (\<lambda>x. okE E Q (f x)) m"
  by (cases m) simp_all

lemma okE_pop [simp]: "okE E Q (pop xs) = (\<forall>x ys. xs = x # ys \<longrightarrow> Q (x, ys))"
  by (cases xs) simp_all

lemma okR_okE: "okR Q m \<Longrightarrow> okE E Q m"
  by (cases m) simp_all

lemma okE_weaken: "okE E Q m \<Longrightarrow> (\<And>f. E f \<Longrightarrow> E' f) \<Longrightarrow> okE E' Q m"
  by (cases m) auto

lemma okE_mono: "okE E P m \<Longrightarrow> (\<And>x. m = Inr x \<Longrightarrow> P x \<Longrightarrow> Q x) \<Longrightarrow> okE E Q m"
  by (cases m) simp_all

subsection \<open>Decimal numerals\<close>

text \<open>The digits \<open>printf\<close> writes for a non-negative argument of \<open>%d\<close>, and \<open>%02d\<close>.\<close>

definition digit :: "nat \<Rightarrow> char" where
  "digit d = ''0123456789'' ! d"

fun dec :: "nat \<Rightarrow> string" where
  "dec n = (if n < 10 then [digit n] else dec (n div 10) @ [digit (n mod 10)])"

declare dec.simps [simp del]

definition dec02 :: "nat \<Rightarrow> string" where
  "dec02 n = (if n < 10 then ''0'' @ dec n else dec n)"

lemma length_dec_less: "n < 10 ^ Suc k \<Longrightarrow> 1 \<le> length (dec n) \<and> length (dec n) \<le> Suc k"
proof (induction k arbitrary: n)
  case 0
  then show ?case by (simp add: dec.simps)
next
  case (Suc k)
  from Suc.prems have "n div 10 < 10 ^ Suc k"
    by (simp add: div_less_iff_less_mult)
  from Suc.IH [OF this] show ?case by (simp add: dec.simps [of n])
qed

lemma length_dec_byte: "n < 256 \<Longrightarrow> 1 \<le> length (dec n) \<and> length (dec n) \<le> 3"
  using length_dec_less [of n 2] by (simp add: numeral_3_eq_3)

subsection \<open>Slices of a block and writes into it\<close>

definition slice :: "nat \<Rightarrow> nat \<Rightarrow> 'a list \<Rightarrow> 'a list" where
  "slice i j xs = take (j - i) (drop i xs)"

definition write_at :: "'a list \<Rightarrow> nat \<Rightarrow> 'a list \<Rightarrow> 'a list" where
  "write_at xs k ys = take k xs @ ys @ drop (k + length ys) xs"

lemma slice_self [simp]: "slice i i xs = []"
  by (simp add: slice_def)

lemma length_slice [simp]: "j \<le> length xs \<Longrightarrow> length (slice i j xs) = j - i"
  by (simp add: slice_def)

lemma slice_append_slice:
  "i \<le> j \<Longrightarrow> j \<le> k \<Longrightarrow> slice i j xs @ slice j k xs = slice i k xs"
proof -
  assume "i \<le> j" "j \<le> k"
  then have "take (k - i) (drop i xs)
      = take (j - i) (drop i xs) @ take (k - j) (drop (j - i) (drop i xs))"
    by (metis (no_types) add.commute diff_add_inverse2 le_add_diff_inverse2 le_diff_conv
        ordered_cancel_comm_monoid_diff_class.diff_add_assoc2 take_add add_diff_inverse_nat
        not_less)
  with \<open>i \<le> j\<close> show ?thesis by (simp add: slice_def)
qed

lemma take_slice: "i + n \<le> j \<Longrightarrow> take n (slice i j xs) = slice i (i + n) xs"
  by (simp add: slice_def min_def)

lemma drop_slice: "drop n (slice i j xs) = slice (i + n) j xs"
  by (simp add: slice_def drop_take add.commute)

lemma length_write_at [simp]:
  "k + length ys \<le> length xs \<Longrightarrow> length (write_at xs k ys) = length xs"
  by (simp add: write_at_def)

lemma write_at_Nil [simp]: "write_at xs k [] = xs"
  by (simp add: write_at_def)

lemma slice_write_at_before:
  "j \<le> k \<Longrightarrow> k \<le> length xs \<Longrightarrow> slice i j (write_at xs k ys) = slice i j xs"
  by (cases "i \<le> j") (simp_all add: slice_def write_at_def drop_take min_def)

lemma slice_write_at_new:
  "k + length ys \<le> length xs \<Longrightarrow> slice k (k + length ys) (write_at xs k ys) = ys"
  by (simp add: slice_def write_at_def)

lemma slice_write_at_extend:
  assumes "i \<le> k" and "k + length ys \<le> length xs"
  shows "slice i (k + length ys) (write_at xs k ys) = slice i k xs @ ys"
proof -
  have "slice i k (write_at xs k ys) @ slice k (k + length ys) (write_at xs k ys)
      = slice i (k + length ys) (write_at xs k ys)"
    by (rule slice_append_slice) (use assms in simp_all)
  with assms show ?thesis
    by (simp add: slice_write_at_before slice_write_at_new)
qed

subsection \<open>Counting the live objects of a heap\<close>

text \<open>
  \<open>cnt P m\<close> is the number of keys whose object exists and satisfies \<open>P\<close>.  Counters the
  code keeps by hand are related to it; the lemmas say how it moves when one object is
  created, changed or freed.
\<close>

definition cnt :: "('v \<Rightarrow> bool) \<Rightarrow> ('k \<rightharpoonup> 'v) \<Rightarrow> nat" where
  "cnt P m = card {k. \<exists>v. m k = Some v \<and> P v}"

lemma cnt_finite: "finite (dom m) \<Longrightarrow> finite {k. \<exists>v. m k = Some v \<and> P v}"
  by (rule finite_subset [of _ "dom m"]) auto

lemma cnt_empty [simp]: "cnt P (\<lambda>_. None) = 0"
  by (simp add: cnt_def)

lemma cnt_insert:
  assumes "finite (dom m)" and "m k = None"
  shows "cnt P (m(k \<mapsto> v)) = cnt P m + of_bool (P v)"
proof -
  have "{j. \<exists>w. (m(k \<mapsto> v)) j = Some w \<and> P w}
      = (if P v then {k} else {}) \<union> {j. \<exists>w. m j = Some w \<and> P w}"
    using assms(2) by (auto split: if_splits)
  moreover have "k \<notin> {j. \<exists>w. m j = Some w \<and> P w}" using assms(2) by simp
  ultimately show ?thesis
    using cnt_finite [OF assms(1), of P] by (simp add: cnt_def)
qed

lemma cnt_delete:
  assumes "finite (dom m)" and "m k = Some v"
  shows "cnt P m = cnt P (m(k := None)) + of_bool (P v)"
proof -
  have "cnt P ((m(k := None))(k \<mapsto> v)) = cnt P (m(k := None)) + of_bool (P v)"
    by (rule cnt_insert) (use assms in simp_all)
  moreover have "(m(k := None))(k \<mapsto> v) = m" using assms(2) by auto
  ultimately show ?thesis by simp
qed

lemma cnt_update:
  assumes "finite (dom m)" and "m k = Some v"
  shows "int (cnt P (m(k \<mapsto> w))) = int (cnt P m) - of_bool (P v) + of_bool (P w)"
proof -
  have "cnt P (m(k \<mapsto> w)) = cnt P ((m(k := None))(k \<mapsto> w))" by simp
  also have "\<dots> = cnt P (m(k := None)) + of_bool (P w)"
    by (rule cnt_insert) (use assms in simp_all)
  finally show ?thesis using cnt_delete [OF assms, of P] by simp
qed

lemma cnt_update_same:
  assumes "finite (dom m)" and "m k = Some v" and "P w = P v"
  shows "cnt P (m(k \<mapsto> w)) = cnt P m"
  using cnt_update [OF assms(1,2), of P w] assms(3) by simp

text \<open>The sum of a measure over the live objects, in any commutative monoid.\<close>

definition heap_sum :: "('v \<Rightarrow> 'b::comm_monoid_add) \<Rightarrow> ('k \<rightharpoonup> 'v) \<Rightarrow> 'b" where
  "heap_sum f m = (\<Sum>k\<in>dom m. f (the (m k)))"

lemma heap_sum_empty [simp]: "heap_sum f (\<lambda>_. None) = 0"
  by (simp add: heap_sum_def)

lemma heap_sum_insert:
  assumes "finite (dom m)" and "m k = None"
  shows "heap_sum f (m(k \<mapsto> v)) = f v + heap_sum f m"
proof -
  have "k \<notin> dom m" using assms(2) by auto
  then have "(\<Sum>j\<in>dom m. f (the ((m(k \<mapsto> v)) j))) = (\<Sum>j\<in>dom m. f (the (m j)))"
    by (intro sum.cong) auto
  with \<open>k \<notin> dom m\<close> assms(1) show ?thesis by (simp add: heap_sum_def)
qed

lemma heap_sum_delete:
  assumes "finite (dom m)" and "m k = Some v"
  shows "heap_sum f m = f v + heap_sum f (m(k := None))"
proof -
  have "heap_sum f ((m(k := None))(k \<mapsto> v)) = f v + heap_sum f (m(k := None))"
    by (rule heap_sum_insert) (use assms in simp_all)
  moreover have "(m(k := None))(k \<mapsto> v) = m" using assms(2) by auto
  ultimately show ?thesis by simp
qed

lemma heap_sum_update:
  assumes "finite (dom m)" and "m k = Some v"
  shows "f v + heap_sum f (m(k \<mapsto> w)) = f w + heap_sum f m"
proof -
  have "heap_sum f (m(k \<mapsto> w)) = heap_sum f ((m(k := None))(k \<mapsto> w))" by simp
  also have "\<dots> = f w + heap_sum f (m(k := None))" by (rule heap_sum_insert) (use assms in simp_all)
  finally show ?thesis using heap_sum_delete [OF assms, of f] by (simp add: ac_simps)
qed

subsection \<open>Lists\<close>

lemma int_length_remove1:
  "x \<in> set xs \<Longrightarrow> int (length (remove1 x xs)) = int (length xs) - 1"
  by (cases "length xs") (auto simp: length_remove1)

subsection \<open>Signed readings of 32-bit words\<close>

lemma sint_less_imp_unat:
  assumes "unat (w :: u32) < 2 ^ 31"
  shows "sint w = int (unat w)"
proof -
  have "int (unat w) < int (2 ^ 31)" using assms by (simp only: of_nat_less_iff)
  then have u: "uint w < 2 ^ 31" by simp
  have "- (2 ^ 31) \<le> uint w" by (rule order_trans [OF _ uint_ge_0]) simp
  then have "signed_take_bit 31 (uint w) = uint w"
    by (rule signed_take_bit_int_eq_self) (rule u)
  then show ?thesis by (simp add: sint_uint)
qed

lemma sint_of_nat_u32:
  assumes "k < 2 ^ 31"
  shows "sint (word_of_nat k :: u32) = int k"
proof -
  have "unat (word_of_nat k :: u32) = k"
    using assms by (simp add: unsigned_of_nat take_bit_nat_eq_self_iff)
  with assms show ?thesis using sint_less_imp_unat [of "word_of_nat k"] by simp
qed

lemma sint_word_of_int_u32:
  assumes "0 \<le> k" and "k < 2 ^ 31"
  shows "sint (word_of_int k :: u32) = k"
  using sint_of_nat_u32 [of "nat k"] assms by (simp add: nat_less_iff)

end
