(* ===== verification/Conf.thy ===== *)
theory Conf
  imports Prelude
begin

section \<open>The server's configuration (src/xtp\_conf.h, src/xtp\_conf.c)\<close>

record xtp_access_entry =
  ac_port :: int
  ac_max :: int
  ac_timeout :: int

record xtp_upstream_conf =
  uc_ip :: string
  uc_port :: int
  uc_timeout :: int

record xtp_srvconf =
  sc_pidfile :: string
  sc_access :: xtp_access_entry
  sc_upstream :: "xtp_upstream_conf list"
  sc_upstream_num :: int
  sc_upstream_index :: int
  sc_working_num_max :: int

text \<open>A configuration with a given table of upstream servers, for examples.\<close>

definition plain_conf :: "xtp_upstream_conf list \<Rightarrow> xtp_srvconf" where
  "plain_conf upstream = \<lparr>sc_pidfile = ''/tmp/xtp.pid'',
     sc_access = \<lparr>ac_port = 9097, ac_max = 2, ac_timeout = 60\<rparr>, sc_upstream = upstream,
     sc_upstream_num = int (length upstream), sc_upstream_index = 0, sc_working_num_max = 1\<rparr>"

end
