(* ===== verification/Nio.thy ===== *)
theory Nio
  imports Prelude
begin

unbundle bit_operations_syntax

section \<open>Non-blocking socket input and output (src/xtp\_nio.c)\<close>

text \<open>
  The four routines of \<open>src/xtp_nio.c\<close>.  A system call's result is the head of a list of
  prepared results, one list per kind of call; the list stands for what the kernel
  answers, in order.  \<open>recv(2)\<close> reads a queue of items: bytes that have arrived
  (\<open>RecvData bs\<close>; a call that asks for fewer leaves the rest at the head), an orderly
  shutdown by the peer (\<open>RecvData []\<close>, for which \<open>recv\<close> returns 0) or an error.
  \<open>send(2)\<close> is answered by how many bytes the socket buffer takes or by an error.
  The routines return what the C functions return, together with the bytes they moved.
\<close>

datatype errno = EINTR | EAGAIN | EINPROGRESS | EOTHER

datatype recv_item = RecvData "byte list" | RecvErr errno

datatype send_item = SendOk nat | SendErr errno

subsection \<open>One call of recv(2)\<close>

fun recv_sys :: "nat \<Rightarrow> recv_item list \<Rightarrow> fault + ((errno + byte list) \<times> recv_item list)" where
  "recv_sys n [] = Inl Script_end"
| "recv_sys n (RecvErr e # rs) = Inr (Inl e, rs)"
| "recv_sys n (RecvData bs # rs) =
     Inr (Inr (take n bs), if length bs \<le> n then rs else RecvData (drop n bs) # rs)"

fun recv_item_size :: "recv_item \<Rightarrow> nat" where
  "recv_item_size (RecvData bs) = Suc (length bs)"
| "recv_item_size (RecvErr e) = 1"

definition recv_size :: "recv_item list \<Rightarrow> nat" where
  "recv_size rs = sum_list (map recv_item_size rs)"

fun recv_item_bytes :: "recv_item \<Rightarrow> byte list" where
  "recv_item_bytes (RecvData bs) = bs"
| "recv_item_bytes (RecvErr e) = []"

definition recv_bytes :: "recv_item list \<Rightarrow> byte list" where
  "recv_bytes rs = concat (map recv_item_bytes rs)"

lemma recv_size_simps [simp]:
  "recv_size [] = 0"
  "recv_size (r # rs) = recv_item_size r + recv_size rs"
  by (simp_all add: recv_size_def)

lemma recv_bytes_simps [simp]:
  "recv_bytes [] = []"
  "recv_bytes (r # rs) = recv_item_bytes r @ recv_bytes rs"
  by (simp_all add: recv_bytes_def)

lemma recv_sys_size:
  "0 < n \<Longrightarrow> recv_sys n rs = Inr (r, rs') \<Longrightarrow> recv_size rs' < recv_size rs"
  by (induction n rs rule: recv_sys.induct) (auto split: if_splits)

lemma recv_sys_bytes:
  "recv_sys n rs = Inr (Inr bs, rs') \<Longrightarrow> length bs \<le> n \<and> recv_bytes rs = bs @ recv_bytes rs'"
  "recv_sys n rs = Inr (Inl e, rs') \<Longrightarrow> recv_bytes rs = recv_bytes rs'"
  by (cases "(n, rs)" rule: recv_sys.cases; auto)+

subsection \<open>x\_recvn\<close>

text \<open>
  The loop of \<open>x_recvn\<close>: \<open>n\<close> bytes are still wanted, \<open>str\<close> is what the calls so far
  have stored at \<open>pStr\<close>.  \<open>nLen\<close> is an \<open>unsigned int\<close> and \<open>n\<close> an \<open>int\<close>; the
  returned \<open>nLen - n\<close> is computed in \<open>unsigned int\<close> and converted back.
\<close>

function recvn_loop ::
  "u32 \<Rightarrow> int \<Rightarrow> byte list \<Rightarrow> recv_item list \<Rightarrow> fault + (int \<times> byte list \<times> recv_item list)" where
  "recvn_loop nLen n str rs =
     (if 0 < n then
        bindR (recv_sys (nat n) rs) (\<lambda>(r, rs').
          case r of
            Inl e \<Rightarrow>
              if e = EINTR then recvn_loop nLen n str rs'
              else if e = EAGAIN then Inr (sint (nLen - word_of_int n), str, rs')
              else Inr (-1, str, rs')
          | Inr bs \<Rightarrow>
              if bs = [] then Inr (-2, str, rs')
              else recvn_loop nLen (n - int (length bs)) (str @ bs) rs')
      else Inr (sint (nLen - word_of_int n), str, rs))"
  by pat_completeness auto
termination
  by (relation "measure (\<lambda>(nLen, n, str, rs). recv_size rs)") (auto dest: recv_sys_size [rotated])

declare recvn_loop.simps [simp del]

definition x_recvn :: "u32 \<Rightarrow> recv_item list \<Rightarrow> fault + (int \<times> byte list \<times> recv_item list)" where
  "x_recvn nLen rs = recvn_loop nLen (sint nLen) [] rs"

text \<open>
  What a run of the loop has done when it returns: the bytes it stored are a prefix of the
  bytes the socket held, no more than asked for; a non-negative result is their number.
\<close>

lemma recvn_loop_spec:
  assumes "recvn_loop nLen n str rs = Inr (ret, out, rs')"
    and "unat nLen < 2 ^ 31" and "0 \<le> n" and "int (unat nLen) = n + int (length str)"
  shows "(\<exists>bs. out = str @ bs \<and> recv_bytes rs = bs @ recv_bytes rs')
    \<and> length out \<le> unat nLen
    \<and> (if ret < 0 then ret = -1 \<or> ret = -2 else ret = int (length out))"
  using assms
proof (induction nLen n str rs rule: recvn_loop.induct)
  case (1 nLen n str rs)
  have fits: "length str \<le> unat nLen" using "1.prems"(3,4) by linarith
  have val: "sint (nLen - word_of_int n) = int (length str)"
  proof -
    have "nLen = word_of_int (int (unat nLen))" by simp
    also have "\<dots> = word_of_int n + of_nat (length str)" by (simp only: "1.prems"(4)) simp
    finally have "nLen - word_of_int n = of_nat (length str)" by (simp add: algebra_simps)
    moreover have "length str < 2 ^ 31" using fits "1.prems"(2) by linarith
    ultimately show ?thesis by (simp only: sint_of_nat_u32)
  qed
  show ?case
  proof (cases "0 < n")
    case False
    with "1.prems" val fits show ?thesis by (auto simp: recvn_loop.simps [of nLen n str rs])
  next
    case True
    with "1.prems"(1) obtain r rs1 where sys: "recv_sys (nat n) rs = Inr (r, rs1)"
      by (auto simp: recvn_loop.simps [of nLen n str rs])
    show ?thesis
    proof (cases r)
      case (Inl e)
      show ?thesis
      proof (cases "e = EINTR")
        case True
        with "1.prems" sys Inl \<open>0 < n\<close> "1.IH"(1) [OF \<open>0 < n\<close> sys refl Inl True]
        show ?thesis
          by (auto simp: recvn_loop.simps [of nLen n str rs] dest: recv_sys_bytes(2))
      next
        case False
        with "1.prems" sys Inl \<open>0 < n\<close> val fits show ?thesis
          by (auto simp: recvn_loop.simps [of nLen n str rs] dest: recv_sys_bytes(2)
              split: if_splits)
      qed
    next
      case (Inr bs)
      have bs: "length bs \<le> nat n" "recv_bytes rs = bs @ recv_bytes rs1"
        using recv_sys_bytes(1) [OF sys [unfolded Inr]] by auto
      show ?thesis
      proof (cases "bs = []")
        case True
        with "1.prems" sys Inr \<open>0 < n\<close> bs fits show ?thesis
          by (auto simp: recvn_loop.simps [of nLen n str rs])
      next
        case False
        have "recvn_loop nLen (n - int (length bs)) (str @ bs) rs1 = Inr (ret, out, rs')"
          using "1.prems"(1) sys Inr \<open>0 < n\<close> False
          by (simp add: recvn_loop.simps [of nLen n str rs])
        note ih = "1.IH"(2) [OF \<open>0 < n\<close> sys refl Inr False this "1.prems"(2)]
        have "0 \<le> n - int (length bs)"
          and "int (unat nLen) = n - int (length bs) + int (length (str @ bs))"
          using bs(1) "1.prems"(3,4) by linarith (use "1.prems"(4) in simp)
        from ih [OF this] bs(2) show ?thesis by (metis append.assoc)
      qed
    qed
  qed
qed

lemma x_recvn_spec:
  assumes "x_recvn nLen rs = Inr (ret, out, rs')" and "unat nLen < 2 ^ 31"
  shows "recv_bytes rs = out @ recv_bytes rs'" and "length out \<le> unat nLen"
    and "ret < 0 \<Longrightarrow> ret = -1 \<or> ret = -2" and "0 \<le> ret \<Longrightarrow> ret = int (length out)"
  using recvn_loop_spec [of nLen "sint nLen" "[]" rs ret out rs'] assms
  by (auto simp: x_recvn_def sint_less_imp_unat)

text \<open>
  The loop comes back as soon as the socket reports something that is neither data nor an
  interrupted call: an error other than \<open>EINTR\<close>, or the end of the stream.
\<close>

fun recv_final :: "recv_item \<Rightarrow> bool" where
  "recv_final (RecvData bs) \<longleftrightarrow> bs = []"
| "recv_final (RecvErr e) \<longleftrightarrow> e \<noteq> EINTR"

lemma recv_sys_final:
  assumes "recv_sys n rs = Inr (r, rs')" and "\<exists>x\<in>set rs. recv_final x"
    and "case r of Inl e \<Rightarrow> e = EINTR | Inr bs \<Rightarrow> bs \<noteq> []"
  shows "\<exists>x\<in>set rs'. recv_final x"
  using assms by (cases "(n, rs)" rule: recv_sys.cases) (auto split: if_splits)

lemma recvn_loop_returns:
  "\<exists>x\<in>set rs. recv_final x \<Longrightarrow> \<exists>y. recvn_loop nLen n str rs = Inr y"
proof (induction nLen n str rs rule: recvn_loop.induct)
  case (1 nLen n str rs)
  show ?case
  proof (cases "0 < n")
    case False
    then show ?thesis by (simp add: recvn_loop.simps [of nLen n str rs])
  next
    case True
    from "1.prems" obtain r rs1 where sys: "recv_sys (nat n) rs = Inr (r, rs1)"
      by (cases "(nat n, rs)" rule: recv_sys.cases) auto
    note step = recvn_loop.simps [of nLen n str rs]
    note final = recv_sys_final [OF sys "1.prems"]
    show ?thesis
    proof (cases r)
      case (Inl e)
      then show ?thesis
        using True sys step final "1.IH"(1) [OF True sys refl Inl] by (cases "e = EINTR") simp_all
    next
      case (Inr bs)
      then show ?thesis
        using True sys step final "1.IH"(2) [OF True sys refl Inr] by (cases "bs = []") simp_all
    qed
  qed
qed

lemma x_recvn_returns:
  "\<exists>x\<in>set rs. recv_final x \<Longrightarrow> \<exists>y. x_recvn nLen rs = Inr y"
  unfolding x_recvn_def by (rule recvn_loop_returns)

lemma recvn_loop_size:
  "recvn_loop nLen n str rs = Inr (ret, out, rs') \<Longrightarrow> recv_size rs' \<le> recv_size rs"
proof (induction nLen n str rs rule: recvn_loop.induct)
  case (1 nLen n str rs)
  show ?case
  proof (cases "0 < n")
    case False
    with "1.prems" show ?thesis by (simp add: recvn_loop.simps [of nLen n str rs])
  next
    case True
    with "1.prems" obtain r rs1 where sys: "recv_sys (nat n) rs = Inr (r, rs1)"
      by (auto simp: recvn_loop.simps [of nLen n str rs])
    then have "recv_size rs1 < recv_size rs" using True by (auto dest: recv_sys_size [rotated])
    then show ?thesis
      using "1.prems" True sys "1.IH"(1) [OF True sys refl] "1.IH"(2) [OF True sys refl]
      by (cases r) (fastforce simp: recvn_loop.simps [of nLen n str rs] split: if_splits)+
  qed
qed

text \<open>A positive result has consumed part of what the socket held.\<close>

lemma x_recvn_progress:
  assumes "x_recvn nLen rs = Inr (ret, out, rs')" and "0 < ret"
  shows "recv_size rs' < recv_size rs"
proof (cases "0 < sint nLen")
  case False
  with assms show ?thesis by (simp add: x_recvn_def recvn_loop.simps)
next
  case True
  with assms(1) obtain r rs1 where sys: "recv_sys (nat (sint nLen)) rs = Inr (r, rs1)"
    by (auto simp: x_recvn_def recvn_loop.simps [of nLen "sint nLen"])
  then have "recv_size rs1 < recv_size rs" using True by (auto dest: recv_sys_size [rotated])
  moreover have "recv_size rs' \<le> recv_size rs1"
    using assms True sys
    by (cases r) (auto simp: x_recvn_def recvn_loop.simps [of nLen "sint nLen" "[]" rs]
        split: if_splits dest: recvn_loop_size)
  ultimately show ?thesis by simp
qed

subsection \<open>x\_sendn\<close>

text \<open>
  \<open>str\<close> is what is left to send, \<open>sent\<close> what \<open>send(2)\<close> has taken so far.  \<open>SendOk k\<close>
  says that the socket buffer has room for \<open>k\<close> bytes.
\<close>

function sendn_loop ::
  "u32 \<Rightarrow> int \<Rightarrow> byte list \<Rightarrow> byte list \<Rightarrow> send_item list
    \<Rightarrow> fault + (int \<times> byte list \<times> send_item list)" where
  "sendn_loop nLen n str sent ss =
     (if 0 < n then
        bindR (pop ss) (\<lambda>(i, ss').
          case i of
            SendErr e \<Rightarrow>
              if e = EINTR then sendn_loop nLen n str sent ss'
              else if e \<noteq> EAGAIN then Inr (-1, sent, ss')
              else Inr (sint (nLen - word_of_int n), sent, ss')
          | SendOk k \<Rightarrow>
              (let nRet = min k (nat n)
               in if nRet = 0 then Inr (-2, sent, ss')
                  else sendn_loop nLen (n - int nRet) (drop nRet str) (sent @ take nRet str) ss'))
      else Inr (sint (nLen - word_of_int n), sent, ss))"
  by pat_completeness auto
termination
  by (relation "measure (\<lambda>(nLen, n, str, sent, ss). length ss)") auto

declare sendn_loop.simps [simp del]

definition x_sendn ::
  "u32 \<Rightarrow> byte list \<Rightarrow> send_item list \<Rightarrow> fault + (int \<times> byte list \<times> send_item list)" where
  "x_sendn nLen pStr ss = sendn_loop nLen (sint nLen) pStr [] ss"

lemma sendn_loop_spec:
  assumes "sendn_loop nLen n str sent ss = Inr (ret, out, ss')"
    and "unat nLen < 2 ^ 31" and "n = int (length str)"
    and "int (unat nLen) = n + int (length sent)"
  shows "(\<exists>k\<le>length str. out = sent @ take k str)
    \<and> (if ret < 0 then ret = -1 \<or> ret = -2 else ret = int (length out))
    \<and> length ss' \<le> length ss"
  using assms
proof (induction nLen n str sent ss rule: sendn_loop.induct)
  case (1 nLen n str sent ss)
  note run = "1.prems"(1) [unfolded sendn_loop.simps [of nLen n str sent ss]]
  have val: "sint (nLen - word_of_int n) = int (length sent)"
  proof -
    have "nLen = word_of_int (int (unat nLen))" by simp
    also have "\<dots> = word_of_int n + of_nat (length sent)" by (simp only: "1.prems"(4)) simp
    finally have "nLen - word_of_int n = of_nat (length sent)" by (simp add: algebra_simps)
    moreover have "length sent < 2 ^ 31" using "1.prems"(2,3,4) by linarith
    ultimately show ?thesis by (simp only: sint_of_nat_u32)
  qed
  have none: "\<exists>k\<le>length str. sent = sent @ take k str" by (rule exI [of _ 0]) simp
  show ?case
  proof (cases "0 < n")
    case False
    with run "1.prems"(2-4) val none show ?thesis by (auto split: if_splits)
  next
    case True
    with run obtain i ss1 where sys: "pop ss = Inr (i, ss1)" by auto
    have len: "length ss1 \<le> length ss" using sys by auto
    show ?thesis
    proof (cases i)
      case (SendErr e)
      show ?thesis
      proof (cases "e = EINTR")
        case True
        have "sendn_loop nLen n str sent ss1 = Inr (ret, out, ss')"
          using run sys SendErr \<open>0 < n\<close> True by simp
        from "1.IH"(2) [OF \<open>0 < n\<close> sys refl SendErr True this "1.prems"(2-4)] len
        show ?thesis by (auto split: if_splits)
      next
        case False
        with run sys SendErr \<open>0 < n\<close> val none len show ?thesis
          by (auto split: if_splits)
      qed
    next
      case (SendOk k)
      define nRet where "nRet = min k (nat n)"
      show ?thesis
      proof (cases "nRet = 0")
        case True
        with run sys SendOk \<open>0 < n\<close> none len show ?thesis
          by (auto simp: nRet_def)
      next
        case False
        have rec: "sendn_loop nLen (n - int nRet) (drop nRet str) (sent @ take nRet str) ss1
            = Inr (ret, out, ss')"
          using run sys SendOk \<open>0 < n\<close> False by (auto simp: nRet_def Let_def split: if_splits)
        have le: "nRet \<le> length str" using "1.prems"(3) by (simp add: nRet_def)
        have "n - int nRet = int (length (drop nRet str))"
          and "int (unat nLen) = n - int nRet + int (length (sent @ take nRet str))"
          using "1.prems"(3,4) le by simp_all
        from "1.IH"(1) [OF \<open>0 < n\<close> sys refl SendOk nRet_def False rec "1.prems"(2) this] le len
        obtain j where "j \<le> length str - nRet" "out = sent @ take nRet str @ take j (drop nRet str)"
          and rest: "(if ret < 0 then ret = -1 \<or> ret = -2 else ret = int (length out))
            \<and> length ss' \<le> length ss"
          by (auto split: if_splits)
        then have "nRet + j \<le> length str \<and> out = sent @ take (nRet + j) str"
          using le by (simp add: take_add)
        with rest show ?thesis by blast
      qed
    qed
  qed
qed

text \<open>
  The result of \<open>x_sendn\<close> on a buffer of exactly \<open>nLen\<close> bytes: what went out is a prefix
  of the buffer, and a non-negative result is its length.
\<close>

lemma x_sendn_spec:
  assumes "x_sendn nLen str ss = Inr (ret, out, ss')"
    and "unat nLen < 2 ^ 31" and "length str = unat nLen"
  shows "\<exists>k\<le>length str. out = take k str" and "length out \<le> length str"
    and "ret < 0 \<Longrightarrow> ret = -1 \<or> ret = -2" and "0 \<le> ret \<Longrightarrow> ret = int (length out)"
    and "length ss' \<le> length ss"
proof -
  have "sint nLen = int (length str)" using assms(2,3) by (simp add: sint_less_imp_unat)
  from sendn_loop_spec [OF assms(1) [unfolded x_sendn_def] assms(2) this]
  have "(\<exists>k\<le>length str. out = take k str)
    \<and> (if ret < 0 then ret = -1 \<or> ret = -2 else ret = int (length out))
    \<and> length ss' \<le> length ss"
    using assms(3) sint_less_imp_unat [OF assms(2)] by simp
  then show "\<exists>k\<le>length str. out = take k str" and "length out \<le> length str"
    and "ret < 0 \<Longrightarrow> ret = -1 \<or> ret = -2" and "0 \<le> ret \<Longrightarrow> ret = int (length out)"
    and "length ss' \<le> length ss"
    by auto
qed

text \<open>Once something is sent or an error is seen, an answer of the kernel has been used up.\<close>

lemma sendn_loop_size:
  "sendn_loop nLen n str sent ss = Inr (ret, out, ss') \<Longrightarrow> length ss' \<le> length ss"
proof (induction nLen n str sent ss rule: sendn_loop.induct)
  case (1 nLen n str sent ss)
  note run = "1.prems" [unfolded sendn_loop.simps [of nLen n str sent ss]]
  show ?case
  proof (cases "0 < n")
    case False
    with run show ?thesis by simp
  next
    case True
    with run obtain i ss1 where sys: "pop ss = Inr (i, ss1)" by auto
    then have "length ss1 < length ss" by auto
    then show ?thesis
      using run True sys "1.IH"(1) [OF True sys refl _ refl] "1.IH"(2) [OF True sys refl]
      by (cases i) (fastforce simp: Let_def split: if_splits)+
  qed
qed

lemma x_sendn_progress:
  assumes "x_sendn nLen str ss = Inr (ret, out, ss')" and "0 < sint nLen"
  shows "length ss' < length ss"
proof -
  note run = assms(1) [unfolded x_sendn_def, unfolded sendn_loop.simps [of nLen "sint nLen" str "[]" ss]]
  from run assms(2) obtain i ss1 where sys: "pop ss = Inr (i, ss1)" by auto
  have "length ss' \<le> length ss1"
    using run assms(2) sys by (cases i) (auto simp: Let_def split: if_splits dest: sendn_loop_size)
  with sys show ?thesis by auto
qed

text \<open>Both routines have a return for every sequence of answers that ends in a final one.\<close>

fun send_final :: "send_item \<Rightarrow> bool" where
  "send_final (SendOk k) \<longleftrightarrow> k = 0"
| "send_final (SendErr e) \<longleftrightarrow> e \<noteq> EINTR"

lemma sendn_loop_returns:
  "\<exists>x\<in>set ss. send_final x \<Longrightarrow> \<exists>y. sendn_loop nLen n str sent ss = Inr y"
proof (induction nLen n str sent ss rule: sendn_loop.induct)
  case (1 nLen n str sent ss)
  show ?case
  proof (cases "0 < n")
    case False
    then show ?thesis by (simp add: sendn_loop.simps [of nLen n str sent ss])
  next
    case True
    from "1.prems" obtain i ss1 where sys: "pop ss = Inr (i, ss1)"
      and final: "send_final i \<or> (\<exists>x\<in>set ss1. send_final x)" by (cases ss) auto
    note ih = "1.IH"(1) [OF True sys refl _ refl] "1.IH"(2) [OF True sys refl]
    show ?thesis
      unfolding sendn_loop.simps [of nLen n str sent ss]
      using True sys final ih by (cases i) (auto simp: Let_def)
  qed
qed

lemma x_sendn_returns:
  "\<exists>x\<in>set ss. send_final x \<Longrightarrow> \<exists>y. x_sendn nLen str ss = Inr y"
  unfolding x_sendn_def by (rule sendn_loop_returns)

text \<open>The only way not to return is to run out of answers.\<close>

lemma recvn_loop_Inl: "recvn_loop nLen n str rs = Inl e \<Longrightarrow> e = Script_end"
proof (induction nLen n str rs rule: recvn_loop.induct)
  case (1 nLen n str rs)
  note run = "1.prems" [unfolded recvn_loop.simps [of nLen n str rs]]
  from run have True: "0 < n" by (simp split: if_splits)
  show ?case
  proof (cases "recv_sys (nat n) rs")
    case (Inl e')
    then have "e' = Script_end" by (cases "(nat n, rs)" rule: recv_sys.cases) auto
    with run True Inl show ?thesis by simp
  next
    case (Inr p)
    obtain r rs1 where sys: "recv_sys (nat n) rs = Inr (r, rs1)" using Inr by (cases p) auto
    then show ?thesis
      using run True "1.IH"(1) [OF True sys refl] "1.IH"(2) [OF True sys refl]
      by (cases r) (auto split: if_splits)
  qed
qed

lemma sendn_loop_Inl: "sendn_loop nLen n str sent ss = Inl e \<Longrightarrow> e = Script_end"
proof (induction nLen n str sent ss rule: sendn_loop.induct)
  case (1 nLen n str sent ss)
  note run = "1.prems" [unfolded sendn_loop.simps [of nLen n str sent ss]]
  from run have True: "0 < n" by (simp split: if_splits)
  show ?case
  proof (cases ss)
    case Nil
    with run True show ?thesis by simp
  next
    case (Cons i ss1)
    then have sys: "pop ss = Inr (i, ss1)" by simp
    then show ?thesis
      using run True "1.IH"(1) [OF True sys refl _ refl] "1.IH"(2) [OF True sys refl]
      by (cases i) (auto simp: Let_def split: if_splits)
  qed
qed

lemma x_recvn_Inl: "x_recvn nLen rs = Inl e \<Longrightarrow> e = Script_end"
  unfolding x_recvn_def by (rule recvn_loop_Inl)

lemma x_sendn_Inl: "x_sendn nLen str ss = Inl e \<Longrightarrow> e = Script_end"
  unfolding x_sendn_def by (rule sendn_loop_Inl)

subsection \<open>x\_setNonBlock and x\_socket\_bind\<close>

text \<open>
  \<open>fcntl\<close> is answered from a list.  The second component is the flag word handed to
  \<open>F_SETFL\<close>, when that call is made.  \<open>O_NONBLOCK\<close> is 04000 (octal) on Linux.
\<close>

definition O_NONBLOCK :: u32 where "O_NONBLOCK = 2048"

definition x_setNonBlock :: "u32 list \<Rightarrow> fault + (int \<times> u32 option \<times> u32 list)" where
  "x_setNonBlock fc =
     bindR (pop fc) (\<lambda>(opts, fc1).
       if opts = -1 then Inr (-1, None, fc1)
       else let opts' = opts OR O_NONBLOCK in
         bindR (pop fc1) (\<lambda>(r, fc2).
           if r \<noteq> 0 then Inr (-1, Some opts', fc2) else Inr (0, Some opts', fc2)))"

text \<open>
  \<open>x_socket_bind\<close>: the arguments after the port are the answers of \<open>socket\<close>, the two
  \<open>fcntl\<close> calls, \<open>bind\<close> and \<open>listen\<close>.  The result is the descriptor returned and the
  bytes of \<open>sin_port\<close> in network order.  A failing \<open>bind\<close> or \<open>listen\<close> exits.
\<close>

definition htons_bytes :: "int \<Rightarrow> byte list" where
  "htons_bytes port = (let p = word_of_int port :: 16 word in [ucast (drop_bit 8 p), ucast p])"

definition x_socket_bind ::
  "int \<Rightarrow> int \<Rightarrow> u32 list \<Rightarrow> int \<Rightarrow> int \<Rightarrow> fault + (int \<times> byte list)" where
  "x_socket_bind port sock fc bnd lst =
     (if sock = -1 then Inr (-1, [])
      else bindR (x_setNonBlock fc) (\<lambda>_.
        let sin_port = htons_bytes port in
        if bnd = -1 then Inl (Exited 1)
        else if lst = -1 then Inl (Exited 1)
        else Inr (sock, sin_port)))"

subsection \<open>Properties\<close>

text \<open>C28: \<open>x_recvn\<close> loses and invents nothing: the bytes it stores are, in order, the first
  bytes of the socket; it never stores more than \<open>nLen\<close>; a non-negative result is the number
  of bytes stored and a negative one is -1 or -2.\<close>

theorem x_recvn_contract:
  assumes "x_recvn nLen rs = Inr (ret, out, rs')" and "unat nLen < 2 ^ 31"
  shows "recv_bytes rs = out @ recv_bytes rs' \<and> length out \<le> unat nLen
    \<and> (if ret < 0 then ret = -1 \<or> ret = -2 else ret = int (length out))"
  using x_recvn_spec [OF assms] by simp

theorem x_recvn_contract_witness:
  "x_recvn 4 [RecvData [1, 2], RecvErr EAGAIN] = Inr (2, [1, 2], [])
    \<and> recv_bytes [RecvData [1, 2], RecvErr EAGAIN] = [1, 2] @ recv_bytes []"
proof -
  have "x_recvn 4 [RecvData [1, 2], RecvErr EAGAIN] = Inr (2, [1, 2], [])"
    by (simp add: x_recvn_def recvn_loop.simps)
  from this x_recvn_contract [OF this] show ?thesis by simp
qed

text \<open>\<open>x_recvn\<close> discards data that arrives together with the end of the stream: when the
  peer has sent fewer than \<open>nLen\<close> bytes and closed, the result is -2, the value that means
  closed, although all these bytes have been read from the socket into the buffer.\<close>

theorem x_recvn_eof_discards:
  assumes "bs \<noteq> []" and "length bs < unat nLen" and "unat nLen < 2 ^ 31"
  shows "x_recvn nLen (RecvData bs # RecvData [] # rs) = Inr (-2, bs, rs)"
proof -
  have n: "sint nLen = int (unat nLen)" using assms(3) by (rule sint_less_imp_unat)
  have "0 < sint nLen" "length bs \<le> nat (sint nLen)" "0 < sint nLen - int (length bs)"
    using assms(2) n by linarith+
  with assms(1) show ?thesis
    by (simp add: x_recvn_def recvn_loop.simps [of nLen "sint nLen"]
        recvn_loop.simps [of nLen "sint nLen - int (length bs)"])
qed

theorem x_recvn_eof_discards_witness:
  "x_recvn 8000 [RecvData [72, 84, 84, 80], RecvData []] = Inr (-2, [72, 84, 84, 80], [])"
  by (rule x_recvn_eof_discards) simp_all

text \<open>\<open>x_recvn\<close> returns for every sequence of answers of \<open>recv\<close> that holds an error other
  than \<open>EINTR\<close> or an end of stream, whatever is asked for.\<close>

theorem x_recvn_terminates:
  "(\<exists>r\<in>set rs. recv_final r) \<Longrightarrow> \<exists>ret out rs'. x_recvn nLen rs = Inr (ret, out, rs')"
  using x_recvn_returns [of rs nLen] by auto

theorem x_recvn_terminates_witness:
  "\<exists>ret out rs'. x_recvn 10 [RecvErr EINTR, RecvData [1], RecvErr EAGAIN] = Inr (ret, out, rs')"
  by (rule x_recvn_terminates) simp

text \<open>A length of \<open>2 ^ 31\<close> or more is negative in the \<open>int\<close> the loop counts with: \<open>x_recvn\<close>
  then returns 0 at once, the value of an empty socket, without calling \<open>recv\<close>.\<close>

theorem x_recvn_huge:
  assumes "2 ^ 31 \<le> unat nLen"
  shows "x_recvn nLen rs = Inr (0, [], rs)"
proof -
  have "int (2 ^ 31) \<le> int (unat nLen)" using assms by (simp only: of_nat_le_iff)
  then have lo: "2147483648 \<le> uint nLen" by simp
  have hi: "uint nLen < 4294967296" using uint_bounded [of nLen] by simp
  have "uint nLen div 2147483648 = 1"
    by (rule int_div_pos_eq [where r = "uint nLen - 2147483648"]) (use lo hi in linarith)+
  then have "bit (uint nLen) 31" by (simp add: bit_iff_odd)
  then have "sint nLen < 0" by (simp add: sint_uint)
  then show ?thesis by (simp add: x_recvn_def recvn_loop.simps)
qed

theorem x_recvn_huge_witness:
  "x_recvn 2147483648 [RecvData [1]] = Inr (0, [], [RecvData [1]])"
  by (rule x_recvn_huge) simp

text \<open>C29: \<open>x_sendn\<close> on a buffer of exactly \<open>nLen\<close> bytes hands the kernel a prefix of it; a
  non-negative result is the length of that prefix and a negative one is -1 or -2.\<close>

theorem x_sendn_contract:
  assumes "x_sendn nLen str ss = Inr (ret, out, ss')"
    and "unat nLen < 2 ^ 31" and "length str = unat nLen"
  shows "(\<exists>rest. str = out @ rest) \<and> (if ret < 0 then ret = -1 \<or> ret = -2 else ret = int (length out))"
proof -
  from x_sendn_spec(1) [OF assms] have "\<exists>rest. str = out @ rest"
    by (metis append_take_drop_id)
  with x_sendn_spec(3,4) [OF assms] show ?thesis by simp
qed

theorem x_sendn_contract_witness:
  "x_sendn 3 [1, 2, 3] [SendOk 2, SendErr EAGAIN] = Inr (2, [1, 2], [])
    \<and> (\<exists>rest. [1, 2, 3 :: byte] = [1, 2] @ rest)"
proof -
  have "x_sendn 3 [1, 2, 3] [SendOk 2, SendErr EAGAIN] = Inr (2, [1, 2], [])"
    by (simp add: x_sendn_def sendn_loop.simps)
  from this x_sendn_contract [OF this] show ?thesis by simp
qed

text \<open>When \<open>x_setNonBlock\<close> reports success the flag word it set has \<open>O_NONBLOCK\<close> and every
  flag the descriptor had, and no other.\<close>

theorem x_setNonBlock_flags:
  assumes "x_setNonBlock (opts # r # fc) = Inr (0, Some opts', fc')"
  shows "opts' AND O_NONBLOCK = O_NONBLOCK \<and> opts' AND opts = opts
    \<and> opts' AND NOT O_NONBLOCK = opts AND NOT O_NONBLOCK"
proof -
  from assms have "opts' = opts OR O_NONBLOCK"
    by (auto simp: x_setNonBlock_def Let_def split: if_splits)
  then show ?thesis by (auto intro: bit_eqI simp: bit_simps)
qed

theorem x_setNonBlock_flags_witness:
  "x_setNonBlock [2, 0] = Inr (0, Some 2050, []) \<and> (2050 :: u32) AND O_NONBLOCK = O_NONBLOCK"
proof -
  have "x_setNonBlock [2, 0] = Inr (0, Some 2050, [])"
    by (simp add: x_setNonBlock_def O_NONBLOCK_def)
  from this x_setNonBlock_flags [OF this] show ?thesis by simp
qed

end
