(* ===== verification/Bufpool.thy ===== *)
theory Bufpool
  imports Prelude
begin

section \<open>The buffer pool (src/xtp\_bufpool.c, src/xtp\_bufpool.h)\<close>

text \<open>
  A buffer is one block of \<open>bp->size\<close> bytes: the header \<open>struct xtp_buf_s\<close>, then the data
  area.  The pointers \<open>start\<close>, \<open>end\<close>, \<open>pos\<close> and \<open>last\<close> are offsets into the block
  (\<open>0\<close> also stands for the NULL that \<open>memset\<close> leaves); the free list, chained through
  \<open>next\<close> in the code, is a list of buffers.  \<open>malloc\<close> is answered from a list of
  booleans, in order: \<open>False\<close> is a NULL result.  \<open>x_buf_alloc\<close> calls itself after
  refilling the pool, with nothing that bounds the recursion; it is a partial function
  and \<open>None\<close> means that it does not return under the given answers.
\<close>

definition BUFSIZ :: nat where "BUFSIZ = 8192"
definition NODE_BUFSIZ :: nat where "NODE_BUFSIZ = BUFSIZ"
definition sizeof_xtp_buf :: nat where "sizeof_xtp_buf = 64"

record xtp_buf =
  b_bp :: bool
  b_mem :: "byte list"
  b_start :: nat
  b_end :: nat
  b_pos :: nat
  b_last :: nat
  b_size :: int

record xtp_buf_pool =
  bp_n :: int
  bp_max :: int
  bp_size :: int
  bp_offset :: nat
  bp_head :: "xtp_buf list"

subsection \<open>Operations\<close>

definition malloc_buf :: "xtp_buf_pool \<Rightarrow> xtp_buf" where
  "malloc_buf bp =
     \<lparr>b_bp = True, b_mem = replicate (nat (bp_size bp)) 0, b_start = bp_offset bp,
      b_end = nat (bp_size bp) - 1, b_pos = 0, b_last = 0, b_size = 0\<rparr>"

definition push_buf :: "xtp_buf \<Rightarrow> xtp_buf_pool \<Rightarrow> xtp_buf_pool" where
  "push_buf b bp = bp\<lparr>bp_head := b # bp_head bp, bp_n := bp_n bp + 1, bp_max := bp_max bp + 1\<rparr>"

fun init_loop :: "nat \<Rightarrow> xtp_buf_pool \<Rightarrow> bool list \<Rightarrow> fault + (xtp_buf_pool \<times> bool list)" where
  "init_loop 0 bp ms = Inr (bp, ms)"
| "init_loop (Suc i) bp ms =
     bindR (pop ms) (\<lambda>(ok, ms').
       init_loop i (if ok then push_buf (malloc_buf bp) bp else bp) ms')"

definition x_buf_init :: "int \<Rightarrow> int \<Rightarrow> bool list \<Rightarrow> fault + (xtp_buf_pool \<times> bool list)" where
  "x_buf_init mx sz ms =
     init_loop (nat mx)
       \<lparr>bp_n = 0, bp_max = 0, bp_size = sz, bp_offset = sizeof_xtp_buf, bp_head = []\<rparr> ms"

text \<open>The blocks handed to \<open>free\<close>, in order, and the struct afterwards.\<close>

fun x_buf_uninit_loop :: "xtp_buf list \<Rightarrow> xtp_buf list \<Rightarrow> xtp_buf list" where
  "x_buf_uninit_loop freed [] = freed"
| "x_buf_uninit_loop freed (tmp # rest) = x_buf_uninit_loop (freed @ [tmp]) rest"

definition x_buf_uninit :: "xtp_buf_pool \<Rightarrow> xtp_buf list \<times> xtp_buf_pool" where
  "x_buf_uninit bp = (x_buf_uninit_loop [] (bp_head bp), bp\<lparr>bp_head := []\<rparr>)"

fun ralloc_loop :: "nat \<Rightarrow> xtp_buf_pool \<Rightarrow> bool list \<Rightarrow> fault + (xtp_buf_pool \<times> bool list)" where
  "ralloc_loop 0 bp ms = Inr (bp, ms)"
| "ralloc_loop (Suc i) bp ms =
     bindR (pop ms) (\<lambda>(ok, ms').
       ralloc_loop i
         (if ok then push_buf ((malloc_buf bp)\<lparr>b_pos := bp_offset bp, b_last := bp_offset bp\<rparr>) bp
          else bp) ms')"

definition x_buf_ralloc ::
  "xtp_buf_pool \<Rightarrow> int \<Rightarrow> bool list \<Rightarrow> fault + (xtp_buf_pool \<times> bool list)" where
  "x_buf_ralloc bp num ms =
     (let bp1 = bp\<lparr>bp_max := (if bp_max bp \<noteq> 0 then bp_max bp else 1)\<rparr>;
          num1 = (if num \<noteq> 0 then num else bp_max bp1)
      in ralloc_loop (nat num1) bp1 ms)"

definition reset_buf :: "xtp_buf_pool \<Rightarrow> xtp_buf \<Rightarrow> xtp_buf" where
  "reset_buf bp buf = buf\<lparr>b_start := bp_offset bp, b_end := nat (bp_size bp) - 1,
     b_pos := bp_offset bp, b_last := bp_offset bp\<rparr>"

definition pop_buf :: "xtp_buf_pool \<Rightarrow> xtp_buf_pool" where
  "pop_buf bp = bp\<lparr>bp_head := tl (bp_head bp), bp_n := bp_n bp - 1\<rparr>"

partial_function (option) x_buf_alloc ::
  "xtp_buf_pool \<Rightarrow> bool list \<Rightarrow> (xtp_buf \<times> xtp_buf_pool \<times> bool list) option" where
  "x_buf_alloc bp ms =
     (if bp_head bp = [] then
        (case x_buf_ralloc bp 0 ms of
           Inl e \<Rightarrow> None
         | Inr r \<Rightarrow> x_buf_alloc (fst r) (snd r))
      else
        Some (reset_buf bp (hd (bp_head bp)), pop_buf bp, ms))"

declare x_buf_alloc.simps [code]

text \<open>
  \<open>x_buf_adjust\<close>: the size arithmetic is done in \<open>size_t\<close> and truncated to \<open>int\<close>.
  \<open>realloc\<close> is answered by \<open>None\<close> (NULL) or by the contents of the bytes beyond the
  old block.
\<close>

definition adjust_newsize :: "int \<Rightarrow> nat \<Rightarrow> int" where
  "adjust_newsize sz offset =
     (let w = (((word_of_int sz + of_nat offset) div of_nat BUFSIZ) + 1) * of_nat BUFSIZ :: 64 word
      in sint (ucast w :: 32 word))"

definition x_buf_adjust ::
  "xtp_buf_pool \<Rightarrow> xtp_buf \<Rightarrow> int \<Rightarrow> (nat \<Rightarrow> byte) option \<Rightarrow> xtp_buf option" where
  "x_buf_adjust bp buf sz realloc =
     (if sz \<le> b_size buf then Some buf
      else let newsize = adjust_newsize sz (bp_offset bp) in
        case realloc of
          None \<Rightarrow> None
        | Some fresh \<Rightarrow>
            Some (buf\<lparr>b_mem := map (\<lambda>i. if i < length (b_mem buf) then b_mem buf ! i else fresh i)
                         [0..<nat newsize],
                      b_size := newsize - int (bp_offset bp),
                      b_start := bp_offset bp,
                      b_end := nat newsize - 1,
                      b_pos := bp_offset bp,
                      b_last := bp_offset bp\<rparr>))"

text \<open>
  \<open>x_buf_free\<close>: \<open>None\<close> is the NULL argument.  The second component is the block passed
  to \<open>free\<close>, if any.
\<close>

definition x_buf_free :: "xtp_buf_pool \<Rightarrow> xtp_buf option \<Rightarrow> xtp_buf_pool \<times> xtp_buf option" where
  "x_buf_free bp bo =
     (case bo of
        None \<Rightarrow> (bp, None)
      | Some buf \<Rightarrow>
          if \<not> b_bp buf then (bp, None)
          else if b_size buf > bp_size bp then (bp\<lparr>bp_max := bp_max bp - 1\<rparr>, Some buf)
          else (bp\<lparr>bp_head := buf # bp_head bp, bp_n := bp_n bp + 1\<rparr>, None))"

subsection \<open>Well-formed pools and buffers\<close>

text \<open>
  \<open>geometry\<close>: the data area of a block holds at least one byte beyond the one that \<open>end\<close>
  points to.  \<open>block_ok\<close>: the block has the pool's size and goes back to the pool's free
  list.  \<open>buf_ok\<close>: the pointers of a buffer in use lie in its data area, in order.
\<close>

definition geometry :: "xtp_buf_pool \<Rightarrow> bool" where
  "geometry bp \<longleftrightarrow> bp_offset bp = sizeof_xtp_buf \<and> int (bp_offset bp) + 1 < bp_size bp
     \<and> bp_size bp < 2 ^ 31"

definition block_ok :: "xtp_buf_pool \<Rightarrow> xtp_buf \<Rightarrow> bool" where
  "block_ok bp b \<longleftrightarrow> b_bp b \<and> b_size b = 0 \<and> length (b_mem b) = nat (bp_size bp)"

definition buf_ok :: "xtp_buf_pool \<Rightarrow> xtp_buf \<Rightarrow> bool" where
  "buf_ok bp b \<longleftrightarrow> block_ok bp b \<and> b_start b = bp_offset bp \<and> b_end b = nat (bp_size bp) - 1
     \<and> b_start b \<le> b_pos b \<and> b_pos b \<le> b_last b \<and> b_last b \<le> b_end b"

definition pool_ok :: "xtp_buf_pool \<Rightarrow> bool" where
  "pool_ok bp \<longleftrightarrow> geometry bp \<and> bp_n bp = int (length (bp_head bp))
     \<and> (\<forall>b\<in>set (bp_head bp). block_ok bp b)"

text \<open>What is fixed once the pool exists, and what \<open>buf_ok\<close> depends on.\<close>

definition same_shape :: "xtp_buf_pool \<Rightarrow> xtp_buf_pool \<Rightarrow> bool" where
  "same_shape bp bp' \<longleftrightarrow> bp_size bp' = bp_size bp \<and> bp_offset bp' = bp_offset bp"

lemma same_shape_refl [simp]: "same_shape bp bp"
  by (simp add: same_shape_def)

lemma same_shape_trans: "same_shape a b \<Longrightarrow> same_shape b c \<Longrightarrow> same_shape a c"
  by (simp add: same_shape_def)

lemma same_shape_upd [simp]:
  "same_shape bp (bp\<lparr>bp_head := h\<rparr>)" "same_shape bp (bp\<lparr>bp_n := n\<rparr>)"
  "same_shape bp (bp\<lparr>bp_max := m\<rparr>)" "same_shape bp (push_buf b bp)"
  "same_shape bp (bp\<lparr>bp_head := h, bp_n := n\<rparr>)"
  by (simp_all add: same_shape_def push_buf_def)

lemma same_shape_buf_ok: "same_shape bp bp' \<Longrightarrow> buf_ok bp' b = buf_ok bp b"
  by (simp add: same_shape_def buf_ok_def block_ok_def)

lemma same_shape_block_ok: "same_shape bp bp' \<Longrightarrow> block_ok bp' b = block_ok bp b"
  by (simp add: same_shape_def block_ok_def)

lemma buf_ok_block: "buf_ok bp b \<Longrightarrow> block_ok bp b"
  by (simp add: buf_ok_def)

lemma reset_buf_ok: "geometry bp \<Longrightarrow> block_ok bp b \<Longrightarrow> buf_ok bp (reset_buf bp b)"
  by (auto simp: buf_ok_def block_ok_def reset_buf_def geometry_def)

lemma malloc_buf_ok: "block_ok bp (malloc_buf bp)"
  by (simp add: block_ok_def malloc_buf_def)

lemma block_ok_pos [simp]: "block_ok bp (b\<lparr>b_pos := p, b_last := l\<rparr>) = block_ok bp b"
  by (simp add: block_ok_def)

lemma block_ok_push [simp]: "block_ok (push_buf b bp) c = block_ok bp c"
  by (rule same_shape_block_ok) simp

lemma pool_ok_push: "pool_ok bp \<Longrightarrow> block_ok bp b \<Longrightarrow> pool_ok (push_buf b bp)"
  unfolding pool_ok_def by (simp add: push_buf_def geometry_def block_ok_def)

lemma pool_ok_max [simp]: "pool_ok (bp\<lparr>bp_max := m\<rparr>) = pool_ok bp"
  by (simp add: pool_ok_def geometry_def block_ok_def)

subsection \<open>The operations keep the pool well formed\<close>

text \<open>The number of successes among the answers decides how much a refill adds.\<close>

definition successes :: "nat \<Rightarrow> bool list \<Rightarrow> nat" where
  "successes k ms = length (filter id (take k ms))"

lemma init_loop_spec:
  assumes "init_loop i bp ms = Inr (bp', ms')" and "pool_ok bp"
  shows "pool_ok bp' \<and> same_shape bp bp' \<and> bp_n bp' = bp_n bp + int (successes i ms)
    \<and> bp_max bp' = bp_max bp + int (successes i ms)"
  using assms
proof (induction i bp ms rule: init_loop.induct)
  case (1 bp ms)
  then show ?case by (simp add: successes_def)
next
  case (2 i bp ms)
  then obtain ok ms1 where ms: "ms = ok # ms1" by auto
  let ?bp = "if ok then push_buf (malloc_buf bp) bp else bp"
  have "pool_ok ?bp" "same_shape bp ?bp"
    using "2.prems"(2) by (auto intro: pool_ok_push malloc_buf_ok)
  with "2.IH" [of "(ok, ms1)" ok ms1] "2.prems" ms show ?case
    by (auto simp: successes_def push_buf_def dest: same_shape_trans split: if_splits)
qed

lemma ralloc_loop_spec:
  assumes "ralloc_loop i bp ms = Inr (bp', ms')" and "pool_ok bp"
  shows "pool_ok bp' \<and> same_shape bp bp' \<and> bp_n bp' = bp_n bp + int (successes i ms)
    \<and> bp_max bp' = bp_max bp + int (successes i ms) \<and> ms' = drop i ms \<and> i \<le> length ms"
  using assms
proof (induction i bp ms rule: ralloc_loop.induct)
  case (1 bp ms)
  then show ?case by (simp add: successes_def)
next
  case (2 i bp ms)
  then obtain ok ms1 where ms: "ms = ok # ms1" by auto
  let ?b = "(malloc_buf bp)\<lparr>b_pos := bp_offset bp, b_last := bp_offset bp\<rparr>"
  let ?bp = "if ok then push_buf ?b bp else bp"
  have "pool_ok ?bp" "same_shape bp ?bp"
    using "2.prems"(2) by (auto intro: pool_ok_push simp: malloc_buf_ok)
  with "2.IH" [of "(ok, ms1)" ok ms1] "2.prems" ms show ?case
    by (auto simp: successes_def push_buf_def dest: same_shape_trans split: if_splits)
qed

lemma ralloc_loop_returns: "i \<le> length ms \<Longrightarrow> \<exists>bp'. ralloc_loop i bp ms = Inr (bp', drop i ms)"
proof (induction i arbitrary: bp ms)
  case 0
  then show ?case by simp
next
  case (Suc i)
  then obtain ok ms1 where "ms = ok # ms1" "i \<le> length ms1" by (auto simp: Suc_le_length_iff)
  with Suc.IH [of ms1] show ?case by simp
qed

lemma x_buf_init_ok:
  assumes "x_buf_init mx sz ms = Inr (bp, ms')"
    and "int sizeof_xtp_buf + 1 < sz" and "sz < 2 ^ 31"
  shows "pool_ok bp" and "bp_size bp = sz" and "bp_offset bp = sizeof_xtp_buf"
    and "bp_max bp = bp_n bp" and "bp_n bp = int (successes (nat mx) ms)"
proof -
  have "pool_ok \<lparr>bp_n = 0, bp_max = 0, bp_size = sz, bp_offset = sizeof_xtp_buf, bp_head = []\<rparr>"
    using assms(2,3) by (simp add: pool_ok_def geometry_def)
  from init_loop_spec [OF assms(1) [unfolded x_buf_init_def] this]
  show "pool_ok bp" and "bp_size bp = sz" and "bp_offset bp = sizeof_xtp_buf"
    and "bp_max bp = bp_n bp" and "bp_n bp = int (successes (nat mx) ms)"
    by (auto simp: same_shape_def)
qed

subsection \<open>x\_buf\_alloc\<close>

text \<open>
  \<open>outstanding\<close> is the number of buffers the counters say are in use.  A buffer handed out
  is empty, lies in its block, and adds one to it; the refill of a pool whose \<open>max\<close> is 0
  adds one more, because \<open>x_buf_ralloc\<close> first sets \<open>max\<close> to 1.
\<close>

definition outstanding :: "xtp_buf_pool \<Rightarrow> int" where
  "outstanding bp = bp_max bp - bp_n bp"

definition fresh_buf :: "xtp_buf_pool \<Rightarrow> xtp_buf \<Rightarrow> bool" where
  "fresh_buf bp b \<longleftrightarrow> buf_ok bp b \<and> b_pos b = b_start b \<and> b_last b = b_start b"

lemma x_buf_ralloc_ok:
  assumes "x_buf_ralloc bp num ms = Inr (bp', ms')" and "pool_ok bp"
  shows "pool_ok bp'" and "same_shape bp bp'"
    and "outstanding bp' = outstanding bp + of_bool (bp_max bp = 0)"
    and "bp_max bp' = (if bp_max bp \<noteq> 0 then bp_max bp else 1)
      + int (successes (nat (if num \<noteq> 0 then num else if bp_max bp \<noteq> 0 then bp_max bp else 1)) ms)"
proof -
  let ?bp = "bp\<lparr>bp_max := (if bp_max bp \<noteq> 0 then bp_max bp else 1)\<rparr>"
  have "pool_ok ?bp" using assms(2) by simp
  from ralloc_loop_spec [OF assms(1) [unfolded x_buf_ralloc_def Let_def] this]
  show "pool_ok bp'" and "same_shape bp bp'"
    and "outstanding bp' = outstanding bp + of_bool (bp_max bp = 0)"
    and "bp_max bp' = (if bp_max bp \<noteq> 0 then bp_max bp else 1)
      + int (successes (nat (if num \<noteq> 0 then num else if bp_max bp \<noteq> 0 then bp_max bp else 1)) ms)"
    by (auto simp: outstanding_def same_shape_def)
qed

lemma x_buf_alloc_nonempty:
  "bp_head bp \<noteq> [] \<Longrightarrow> x_buf_alloc bp ms = Some (reset_buf bp (hd (bp_head bp)), pop_buf bp, ms)"
  by (simp add: x_buf_alloc.simps)

lemma x_buf_alloc_empty:
  "bp_head bp = [] \<Longrightarrow> x_buf_alloc bp ms
     = (case x_buf_ralloc bp 0 ms of Inl e \<Rightarrow> None | Inr r \<Rightarrow> x_buf_alloc (fst r) (snd r))"
  by (simp add: x_buf_alloc.simps [of bp ms])

lemma pop_buf_ok:
  assumes "pool_ok bp" and "bp_head bp \<noteq> []"
  shows "pool_ok (pop_buf bp)" and "same_shape bp (pop_buf bp)"
    and "fresh_buf (pop_buf bp) (reset_buf bp (hd (bp_head bp)))"
    and "outstanding (pop_buf bp) = outstanding bp + 1"
proof -
  from assms obtain b h where h: "bp_head bp = b # h" by (cases "bp_head bp") auto
  show shape: "same_shape bp (pop_buf bp)" by (simp add: pop_buf_def)
  from h assms(1) have "geometry bp" "block_ok bp b" by (auto simp: pool_ok_def)
  then have "buf_ok bp (reset_buf bp b)" by (rule reset_buf_ok)
  with h shape show "fresh_buf (pop_buf bp) (reset_buf bp (hd (bp_head bp)))"
    by (simp add: fresh_buf_def reset_buf_def same_shape_buf_ok)
  show "pool_ok (pop_buf bp)"
    using assms(1) h by (simp add: pool_ok_def geometry_def block_ok_def pop_buf_def)
  show "outstanding (pop_buf bp) = outstanding bp + 1"
    by (simp add: outstanding_def pop_buf_def)
qed

definition alloc_post :: "xtp_buf_pool \<Rightarrow> xtp_buf \<times> xtp_buf_pool \<times> bool list \<Rightarrow> bool" where
  "alloc_post bp r \<longleftrightarrow> (case r of (b, bp', ms') \<Rightarrow>
     pool_ok bp' \<and> same_shape bp bp' \<and> fresh_buf bp' b
     \<and> outstanding bp' = outstanding bp + 1 + of_bool (bp_max bp = 0 \<and> bp_head bp = []))"

text \<open>A refill leaves a pool whose \<open>max\<close> is not 0, so the correction is made at most once.\<close>

lemma alloc_post_refill:
  assumes "x_buf_ralloc bp 0 ms = Inr (bp1, ms1)" and "pool_ok bp" and "bp_head bp = []"
    and "alloc_post bp1 r"
  shows "alloc_post bp r"
proof -
  note refill = x_buf_ralloc_ok [OF assms(1,2)]
  have "bp_max bp1 \<noteq> 0"
    using refill(4) by (cases "bp_max bp < 0") (auto simp: successes_def split: if_splits)
  with assms(3,4) refill show ?thesis
    by (auto simp: alloc_post_def dest: same_shape_trans split: prod.splits)
qed

lemma x_buf_alloc_post: "x_buf_alloc bp ms = Some r \<Longrightarrow> pool_ok bp \<longrightarrow> alloc_post bp r"
proof (rule x_buf_alloc.raw_induct [where P = "\<lambda>bp ms r. pool_ok bp \<longrightarrow> alloc_post bp r"])
  fix alloc bp ms r
  assume IH: "\<And>bp ms r. alloc bp ms = Some r \<Longrightarrow> pool_ok bp \<longrightarrow> alloc_post bp r"
    and run: "(if bp_head bp = [] then
        (case x_buf_ralloc bp 0 ms of Inl e \<Rightarrow> None | Inr r \<Rightarrow> alloc (fst r) (snd r))
      else Some (reset_buf bp (hd (bp_head bp)), pop_buf bp, ms)) = Some r"
  show "pool_ok bp \<longrightarrow> alloc_post bp r"
  proof (intro impI, cases "bp_head bp = []")
    case False
    assume "pool_ok bp"
    with False pop_buf_ok [OF this False] run show "alloc_post bp r"
      by (auto simp: alloc_post_def)
  next
    case True
    assume ok: "pool_ok bp"
    from True run obtain bp1 ms1 where r1: "x_buf_ralloc bp 0 ms = Inr (bp1, ms1)"
      and "alloc bp1 ms1 = Some r" by (auto split: sum.splits)
    with IH x_buf_ralloc_ok(1) [OF r1 ok] have "alloc_post bp1 r" by blast
    with r1 ok True show "alloc_post bp r" by (rule alloc_post_refill)
  qed
qed

lemma x_buf_alloc_spec:
  assumes "x_buf_alloc bp ms = Some (b, bp', ms')" and "pool_ok bp"
  shows "pool_ok bp'" and "same_shape bp bp'" and "fresh_buf bp' b"
    and "outstanding bp' = outstanding bp + 1 + of_bool (bp_max bp = 0 \<and> bp_head bp = [])"
  using x_buf_alloc_post [OF assms(1)] assms(2) by (auto simp: alloc_post_def)

lemma successes_nonzero: "True \<in> set (take k ms) \<Longrightarrow> successes k ms \<noteq> 0"
  by (auto simp: successes_def filter_empty_conv)

lemma x_buf_ralloc_0:
  "x_buf_ralloc bp 0 ms = ralloc_loop (nat (if bp_max bp \<noteq> 0 then bp_max bp else 1))
     (bp\<lparr>bp_max := if bp_max bp \<noteq> 0 then bp_max bp else 1\<rparr>) ms"
  by (simp add: x_buf_ralloc_def del: ralloc_loop.simps)

text \<open>
  An allocation returns as soon as one block of the first refill can be had; when no
  \<open>malloc\<close> succeeds, no number of refills makes it return.
\<close>

lemma x_buf_alloc_returns:
  assumes "pool_ok bp"
    and "bp_head bp = [] \<longrightarrow> nat (if bp_max bp \<noteq> 0 then bp_max bp else 1) \<le> length ms
      \<and> True \<in> set (take (nat (if bp_max bp \<noteq> 0 then bp_max bp else 1)) ms)"
  shows "\<exists>y. x_buf_alloc bp ms = Some y"
proof (cases "bp_head bp = []")
  case False
  then show ?thesis by (simp add: x_buf_alloc_nonempty)
next
  case True
  let ?k = "nat (if bp_max bp \<noteq> 0 then bp_max bp else 1)"
  have k: "?k \<le> length ms" using assms(2) True by blast
  obtain bp1 where
    "ralloc_loop ?k (bp\<lparr>bp_max := if bp_max bp \<noteq> 0 then bp_max bp else 1\<rparr>) ms = Inr (bp1, drop ?k ms)"
    using ralloc_loop_returns [OF k] by blast
  then have r1: "x_buf_ralloc bp 0 ms = Inr (bp1, drop ?k ms)"
    by (simp only: x_buf_ralloc_0)
  have "True \<in> set (take ?k ms)" using assms(2) True by blast
  then have "successes ?k ms \<noteq> 0" by (rule successes_nonzero)
  moreover have "bp_n bp1 = int (successes ?k ms)"
    using x_buf_ralloc_ok(3,4) [OF r1 assms(1)] True assms(1)
    by (cases "bp_max bp = 0") (simp_all add: pool_ok_def outstanding_def)
  ultimately have "bp_head bp1 \<noteq> []"
    using x_buf_ralloc_ok(1) [OF r1 assms(1)] by (auto simp: pool_ok_def)
  with True r1 show ?thesis by (simp add: x_buf_alloc_empty x_buf_alloc_nonempty)
qed

lemma ralloc_loop_fail:
  "ralloc_loop i bp (replicate k False)
     = (if i \<le> k then Inr (bp, replicate (k - i) False) else Inl Script_end)"
proof (induction i arbitrary: k)
  case 0
  then show ?case by simp
next
  case (Suc i)
  then show ?case by (cases k) simp_all
qed

lemma x_buf_alloc_no_memory:
  "bp_head bp = [] \<Longrightarrow> 0 < bp_max bp \<Longrightarrow> x_buf_alloc bp (replicate k False) = None"
proof (induction k rule: less_induct)
  case (less k)
  have r: "x_buf_ralloc bp 0 (replicate k False)
      = (if nat (bp_max bp) \<le> k then Inr (bp, replicate (k - nat (bp_max bp)) False)
         else Inl Script_end)"
    using less.prems(2) by (simp add: x_buf_ralloc_def ralloc_loop_fail)
  show ?case
  proof (cases "nat (bp_max bp) \<le> k")
    case True
    then have "x_buf_alloc bp (replicate (k - nat (bp_max bp)) False) = None"
      using less by simp
    with True r less.prems(1) show ?thesis by (simp add: x_buf_alloc_empty)
  next
    case False
    with r less.prems(1) show ?thesis by (simp add: x_buf_alloc_empty)
  qed
qed

subsection \<open>x\_buf\_free, and the contract of the pool\<close>

lemma x_buf_free_block:
  "block_ok bp b \<Longrightarrow> 0 \<le> bp_size bp \<Longrightarrow> x_buf_free bp (Some b)
     = (bp\<lparr>bp_head := b # bp_head bp, bp_n := bp_n bp + 1\<rparr>, None)"
  by (simp add: x_buf_free_def block_ok_def)

lemma x_buf_free_shape: "same_shape bp (fst (x_buf_free bp bo))"
  by (simp add: x_buf_free_def same_shape_def split: option.splits)

lemma geometry_pos: "geometry bp \<Longrightarrow> 0 \<le> bp_size bp"
  by (simp add: geometry_def)

lemma x_buf_free_ok:
  assumes "pool_ok bp" and "block_ok bp b"
  shows "pool_ok (fst (x_buf_free bp (Some b)))"
    and "bp_n (fst (x_buf_free bp (Some b))) = bp_n bp + 1"
    and "outstanding (fst (x_buf_free bp (Some b))) = outstanding bp - 1"
    and "snd (x_buf_free bp (Some b)) = None"
proof -
  have "0 \<le> bp_size bp" using assms(1) by (simp add: pool_ok_def geometry_pos)
  note free = x_buf_free_block [OF assms(2) this]
  show "pool_ok (fst (x_buf_free bp (Some b)))"
    using assms by (simp add: free pool_ok_def geometry_def block_ok_def)
  show "bp_n (fst (x_buf_free bp (Some b))) = bp_n bp + 1"
    and "outstanding (fst (x_buf_free bp (Some b))) = outstanding bp - 1"
    and "snd (x_buf_free bp (Some b)) = None"
    by (simp_all add: free outstanding_def)
qed

text \<open>
  What the event handlers rely on: they take buffers from a pool and give them back.
  \<open>fits\<close> says that a block belongs to pools of this shape.  The client's lemmas: a block
  taken can be given back, and giving back a whole chain leaves a well-formed pool with
  as many more free blocks.
\<close>

locale buffer_pool =
  fixes get :: "'p \<Rightarrow> 'm \<Rightarrow> ('b \<times> 'p \<times> 'm) option"
    and put :: "'p \<Rightarrow> 'b \<Rightarrow> 'p"
    and ok :: "'p \<Rightarrow> bool"
    and shape :: "'p \<Rightarrow> 'p \<Rightarrow> bool"
    and fits :: "'p \<Rightarrow> 'b \<Rightarrow> bool"
    and free_count :: "'p \<Rightarrow> int"
  assumes get_ok: "ok p \<Longrightarrow> get p m = Some (b, p', m') \<Longrightarrow> ok p' \<and> shape p p' \<and> fits p' b"
    and put_ok: "ok p \<Longrightarrow> fits p b \<Longrightarrow> ok (put p b)"
    and put_count: "ok p \<Longrightarrow> fits p b \<Longrightarrow> free_count (put p b) = free_count p + 1"
    and put_shape: "shape p (put p b)"
    and shape_fits: "shape p p' \<Longrightarrow> fits p' b = fits p b"
    and shape_refl: "shape p p"
    and shape_trans: "shape p p' \<Longrightarrow> shape p' p'' \<Longrightarrow> shape p p''"
begin

lemma give_back: "ok p \<Longrightarrow> get p m = Some (b, p', m') \<Longrightarrow> ok (put p' b)"
  using get_ok put_ok by blast

lemma put_all_shape: "shape p (foldl put p bs)"
  by (induction bs arbitrary: p) (auto intro: shape_refl shape_trans put_shape)

lemma put_all:
  "ok p \<Longrightarrow> \<forall>b\<in>set bs. fits p b
    \<Longrightarrow> ok (foldl put p bs) \<and> free_count (foldl put p bs) = free_count p + int (length bs)"
proof (induction bs arbitrary: p)
  case Nil
  then show ?case by simp
next
  case (Cons b bs)
  from Cons.prems have "ok (put p b)" and "\<forall>c\<in>set bs. fits (put p b) c"
    and "free_count (put p b) = free_count p + 1"
    by (simp_all add: put_ok put_count shape_fits [OF put_shape])
  with Cons.IH [of "put p b"] show ?case by simp
qed

end

definition buf_free :: "xtp_buf_pool \<Rightarrow> xtp_buf \<Rightarrow> xtp_buf_pool" where
  "buf_free bp b = fst (x_buf_free bp (Some b))"

interpretation bpool: buffer_pool x_buf_alloc buf_free pool_ok same_shape block_ok bp_n
proof
  fix p m b p' m'
  assume "pool_ok p" and "x_buf_alloc p m = Some (b, p', m')"
  then show "pool_ok p' \<and> same_shape p p' \<and> block_ok p' b"
    using x_buf_alloc_spec by (simp add: fresh_buf_def buf_ok_block)
qed (auto simp: buf_free_def x_buf_free_ok x_buf_free_shape same_shape_block_ok
    intro: same_shape_trans)

subsection \<open>x\_buf\_uninit\<close>

lemma x_buf_uninit_loop_eq: "x_buf_uninit_loop freed bs = freed @ bs"
  by (induction freed bs rule: x_buf_uninit_loop.induct) simp_all

lemma x_buf_uninit_eq: "x_buf_uninit bp = (bp_head bp, bp\<lparr>bp_head := []\<rparr>)"
  by (simp add: x_buf_uninit_def x_buf_uninit_loop_eq)

subsection \<open>x\_buf\_adjust\<close>

lemma adjust_newsize_eq:
  assumes "0 \<le> sz" and "sz + int offset + int BUFSIZ < 2 ^ 31"
  shows "adjust_newsize sz offset = ((sz + int offset) div int BUFSIZ + 1) * int BUFSIZ"
proof -
  define a where "a = sz + int offset"
  define q where "q = a div 8192"
  define v where "v = (q + 1) * 8192"
  have B: "int BUFSIZ = 8192" by (simp add: BUFSIZ_def)
  have a: "0 \<le> a" "a + 8192 < 2 ^ 31" using assms unfolding a_def B by linarith+
  have q: "0 \<le> q" "q * 8192 \<le> a"
    using a(1) minus_mod_eq_div_mult [of a 8192] pos_mod_sign [of 8192 a]
    by (simp_all add: q_def pos_imp_zdiv_nonneg_iff)
  have v: "0 < v" "v \<le> a + 8192" using q by (simp_all add: v_def)
  have ua: "uint (word_of_int a :: 64 word) = a"
    using a by (simp add: uint_word_of_int)
  have quot: "word_of_int a div word_of_int 8192 = (word_of_int q :: 64 word)"
  proof -
    have "uint (word_of_int a div word_of_int 8192 :: 64 word) = q"
      by (simp add: uint_div_distrib ua q_def)
    then show ?thesis by (metis word_of_int_uint)
  qed
  have sum: "word_of_int sz + of_nat offset = (word_of_int a :: 64 word)" by (simp add: a_def)
  have w: "((word_of_int sz + of_nat offset) div of_nat BUFSIZ + 1) * of_nat BUFSIZ
      = (word_of_int v :: 64 word)"
    using quot by (simp add: sum BUFSIZ_def v_def)
  have "uint (word_of_int v :: 64 word) = v" using a v by (simp add: uint_word_of_int)
  then have "ucast (word_of_int v :: 64 word) = (word_of_int v :: u32)"
    by (metis ucast_eq)
  then have "adjust_newsize sz offset = sint (word_of_int v :: u32)"
    by (simp add: adjust_newsize_def w Let_def)
  also have "\<dots> = v" by (rule sint_word_of_int_u32) (use a v in simp_all)
  finally show ?thesis by (simp add: v_def q_def a_def B)
qed

lemma x_buf_adjust_grow:
  assumes "b_size b < sz" and "0 \<le> sz" and "sz + int (bp_offset bp) + int BUFSIZ < 2 ^ 31"
    and "x_buf_adjust bp b sz (Some fresh) = Some b'"
  shows "length (b_mem b') = nat (adjust_newsize sz (bp_offset bp))"
    and "b_size b' = adjust_newsize sz (bp_offset bp) - int (bp_offset bp)" and "sz < b_size b'"
    and "b_pos b' = b_start b'" and "b_last b' = b_start b'" and "b_end b' < length (b_mem b')"
    and "b_bp b' = b_bp b"
proof -
  let ?n = "adjust_newsize sz (bp_offset bp)"
  have n: "sz + int (bp_offset bp) < ?n"
  proof -
    define a where "a = sz + int (bp_offset bp)"
    have "?n = (a div 8192 + 1) * 8192"
      using adjust_newsize_eq [OF assms(2,3)] by (simp add: a_def BUFSIZ_def)
    also have "\<dots> = a - a mod 8192 + 8192" by (simp add: minus_mod_eq_div_mult [symmetric])
    finally show ?thesis using pos_mod_bound [of 8192 a] by (simp add: a_def)
  qed
  from assms(1,4) have b': "b' = b\<lparr>b_mem := map (\<lambda>i. if i < length (b_mem b) then b_mem b ! i else fresh i)
      [0..<nat ?n], b_size := ?n - int (bp_offset bp), b_start := bp_offset bp, b_end := nat ?n - 1,
      b_pos := bp_offset bp, b_last := bp_offset bp\<rparr>"
    by (simp add: x_buf_adjust_def Let_def)
  then show "length (b_mem b') = nat ?n" and "b_size b' = ?n - int (bp_offset bp)"
    and "sz < b_size b'" and "b_pos b' = b_start b'" and "b_last b' = b_start b'"
    and "b_bp b' = b_bp b"
    using n by simp_all
  show "b_end b' < length (b_mem b')" using b' n assms(2) by simp
qed

subsection \<open>Properties\<close>

text \<open>A buffer that \<open>x_buf_alloc\<close> returns from a well-formed pool is empty and its pointers
  lie inside its block, whatever refills were needed; the pool stays well formed and the number
  of buffers its counters call in use grows by one, and by one more when the pool was empty
  with \<open>max\<close> 0.\<close>

theorem x_buf_alloc_contract:
  assumes "pool_ok bp" and "x_buf_alloc bp ms = Some (b, bp', ms')"
  shows "pool_ok bp' \<and> bp_size bp' = bp_size bp
    \<and> b_start b = b_pos b \<and> b_pos b = b_last b \<and> b_last b < b_end b \<and> b_end b < length (b_mem b)
    \<and> outstanding bp' = outstanding bp + 1 + of_bool (bp_max bp = 0 \<and> bp_head bp = [])"
  using x_buf_alloc_spec [OF assms(2,1)] assms(1)
  by (auto simp: fresh_buf_def same_shape_def pool_ok_def geometry_def buf_ok_def block_ok_def)

definition example_pool :: xtp_buf_pool where
  "example_pool = \<lparr>bp_n = 0, bp_max = 2, bp_size = 70, bp_offset = sizeof_xtp_buf, bp_head = []\<rparr>"

lemma example_pool_ok: "pool_ok example_pool"
  by (simp add: example_pool_def pool_ok_def geometry_def sizeof_xtp_buf_def)

theorem x_buf_alloc_contract_witness:
  "\<exists>b bp' ms'. x_buf_alloc example_pool [False, True] = Some (b, bp', ms') \<and> b_last b < b_end b
    \<and> outstanding bp' = 3"
proof -
  obtain b bp' ms' where run: "x_buf_alloc example_pool [False, True] = Some (b, bp', ms')"
    by (simp add: x_buf_alloc.simps example_pool_def x_buf_ralloc_def push_buf_def numeral_2_eq_2)
  from x_buf_alloc_contract [OF example_pool_ok run] have "b_last b < b_end b \<and> outstanding bp' = 3"
    by (simp add: outstanding_def example_pool_def)
  with run show ?thesis by blast
qed

text \<open>C30: \<open>x_buf_alloc\<close> returns from a well-formed pool as soon as the pool is not empty, whatever memory there
  is, or one of the \<open>malloc\<close> calls of the first refill succeeds; a refill makes \<open>max\<close> calls, and one
  if \<open>max\<close> is 0, as in a pool that got no memory when it was set up.\<close>

theorem x_buf_alloc_terminates:
  assumes "pool_ok bp" and "calls = (if bp_max bp = 0 then 1 else nat (bp_max bp))"
    and "bp_head bp \<noteq> [] \<or> calls \<le> length ms \<and> True \<in> set (take calls ms)"
  shows "\<exists>b bp' ms'. x_buf_alloc bp ms = Some (b, bp', ms')"
proof -
  have "\<exists>y. x_buf_alloc bp ms = Some y"
    by (rule x_buf_alloc_returns [OF assms(1)]) (use assms(2,3) in \<open>auto split: if_splits\<close>)
  then show ?thesis by auto
qed

text \<open>A pool of two without a free buffer, and one that has never had a buffer.\<close>

theorem x_buf_alloc_terminates_witness:
  "(\<exists>b bp' ms'. x_buf_alloc example_pool [False, True] = Some (b, bp', ms'))
    \<and> (\<exists>b bp' ms'. x_buf_alloc (example_pool\<lparr>bp_max := 0\<rparr>) [True] = Some (b, bp', ms'))"
proof
  show "\<exists>b bp' ms'. x_buf_alloc example_pool [False, True] = Some (b, bp', ms')"
    by (rule x_buf_alloc_terminates [OF example_pool_ok refl]) (simp add: example_pool_def)
  have "pool_ok (example_pool\<lparr>bp_max := 0\<rparr>)" using example_pool_ok by simp
  then show "\<exists>b bp' ms'. x_buf_alloc (example_pool\<lparr>bp_max := 0\<rparr>) [True] = Some (b, bp', ms')"
    by (rule x_buf_alloc_terminates [OF _ refl]) simp
qed

text \<open>\<open>x_buf_alloc\<close> on an empty pool does not return while \<open>malloc\<close> fails, however many
  refills it makes: the recursion has no exit for the lack of memory.\<close>

theorem x_buf_alloc_oom:
  assumes "bp_head bp = []" and "0 < bp_max bp"
  shows "\<forall>k. x_buf_alloc bp (replicate k False) = None"
  using x_buf_alloc_no_memory [OF assms] by blast

theorem x_buf_alloc_oom_witness: "\<forall>k. x_buf_alloc example_pool (replicate k False) = None"
  by (rule x_buf_alloc_oom) (simp_all add: example_pool_def)

text \<open>Taking a buffer from a pool that has one and giving it back restores the pool: its free
  list is the same up to the pointers of the first block, and both counters are the same.\<close>

theorem x_buf_alloc_free_roundtrip:
  assumes "pool_ok bp" and "bp_head bp = h # hs"
  shows "\<exists>b bp'. x_buf_alloc bp ms = Some (b, bp', ms)
    \<and> x_buf_free bp' (Some b) = (bp\<lparr>bp_head := reset_buf bp h # hs\<rparr>, None)"
proof -
  have run: "x_buf_alloc bp ms = Some (reset_buf bp h, pop_buf bp, ms)"
    using assms(2) by (simp add: x_buf_alloc_nonempty)
  have "block_ok (pop_buf bp) (reset_buf bp h)"
    using assms by (simp add: pool_ok_def block_ok_def reset_buf_def pop_buf_def)
  moreover have "0 \<le> bp_size (pop_buf bp)"
    using assms(1) by (simp add: pool_ok_def geometry_def pop_buf_def)
  ultimately have "x_buf_free (pop_buf bp) (Some (reset_buf bp h))
      = (bp\<lparr>bp_head := reset_buf bp h # hs\<rparr>, None)"
    using assms(2) by (simp add: x_buf_free_block pop_buf_def)
  with run show ?thesis by blast
qed

theorem x_buf_alloc_free_roundtrip_witness:
  "\<exists>b bp'. x_buf_alloc (push_buf (malloc_buf example_pool) example_pool) [] = Some (b, bp', [])
    \<and> bp_n (fst (x_buf_free bp' (Some b))) = 1"
proof -
  let ?bp = "push_buf (malloc_buf example_pool) example_pool"
  have ok: "pool_ok ?bp" by (rule pool_ok_push [OF example_pool_ok malloc_buf_ok])
  have "bp_head ?bp = malloc_buf example_pool # []" by (simp add: push_buf_def example_pool_def)
  from x_buf_alloc_free_roundtrip [OF ok this, of "[]"]
  obtain b bp' where "x_buf_alloc ?bp [] = Some (b, bp', [])"
    and "fst (x_buf_free bp' (Some b)) = ?bp\<lparr>bp_head := [reset_buf ?bp (malloc_buf example_pool)]\<rparr>"
    by auto
  then show ?thesis by (simp add: push_buf_def example_pool_def)
qed

text \<open>In a pool whose blocks are larger than \<open>BUFSIZ\<close>, \<open>x_buf_adjust\<close> can shrink a block, and
  \<open>x_buf_free\<close> then puts it on the free list: the next \<open>x_buf_alloc\<close> hands out a buffer whose
  \<open>end\<close> lies outside its block.\<close>

theorem x_buf_adjust_overflow:
  assumes "pool_ok bp" and "block_ok bp b" and "0 < sz" and "sz + int (bp_offset bp) < int BUFSIZ"
    and "int BUFSIZ < bp_size bp" and "x_buf_adjust bp b sz (Some fresh) = Some b'"
  shows "\<exists>bp' b'' bp''. x_buf_free bp (Some b') = (bp', None)
    \<and> x_buf_alloc bp' ms = Some (b'', bp'', ms) \<and> length (b_mem b'') \<le> b_end b''"
proof -
  have B: "int BUFSIZ = 8192" by (simp add: BUFSIZ_def)
  have "(sz + int (bp_offset bp)) div int BUFSIZ = 0"
    using assms(3,4) by (simp add: div_pos_pos_trivial)
  then have n: "adjust_newsize sz (bp_offset bp) = 8192"
    using adjust_newsize_eq [of sz "bp_offset bp"] assms(3,4) B by simp
  have "b_size b < sz" using assms(2,3) by (simp add: block_ok_def)
  moreover have "sz + int (bp_offset bp) + int BUFSIZ < 2 ^ 31" using assms(4) B by simp
  ultimately have b': "length (b_mem b') = 8192" "b_size b' = 8192 - int (bp_offset bp)" "b_bp b'"
    using x_buf_adjust_grow [OF _ _ _ assms(6)] n assms(2,3) by (simp_all add: block_ok_def)
  have free: "x_buf_free bp (Some b') = (bp\<lparr>bp_head := b' # bp_head bp, bp_n := bp_n bp + 1\<rparr>, None)"
    using b' assms(5) B by (simp add: x_buf_free_def)
  let ?bp' = "bp\<lparr>bp_head := b' # bp_head bp, bp_n := bp_n bp + 1\<rparr>"
  have alloc: "x_buf_alloc ?bp' ms = Some (reset_buf ?bp' b', pop_buf ?bp', ms)"
    by (simp add: x_buf_alloc_nonempty)
  have "length (b_mem (reset_buf ?bp' b')) \<le> b_end (reset_buf ?bp' b')"
    using b' assms(5) B by (simp add: reset_buf_def)
  with free alloc show ?thesis by blast
qed

theorem x_buf_adjust_overflow_witness:
  "\<exists>b' bp' b'' bp''. x_buf_adjust (example_pool\<lparr>bp_size := 16384\<rparr>)
      (malloc_buf (example_pool\<lparr>bp_size := 16384\<rparr>)) 100 (Some (\<lambda>_. 0)) = Some b'
    \<and> x_buf_free (example_pool\<lparr>bp_size := 16384\<rparr>) (Some b') = (bp', None)
    \<and> x_buf_alloc bp' [] = Some (b'', bp'', []) \<and> length (b_mem b'') \<le> b_end b''"
proof -
  let ?bp = "example_pool\<lparr>bp_size := 16384\<rparr>"
  have ok: "pool_ok ?bp" by (simp add: example_pool_def pool_ok_def geometry_def sizeof_xtp_buf_def)
  obtain b' where "x_buf_adjust ?bp (malloc_buf ?bp) 100 (Some (\<lambda>_. 0)) = Some b'"
    by (simp add: x_buf_adjust_def malloc_buf_def Let_def)
  from this x_buf_adjust_overflow [OF ok malloc_buf_ok _ _ _ this, of "[]"] show ?thesis
    by (simp add: example_pool_def sizeof_xtp_buf_def BUFSIZ_def)
qed

end
