(* ===== verification/Pipe.thy ===== *)
theory Pipe
  imports Nio Bufpool
begin

section \<open>The buffer chains between a client and its upstream server\<close>

text \<open>
  A connection has two chains of buffers (\<open>pipe1\<close> and \<open>pipe2\<close> of \<open>struct xtp_conn_s\<close>),
  each an \<open>STAILQ\<close> of \<open>xtp_buf_s\<close> written at its tail by one callback and read at its
  head by another.  This theory holds the loops of the four callbacks that move bytes:
  the receive loop that \<open>x_recv_cb\<close> (src/xtp\_access.c) and \<open>x_upstream_recv_cb\<close>
  (src/xtp\_upstream.c) share, the inner send loop that \<open>x_send_cb\<close> and
  \<open>x_upstream_send_cb\<close> share, and the outer send loop of each of the two.  A chain is the
  list of its buffers, head first.  The lemmas relate a chain to the byte string it
  holds: receiving appends to it, sending takes from its front.
\<close>

subsection \<open>The receive loop\<close>

datatype recv_out = Drained | Closed

text \<open>\<open>recv(2)\<close> writes at \<open>buf->last\<close>; that \<open>last\<close> moves is a separate step of the code.\<close>

definition store :: "xtp_buf \<Rightarrow> byte list \<Rightarrow> xtp_buf" where
  "store buf bs = buf\<lparr>b_mem := write_at (b_mem buf) (b_last buf) bs\<rparr>"

text \<open>A difference of two pointers, passed as an \<open>unsigned int\<close>.\<close>

definition ptrdiff :: "nat \<Rightarrow> nat \<Rightarrow> u32" where
  "ptrdiff q p = word_of_int (int q - int p)"

definition buf_alloc ::
  "xtp_buf_pool \<Rightarrow> bool list \<Rightarrow> fault + (xtp_buf \<times> xtp_buf_pool \<times> bool list)" where
  "buf_alloc bp ms = (case x_buf_alloc bp ms of None \<Rightarrow> Inl No_return | Some r \<Rightarrow> Inr r)"

lemma buf_alloc_Inr [simp]: "buf_alloc bp ms = Inr r \<longleftrightarrow> x_buf_alloc bp ms = Some r"
  by (simp add: buf_alloc_def split: option.splits)

function recv2buf ::
  "xtp_buf list \<Rightarrow> xtp_buf \<Rightarrow> xtp_buf_pool \<Rightarrow> recv_item list \<Rightarrow> bool list
    \<Rightarrow> fault + (recv_out \<times> xtp_buf list \<times> xtp_buf_pool \<times> recv_item list \<times> bool list)" where
  "recv2buf front buf bp rs ms =
     (if b_last buf \<noteq> b_end buf then
        bindR (x_recvn (ptrdiff (b_end buf) (b_last buf)) rs) (\<lambda>(len, bs, rs').
          let buf1 = store buf bs in
          if len < 0 then Inr (Closed, front @ [buf1], bp, rs', ms)
          else if len = 0 then Inr (Drained, front @ [buf1], bp, rs', ms)
          else
            let buf2 = buf1\<lparr>b_last := b_last buf1 + nat len\<rparr> in
            if b_end buf2 = b_last buf2 then
              bindR (buf_alloc bp ms) (\<lambda>(nbuf, bp', ms').
                recv2buf (front @ [buf2]) nbuf bp' rs' ms')
            else recv2buf front buf2 bp rs' ms)
      else Inr (Drained, front @ [buf], bp, rs, ms))"
  by pat_completeness auto
termination
  by (relation "measure (\<lambda>(front, buf, bp, rs, ms). recv_size rs)")
    (auto dest: x_recvn_progress)

declare recv2buf.simps [simp del]

text \<open>The whole receive part of a callback: the tail buffer, or a new one for an empty chain.\<close>

definition pipe_recv ::
  "xtp_buf list \<Rightarrow> xtp_buf_pool \<Rightarrow> recv_item list \<Rightarrow> bool list
    \<Rightarrow> fault + (recv_out \<times> xtp_buf list \<times> xtp_buf_pool \<times> recv_item list \<times> bool list)" where
  "pipe_recv pipe bp rs ms =
     (if pipe = [] then
        bindR (buf_alloc bp ms) (\<lambda>(buf, bp', ms'). recv2buf [] buf bp' rs ms')
      else recv2buf (butlast pipe) (last pipe) bp rs ms)"

subsection \<open>The send loops\<close>

datatype send_out = Send_error | Send_again | Send_done | Send_empty

lemma x_sendn_positive:
  assumes "x_sendn nLen str ss = Inr (ret, out, ss')" and "0 < ret"
  shows "length ss' < length ss"
proof (cases "0 < sint nLen")
  case True
  with assms(1) show ?thesis by (rule x_sendn_progress)
next
  case False
  with assms show ?thesis by (simp add: x_sendn_def sendn_loop.simps)
qed

function send_while ::
  "xtp_buf \<Rightarrow> byte list \<Rightarrow> send_item list
    \<Rightarrow> fault + (send_out \<times> xtp_buf \<times> byte list \<times> send_item list)" where
  "send_while buf sent ss =
     (if b_pos buf \<noteq> b_last buf then
        bindR (x_sendn (ptrdiff (b_last buf) (b_pos buf))
                 (slice (b_pos buf) (b_last buf) (b_mem buf)) ss) (\<lambda>(len, out, ss').
          if len < 0 then Inr (Send_error, buf, sent @ out, ss')
          else if len = 0 then Inr (Send_again, buf, sent @ out, ss')
          else send_while (buf\<lparr>b_pos := b_pos buf + nat len\<rparr>) (sent @ out) ss')
      else Inr (Send_done, buf, sent, ss))"
  by pat_completeness auto
termination
  by (relation "measure (\<lambda>(buf, sent, ss). length ss)") (auto dest: x_sendn_positive)

declare send_while.simps [simp del]

text \<open>
  The outer loop of \<open>x_send_cb\<close>: on a full socket buffer (\<open>Send_again\<close>) the callback
  returns at once.
\<close>

fun access_bufsend ::
  "xtp_buf list \<Rightarrow> xtp_buf_pool \<Rightarrow> byte list \<Rightarrow> send_item list
    \<Rightarrow> fault + (send_out \<times> xtp_buf list \<times> xtp_buf_pool \<times> byte list \<times> send_item list)" where
  "access_bufsend [] bp sent ss = Inr (Send_empty, [], bp, sent, ss)"
| "access_bufsend (buf # rest) bp sent ss =
     bindR (send_while buf sent ss) (\<lambda>(out, buf', sent', ss').
       if out = Send_error \<or> out = Send_again then Inr (out, buf' # rest, bp, sent', ss')
       else if b_pos buf' = b_end buf' then
         access_bufsend rest (buf_free bp buf') sent' ss'
       else Inr (out, buf' # rest, bp, sent', ss'))"

text \<open>
  The outer loop of \<open>x_upstream_send_cb\<close>: a full socket buffer only leaves the inner loop,
  and the code goes on to the comparison of \<open>pos\<close> and \<open>end\<close>.
\<close>

fun upstream_bufsend ::
  "xtp_buf list \<Rightarrow> xtp_buf_pool \<Rightarrow> byte list \<Rightarrow> send_item list
    \<Rightarrow> fault + (send_out \<times> xtp_buf list \<times> xtp_buf_pool \<times> byte list \<times> send_item list)" where
  "upstream_bufsend [] bp sent ss = Inr (Send_empty, [], bp, sent, ss)"
| "upstream_bufsend (buf # rest) bp sent ss =
     bindR (send_while buf sent ss) (\<lambda>(out, buf', sent', ss').
       if out = Send_error then Inr (out, buf' # rest, bp, sent', ss')
       else if b_pos buf' = b_end buf' then
         upstream_bufsend rest (buf_free bp buf') sent' ss'
       else Inr (out, buf' # rest, bp, sent', ss'))"

subsection \<open>What a chain holds\<close>

definition buf_bytes :: "xtp_buf \<Rightarrow> byte list" where
  "buf_bytes b = slice (b_pos b) (b_last b) (b_mem b)"

definition pipe_bytes :: "xtp_buf list \<Rightarrow> byte list" where
  "pipe_bytes pipe = concat (map buf_bytes pipe)"

text \<open>Only the last buffer of a chain has room, and it always has.\<close>

definition pipe_ok :: "xtp_buf_pool \<Rightarrow> xtp_buf list \<Rightarrow> bool" where
  "pipe_ok bp pipe \<longleftrightarrow> (\<forall>b\<in>set pipe. buf_ok bp b)
     \<and> (\<forall>b\<in>set (butlast pipe). b_last b = b_end b)
     \<and> (pipe \<noteq> [] \<longrightarrow> b_last (last pipe) \<noteq> b_end (last pipe))"

lemma pipe_bytes_simps [simp]:
  "pipe_bytes [] = []"
  "pipe_bytes (b # pipe) = buf_bytes b @ pipe_bytes pipe"
  "pipe_bytes (xs @ ys) = pipe_bytes xs @ pipe_bytes ys"
  by (simp_all add: pipe_bytes_def)

lemma pipe_ok_Nil [simp]: "pipe_ok bp []"
  by (simp add: pipe_ok_def)

lemma pipe_ok_snoc:
  "pipe_ok bp (front @ [buf]) \<longleftrightarrow>
     (\<forall>b\<in>set front. buf_ok bp b \<and> b_last b = b_end b) \<and> buf_ok bp buf \<and> b_last buf \<noteq> b_end buf"
  by (auto simp: pipe_ok_def butlast_append)

lemma pipe_ok_Cons:
  "pipe_ok bp (b # rest) \<longleftrightarrow> buf_ok bp b \<and> pipe_ok bp rest
     \<and> (if rest = [] then b_last b \<noteq> b_end b else b_last b = b_end b)"
  by (auto simp: pipe_ok_def)

lemma pipe_ok_shape: "same_shape bp bp' \<Longrightarrow> pipe_ok bp' pipe = pipe_ok bp pipe"
  by (simp add: pipe_ok_def same_shape_buf_ok)

lemma fresh_buf_room:
  "pool_ok bp \<Longrightarrow> fresh_buf bp b \<Longrightarrow> b_last b \<noteq> b_end b \<and> buf_bytes b = []"
  by (auto simp: pool_ok_def geometry_def fresh_buf_def buf_ok_def buf_bytes_def)

lemma buf_ok_bounds:
  assumes "pool_ok bp" and "buf_ok bp b"
  shows "b_end b < length (b_mem b)" and "length (b_mem b) < 2 ^ 31"
    and "b_start b \<le> b_pos b" and "b_pos b \<le> b_last b" and "b_last b \<le> b_end b"
  using assms by (auto simp: pool_ok_def geometry_def buf_ok_def block_ok_def)

lemma buf_ok_store:
  "buf_ok bp b \<Longrightarrow> b_last b + length bs \<le> length (b_mem b) \<Longrightarrow> buf_ok bp (store b bs)"
  by (simp add: buf_ok_def block_ok_def store_def)

lemma store_fields [simp]:
  "b_last (store b bs) = b_last b" "b_end (store b bs) = b_end b" "b_pos (store b bs) = b_pos b"
  by (simp_all add: store_def)

lemma buf_bytes_store:
  assumes "pool_ok bp" and "buf_ok bp b"
  shows "buf_bytes (store b bs) = buf_bytes b"
    and "b_last b + length bs \<le> length (b_mem b)
      \<Longrightarrow> buf_bytes ((store b bs)\<lparr>b_last := b_last b + length bs\<rparr>) = buf_bytes b @ bs"
  using buf_ok_bounds [OF assms]
  by (simp_all add: buf_bytes_def store_def slice_write_at_before slice_write_at_extend)

subsection \<open>Receiving appends to the chain\<close>

text \<open>
  What a receive loop guarantees of its result: the pool and the chain stay well formed, and
  the bytes the socket held are the ones appended to the chain, those that were read and
  dropped, and those still in the socket.  Nothing is dropped unless the loop reports
  \<open>Closed\<close>.
\<close>

definition recv_post ::
  "xtp_buf_pool \<Rightarrow> xtp_buf list \<Rightarrow> recv_item list
    \<Rightarrow> recv_out \<times> xtp_buf list \<times> xtp_buf_pool \<times> recv_item list \<times> bool list \<Rightarrow> bool" where
  "recv_post bp pipe rs r \<longleftrightarrow> (case r of (out, pipe', bp', rs', ms') \<Rightarrow>
     pool_ok bp' \<and> same_shape bp bp' \<and> pipe_ok bp' pipe' \<and> pipe' \<noteq> []
     \<and> (\<exists>got lost. recv_bytes rs = got @ lost @ recv_bytes rs'
          \<and> pipe_bytes pipe' = pipe_bytes pipe @ got
          \<and> (out = Drained \<longrightarrow> lost = [])))"

lemma unat_ptrdiff: "p \<le> q \<Longrightarrow> q < 2 ^ 31 \<Longrightarrow> unat (ptrdiff q p) = q - p"
proof -
  assume "p \<le> q" and "q < 2 ^ 31"
  then have "ptrdiff q p = word_of_nat (q - p)"
    unfolding ptrdiff_def by (metis of_int_of_nat_eq of_nat_diff)
  then show ?thesis using \<open>q < 2 ^ 31\<close> by (simp add: unsigned_of_nat take_bit_nat_eq_self_iff)
qed

lemma recv_post_step:
  assumes "recv_post bp1 pipe1 rs1 r" and "same_shape bp bp1"
    and "recv_bytes rs = bs @ recv_bytes rs1" and "pipe_bytes pipe1 = pipe_bytes pipe @ bs"
  shows "recv_post bp pipe rs r"
proof -
  obtain out pipe' bp' rs' ms' where r: "r = (out, pipe', bp', rs', ms')" by (cases r) auto
  with assms(1) obtain got lost where "recv_bytes rs1 = got @ lost @ recv_bytes rs'"
    "pipe_bytes pipe' = pipe_bytes pipe1 @ got" "out = Drained \<longrightarrow> lost = []"
    by (auto simp: recv_post_def)
  with assms(3,4) have "recv_bytes rs = (bs @ got) @ lost @ recv_bytes rs'
      \<and> pipe_bytes pipe' = pipe_bytes pipe @ (bs @ got) \<and> (out = Drained \<longrightarrow> lost = [])"
    by simp
  with assms(1,2) r show ?thesis unfolding recv_post_def by (auto dest: same_shape_trans)
qed

text \<open>One call of \<open>x_recvn\<close> into the free part of a buffer.\<close>

lemma recvn_into_buf:
  assumes "pool_ok bp" and "buf_ok bp buf"
    and "x_recvn (ptrdiff (b_end buf) (b_last buf)) rs = Inr (len, bs, rs1)"
  shows "recv_bytes rs = bs @ recv_bytes rs1" and "len = 0 \<Longrightarrow> bs = []"
    and "buf_ok bp (store buf bs)" and "buf_bytes (store buf bs) = buf_bytes buf"
    and "0 < len \<Longrightarrow> buf_ok bp ((store buf bs)\<lparr>b_last := b_last buf + nat len\<rparr>)"
    and "0 < len \<Longrightarrow> buf_bytes ((store buf bs)\<lparr>b_last := b_last buf + nat len\<rparr>) = buf_bytes buf @ bs"
proof -
  note bounds = buf_ok_bounds [OF assms(1,2)]
  have w: "unat (ptrdiff (b_end buf) (b_last buf)) = b_end buf - b_last buf"
    by (rule unat_ptrdiff) (use bounds in linarith)+
  then have "unat (ptrdiff (b_end buf) (b_last buf)) < 2 ^ 31" using bounds by linarith
  note spec = x_recvn_spec [OF assms(3) this]
  show "recv_bytes rs = bs @ recv_bytes rs1" by (rule spec(1))
  show "len = 0 \<Longrightarrow> bs = []" using spec(4) by simp
  have fits: "b_last buf + length bs \<le> b_end buf" using spec(2) w bounds by linarith
  then have fits': "b_last buf + length bs \<le> length (b_mem buf)" using bounds by linarith
  show ok1: "buf_ok bp (store buf bs)" using assms(2) fits' by (rule buf_ok_store)
  show "buf_bytes (store buf bs) = buf_bytes buf" using assms(1,2) by (rule buf_bytes_store)
  assume "0 < len"
  then have len: "nat len = length bs" using spec(4) by simp
  show "buf_ok bp ((store buf bs)\<lparr>b_last := b_last buf + nat len\<rparr>)"
    using ok1 fits len by (simp add: buf_ok_def block_ok_def store_def)
  show "buf_bytes ((store buf bs)\<lparr>b_last := b_last buf + nat len\<rparr>) = buf_bytes buf @ bs"
    using buf_bytes_store(2) [OF assms(1,2) fits'] len by simp
qed

lemma recv2buf_post:
  assumes "recv2buf front buf bp rs ms = Inr r" and "pool_ok bp" and "pipe_ok bp (front @ [buf])"
  shows "recv_post bp (front @ [buf]) rs r"
  using assms
proof (induction front buf bp rs ms rule: recv2buf.induct)
  case (1 front buf bp rs ms)
  note run = "1.prems"(1) [unfolded recv2buf.simps [of front buf bp rs ms]]
  from "1.prems"(3) have ok: "buf_ok bp buf" and room: "b_last buf \<noteq> b_end buf"
    by (simp_all add: pipe_ok_snoc)
  from run room obtain len bs rs1
    where rcv: "x_recvn (ptrdiff (b_end buf) (b_last buf)) rs = Inr (len, bs, rs1)" by auto
  note into = recvn_into_buf [OF "1.prems"(2) ok rcv]
  show ?case
  proof (cases "len \<le> 0")
    case True
    with run room rcv "1.prems"(2,3) into(1-4) show ?thesis
      by (auto simp: recv_post_def pipe_ok_snoc Let_def split: if_splits)
  next
    case False
    define buf2 where "buf2 = (store buf bs)\<lparr>b_last := b_last (store buf bs) + nat len\<rparr>"
    have buf2: "buf_ok bp buf2" "buf_bytes buf2 = buf_bytes buf @ bs"
      using into(5,6) False by (simp_all add: buf2_def)
    show ?thesis
    proof (cases "b_end buf2 = b_last buf2")
      case True
      with run room rcv \<open>\<not> len \<le> 0\<close> obtain nbuf bp1 ms1
        where al: "x_buf_alloc bp ms = Some (nbuf, bp1, ms1)"
          and rec: "recv2buf (front @ [buf2]) nbuf bp1 rs1 ms1 = Inr r"
        by (auto simp: Let_def buf2_def split: if_splits)
      note al_ok = x_buf_alloc_spec [OF al "1.prems"(2)]
      have "pipe_ok bp1 ((front @ [buf2]) @ [nbuf])"
        using "1.prems"(3) buf2(1) True al_ok(3) fresh_buf_room [OF al_ok(1,3)]
        unfolding pipe_ok_snoc
        by (auto simp: pipe_ok_snoc same_shape_buf_ok [OF al_ok(2)] fresh_buf_def)
      then have "recv_post bp1 ((front @ [buf2]) @ [nbuf]) rs1 r"
        using "1.IH"(1) [OF room rcv refl refl refl _ _ buf2_def True] al rec al_ok(1)
          \<open>\<not> len \<le> 0\<close> by simp
      then show ?thesis
        by (rule recv_post_step)
          (use al_ok(2) into(1) buf2(2) fresh_buf_room [OF al_ok(1,3)] in simp_all)
    next
      case False
      with run room rcv \<open>\<not> len \<le> 0\<close> have rec: "recv2buf front buf2 bp rs1 ms = Inr r"
        by (auto simp: Let_def buf2_def split: if_splits)
      have "pipe_ok bp (front @ [buf2])"
        using "1.prems"(3) buf2(1) False by (auto simp: pipe_ok_snoc)
      then have "recv_post bp (front @ [buf2]) rs1 r"
        using "1.IH"(2) [OF room rcv refl refl refl _ _ buf2_def False] rec "1.prems"(2)
          \<open>\<not> len \<le> 0\<close> by simp
      then show ?thesis
        by (rule recv_post_step) (use into(1) buf2(2) in simp_all)
    qed
  qed
qed

lemma pipe_recv_post:
  assumes "pipe_recv pipe bp rs ms = Inr r" and "pool_ok bp" and "pipe_ok bp pipe"
  shows "recv_post bp pipe rs r"
proof (cases "pipe = []")
  case True
  with assms(1) obtain buf bp1 ms1 where al: "x_buf_alloc bp ms = Some (buf, bp1, ms1)"
    and rec: "recv2buf [] buf bp1 rs ms1 = Inr r" by (auto simp: pipe_recv_def)
  note al_ok = x_buf_alloc_spec [OF al assms(2)]
  note room = fresh_buf_room [OF al_ok(1,3)]
  have "pipe_ok bp1 ([] @ [buf])"
    using al_ok(3) room unfolding pipe_ok_snoc by (simp add: fresh_buf_def)
  with rec al_ok(1) have "recv_post bp1 ([] @ [buf]) rs r" by (rule recv2buf_post)
  then show ?thesis by (rule recv_post_step [where bs = "[]"]) (use True al_ok(2) room in simp_all)
next
  case False
  with assms recv2buf_post [of "butlast pipe" "last pipe" bp rs ms r] show ?thesis
    by (simp add: pipe_recv_def)
qed

subsection \<open>Sending takes from the front of the chain\<close>

text \<open>
  \<open>send_post\<close>: what went out is a prefix of the chain's bytes.  Unless the loop reports
  an error, the chain then holds exactly the rest; the loop reports \<open>Send_done\<close> or
  \<open>Send_empty\<close> only when nothing is left, and \<open>Send_again\<close> only when something is.
\<close>

definition send_post ::
  "byte list \<Rightarrow> send_out \<Rightarrow> byte list \<Rightarrow> byte list \<Rightarrow> bool" where
  "send_post before out after sent \<longleftrightarrow>
     (\<exists>rest. before = sent @ rest
        \<and> (if out = Send_error then \<exists>again. after = again @ rest else after = rest))
     \<and> (out = Send_again \<longrightarrow> after \<noteq> [])
     \<and> (out = Send_done \<or> out = Send_empty \<longrightarrow> after = [])"

lemma send_post_prepend:
  "send_post before out after sent \<Longrightarrow> send_post (bs @ before) out after (bs @ sent)"
  by (auto simp: send_post_def)

text \<open>One call of \<open>x_sendn\<close> on what a buffer holds.\<close>

lemma sendn_from_buf:
  assumes "pool_ok bp" and "buf_ok bp buf"
    and "x_sendn (ptrdiff (b_last buf) (b_pos buf)) (buf_bytes buf) ss = Inr (len, bs, ss1)"
  shows "\<exists>rest. buf_bytes buf = bs @ rest" and "len = 0 \<Longrightarrow> bs = []"
    and "0 < len \<Longrightarrow> buf_ok bp (buf\<lparr>b_pos := b_pos buf + nat len\<rparr>)"
    and "0 < len \<Longrightarrow> buf_bytes buf = bs @ buf_bytes (buf\<lparr>b_pos := b_pos buf + nat len\<rparr>)"
proof -
  note bounds = buf_ok_bounds [OF assms(1,2)]
  have w: "unat (ptrdiff (b_last buf) (b_pos buf)) = b_last buf - b_pos buf"
    by (rule unat_ptrdiff) (use bounds in linarith)+
  have "b_last buf \<le> length (b_mem buf)" using bounds by linarith
  then have lb: "length (buf_bytes buf) = b_last buf - b_pos buf" by (simp add: buf_bytes_def)
  note spec = x_sendn_spec [OF assms(3) _ lb [folded w]]
  have w31: "unat (ptrdiff (b_last buf) (b_pos buf)) < 2 ^ 31" using w bounds by linarith
  from spec(1) [OF w31] obtain k where k: "k \<le> length (buf_bytes buf)" "bs = take k (buf_bytes buf)"
    by blast
  then show "\<exists>rest. buf_bytes buf = bs @ rest" by (metis append_take_drop_id)
  show "len = 0 \<Longrightarrow> bs = []" using spec(4) [OF w31] by simp
  assume "0 < len"
  then have len: "nat len = k" using spec(4) [OF w31] k by simp
  have "b_pos buf + nat len \<le> b_last buf" using k(1) lb len bounds by linarith
  with assms(2) show "buf_ok bp (buf\<lparr>b_pos := b_pos buf + nat len\<rparr>)"
    by (simp add: buf_ok_def block_ok_def)
  show "buf_bytes buf = bs @ buf_bytes (buf\<lparr>b_pos := b_pos buf + nat len\<rparr>)"
    using k len by (metis append_take_drop_id buf_bytes_def drop_slice xtp_buf.select_convs(2,5,6)
        xtp_buf.surjective xtp_buf.update_convs(5))
qed

lemma send_while_spec:
  assumes "send_while buf sent ss = Inr (out, buf', sent', ss')"
    and "pool_ok bp" and "buf_ok bp buf"
  shows "buf_ok bp buf' \<and> b_last buf' = b_last buf \<and> b_end buf' = b_end buf \<and> out \<noteq> Send_empty
    \<and> (out = Send_again \<longrightarrow> b_pos buf' \<noteq> b_last buf') \<and> (out = Send_done \<longrightarrow> b_pos buf' = b_last buf')
    \<and> (\<exists>bs. sent' = sent @ bs \<and> send_post (buf_bytes buf) out (buf_bytes buf') bs)"
  using assms
proof (induction buf sent ss rule: send_while.induct)
  case (1 buf sent ss)
  note run = "1.prems"(1) [unfolded send_while.simps [of buf sent ss], folded buf_bytes_def]
  show ?case
  proof (cases "b_pos buf = b_last buf")
    case True
    with run "1.prems"(3) show ?thesis by (auto simp: send_post_def buf_bytes_def)
  next
    case False
    with run obtain len bs ss1
      where snd: "x_sendn (ptrdiff (b_last buf) (b_pos buf)) (buf_bytes buf) ss = Inr (len, bs, ss1)"
      by auto
    note from_buf = sendn_from_buf [OF "1.prems"(2,3) snd]
    show ?thesis
    proof (cases "len \<le> 0")
      case True
      have "buf_bytes buf \<noteq> []"
        using False buf_ok_bounds [OF "1.prems"(2,3)] by (simp add: buf_bytes_def slice_def)
      with run snd False True from_buf(1,2) "1.prems"(3) show ?thesis
        by (auto simp: send_post_def split: if_splits)
    next
      case pos: False
      let ?buf = "buf\<lparr>b_pos := b_pos buf + nat len\<rparr>"
      have rec: "send_while ?buf (sent @ bs) ss1 = Inr (out, buf', sent', ss')"
        using run snd False pos by simp
      have ok: "buf_ok bp ?buf" using from_buf(3) pos by simp
      from "1.IH" [folded buf_bytes_def, OF False snd refl refl _ _ rec "1.prems"(2) ok] pos
      obtain bs' where "sent' = sent @ (bs @ bs')" "send_post (buf_bytes ?buf) out (buf_bytes buf') bs'"
        and rest: "buf_ok bp buf' \<and> b_last buf' = b_last buf \<and> b_end buf' = b_end buf
          \<and> out \<noteq> Send_empty \<and> (out = Send_again \<longrightarrow> b_pos buf' \<noteq> b_last buf')
          \<and> (out = Send_done \<longrightarrow> b_pos buf' = b_last buf')" by auto
      then show ?thesis
        using send_post_prepend [of _ _ _ bs' bs] from_buf(4) pos by fastforce
    qed
  qed
qed

text \<open>The outer loops.  A full buffer that has been sent goes back to the pool.\<close>

definition bufsend_post ::
  "xtp_buf_pool \<Rightarrow> xtp_buf list \<Rightarrow> byte list
    \<Rightarrow> send_out \<times> xtp_buf list \<times> xtp_buf_pool \<times> byte list \<times> send_item list \<Rightarrow> bool" where
  "bufsend_post bp pipe sent r \<longleftrightarrow> (case r of (out, pipe', bp', sent', ss') \<Rightarrow>
     pool_ok bp' \<and> same_shape bp bp' \<and> pipe_ok bp' pipe'
     \<and> (\<exists>bs. sent' = sent @ bs \<and> send_post (pipe_bytes pipe) out (pipe_bytes pipe') bs))"

lemma send_post_append:
  "send_post before out after sent \<Longrightarrow> out = Send_error \<or> out = Send_again
    \<Longrightarrow> send_post (before @ behind) out (after @ behind) sent"
  by (auto simp: send_post_def)

lemma pipe_all_sent:
  assumes "pipe_ok bp (b # rest)" and "b_pos b = b_last b" and "b_pos b \<noteq> b_end b"
  shows "rest = []" and "buf_bytes b = []"
  using assms by (auto simp: pipe_ok_Cons buf_bytes_def split: if_splits)

text \<open>The two ways one round of an outer loop can end, shared by both loops.\<close>

lemma bufsend_stop:
  assumes "send_while buf sent ss = Inr (out, buf', sent', ss')"
    and "pool_ok bp" and "pipe_ok bp (buf # rest)"
    and "out = Send_error \<or> out = Send_again \<or> b_pos buf' \<noteq> b_end buf'"
  shows "bufsend_post bp (buf # rest) sent (out, buf' # rest, bp, sent', ss')"
proof -
  have "buf_ok bp buf" using assms(3) by (simp add: pipe_ok_Cons)
  note spec = send_while_spec [OF assms(1,2) this]
  then obtain bs where bs: "sent' = sent @ bs" "send_post (buf_bytes buf) out (buf_bytes buf') bs"
    by blast
  have ok': "pipe_ok bp (buf' # rest)" using assms(3) spec by (simp add: pipe_ok_Cons)
  have "send_post (pipe_bytes (buf # rest)) out (pipe_bytes (buf' # rest)) bs"
  proof (cases "out = Send_error \<or> out = Send_again")
    case True
    with bs(2) show ?thesis using send_post_append [of _ _ _ _ "pipe_bytes rest"] by simp
  next
    case False
    then have "out = Send_done" using spec by (cases out) auto
    with False assms(4) spec pipe_all_sent [OF ok'] have "rest = []" by auto
    with bs(2) show ?thesis by simp
  qed
  with bs(1) ok' assms(2) show ?thesis by (simp add: bufsend_post_def)
qed

lemma bufsend_next:
  assumes "send_while buf sent ss = Inr (out, buf', sent1, ss1)"
    and "pool_ok bp" and "pipe_ok bp (buf # rest)"
    and "out \<noteq> Send_error" and "b_pos buf' = b_end buf'"
    and "bufsend_post (buf_free bp buf') rest sent1 r"
  shows "bufsend_post bp (buf # rest) sent r"
proof -
  have "buf_ok bp buf" using assms(3) by (simp add: pipe_ok_Cons)
  note spec = send_while_spec [OF assms(1,2) this]
  then obtain bs where bs: "sent1 = sent @ bs" "send_post (buf_bytes buf) out (buf_bytes buf') bs"
    by blast
  have "b_pos buf' = b_last buf'"
    using spec assms(5) buf_ok_bounds [of bp buf'] assms(2) by auto
  then have "buf_bytes buf = bs" using bs(2) assms(4) by (simp add: send_post_def buf_bytes_def)
  moreover obtain out' pipe' bp' sent' ss' where r: "r = (out', pipe', bp', sent', ss')"
    by (cases r) auto
  moreover from assms(6) r obtain bs' where "sent' = sent1 @ bs'"
    "send_post (pipe_bytes rest) out' (pipe_bytes pipe') bs'"
    by (auto simp: bufsend_post_def)
  ultimately have "sent' = sent @ (bs @ bs')
      \<and> send_post (pipe_bytes (buf # rest)) out' (pipe_bytes pipe') (bs @ bs')"
    using bs(1) send_post_prepend by auto
  then show ?thesis
    using assms(6) r same_shape_trans [OF bpool.put_shape]
    by (auto simp: bufsend_post_def)
qed

lemma bufsend_rest_ok:
  assumes "pool_ok bp" and "pipe_ok bp (buf # rest)" and "buf_ok bp buf'"
  shows "pool_ok (buf_free bp buf')" and "pipe_ok (buf_free bp buf') rest"
proof -
  show "pool_ok (buf_free bp buf')"
    using assms(1,3) by (intro bpool.put_ok buf_ok_block)
  show "pipe_ok (buf_free bp buf') rest"
    using assms(2) pipe_ok_shape [OF bpool.put_shape] by (simp add: pipe_ok_Cons)
qed

lemma bufsend_done_Nil: "pool_ok bp \<Longrightarrow> bufsend_post bp [] sent (Send_empty, [], bp, sent, ss)"
  by (simp add: bufsend_post_def send_post_def)

lemma access_bufsend_post:
  assumes "access_bufsend pipe bp sent ss = Inr r" and "pool_ok bp" and "pipe_ok bp pipe"
  shows "bufsend_post bp pipe sent r"
  using assms
proof (induction pipe bp sent ss rule: access_bufsend.induct)
  case (1 bp sent ss)
  then show ?case by (auto intro: bufsend_done_Nil)
next
  case (2 buf rest bp sent ss)
  from "2.prems"(1) obtain out buf' sent1 ss1
    where w: "send_while buf sent ss = Inr (out, buf', sent1, ss1)" by auto
  have "buf_ok bp buf" using "2.prems"(3) by (simp add: pipe_ok_Cons)
  with w "2.prems"(2) have ok': "buf_ok bp buf'" using send_while_spec by blast
  show ?case
  proof (cases "(out \<noteq> Send_error \<and> out \<noteq> Send_again) \<and> b_pos buf' = b_end buf'")
    case True
    with "2.prems" w "2.IH" [OF w refl refl refl] bufsend_rest_ok [OF "2.prems"(2,3) ok']
    have "bufsend_post (buf_free bp buf') rest sent1 r" by simp
    with w "2.prems"(2,3) True show ?thesis by (blast intro: bufsend_next)
  next
    case False
    with "2.prems"(1) w have "r = (out, buf' # rest, bp, sent1, ss1)" by (auto split: if_splits)
    with bufsend_stop [OF w "2.prems"(2,3)] False show ?thesis by auto
  qed
qed

lemma upstream_bufsend_post:
  assumes "upstream_bufsend pipe bp sent ss = Inr r" and "pool_ok bp" and "pipe_ok bp pipe"
  shows "bufsend_post bp pipe sent r"
  using assms
proof (induction pipe bp sent ss rule: upstream_bufsend.induct)
  case (1 bp sent ss)
  then show ?case by (auto intro: bufsend_done_Nil)
next
  case (2 buf rest bp sent ss)
  from "2.prems"(1) obtain out buf' sent1 ss1
    where w: "send_while buf sent ss = Inr (out, buf', sent1, ss1)" by auto
  have "buf_ok bp buf" using "2.prems"(3) by (simp add: pipe_ok_Cons)
  with w "2.prems"(2) have ok': "buf_ok bp buf'" using send_while_spec by blast
  show ?case
  proof (cases "out \<noteq> Send_error \<and> b_pos buf' = b_end buf'")
    case True
    with "2.prems" w "2.IH" [OF w refl refl refl] bufsend_rest_ok [OF "2.prems"(2,3) ok']
    have "bufsend_post (buf_free bp buf') rest sent1 r" by simp
    with w "2.prems"(2,3) True show ?thesis by (blast intro: bufsend_next)
  next
    case False
    with "2.prems"(1) w have "r = (out, buf' # rest, bp, sent1, ss1)" by (auto split: if_splits)
    with bufsend_stop [OF w "2.prems"(2,3)] False show ?thesis by auto
  qed
qed

subsection \<open>The loops as steps of a handler\<close>

text \<open>
  A loop that does not return has run out of answers, or is in the unbounded recursion of
  the buffer pool; together with the results above this is what a handler's proof uses.
\<close>

lemma recv2buf_Inl: "recv2buf front buf bp rs ms = Inl e \<Longrightarrow> soft e"
proof (induction front buf bp rs ms rule: recv2buf.induct)
  case (1 front buf bp rs ms)
  note run = "1.prems" [unfolded recv2buf.simps [of front buf bp rs ms]]
  from run have room: "b_last buf \<noteq> b_end buf" by (simp split: if_splits)
  show ?case
  proof (cases "x_recvn (ptrdiff (b_end buf) (b_last buf)) rs")
    case (Inl e')
    from x_recvn_Inl [OF this] this run room show ?thesis by simp
  next
    case (Inr p)
    then obtain len bs rs1 where
      rcv: "x_recvn (ptrdiff (b_end buf) (b_last buf)) rs = Inr (len, bs, rs1)" by (cases p) auto
    define buf2 where "buf2 = (store buf bs)\<lparr>b_last := b_last (store buf bs) + nat len\<rparr>"
    from run room rcv have pos: "\<not> len < 0" "len \<noteq> 0" by (auto simp: Let_def split: if_splits)
    note ih = "1.IH" [OF room rcv refl refl refl pos buf2_def]
    have run': "(if b_end buf2 = b_last buf2
        then bindR (buf_alloc bp ms) (\<lambda>(nbuf, bp', ms'). recv2buf (front @ [buf2]) nbuf bp' rs1 ms')
        else recv2buf front buf2 bp rs1 ms) = Inl e"
      using run room rcv pos by (simp add: Let_def buf2_def split: if_splits)
    show ?thesis
    proof (cases "b_end buf2 = b_last buf2")
      case True
      show ?thesis
      proof (cases "buf_alloc bp ms")
        case (Inl e')
        with run' True show ?thesis by (simp add: buf_alloc_def split: option.splits)
      next
        case (Inr q)
        then obtain nbuf bp1 ms1 where al: "buf_alloc bp ms = Inr (nbuf, bp1, ms1)" by (cases q) auto
        with run' True ih(1) [OF _ al refl refl] show ?thesis by simp
      qed
    next
      case False
      with run' ih(2) show ?thesis by simp
    qed
  qed
qed

lemma send_while_Inl: "send_while buf sent ss = Inl e \<Longrightarrow> e = Script_end"
proof (induction buf sent ss rule: send_while.induct)
  case (1 buf sent ss)
  note run = "1.prems" [unfolded send_while.simps [of buf sent ss]]
  from run have room: "b_pos buf \<noteq> b_last buf" by (simp split: if_splits)
  show ?case
  proof (cases "x_sendn (ptrdiff (b_last buf) (b_pos buf)) (slice (b_pos buf) (b_last buf) (b_mem buf)) ss")
    case (Inl e')
    from x_sendn_Inl [OF this] this run room show ?thesis by simp
  next
    case (Inr p)
    then obtain len bs ss1 where
      snd: "x_sendn (ptrdiff (b_last buf) (b_pos buf)) (slice (b_pos buf) (b_last buf) (b_mem buf)) ss
        = Inr (len, bs, ss1)" by (cases p) auto
    from run room snd have pos: "\<not> len < 0" "len \<noteq> 0" by (auto split: if_splits)
    from "1.IH" [OF room snd refl refl pos] run room snd pos show ?thesis by simp
  qed
qed

lemma pipe_recv_okR:
  assumes "pool_ok bp" and "pipe_ok bp pipe"
  shows "okR (recv_post bp pipe rs) (pipe_recv pipe bp rs ms)"
proof (cases "pipe_recv pipe bp rs ms")
  case (Inl e)
  then have "soft e"
    using recv2buf_Inl
    by (auto simp: pipe_recv_def bindR_Inl_iff buf_alloc_def split: if_splits option.splits)
  with Inl show ?thesis by simp
next
  case (Inr r)
  with pipe_recv_post [OF Inr assms] show ?thesis by simp
qed

lemma access_bufsend_Inl: "access_bufsend pipe bp sent ss = Inl e \<Longrightarrow> soft e"
  by (induction pipe bp sent ss rule: access_bufsend.induct)
    (auto simp: bindR_Inl_iff split: if_splits dest!: send_while_Inl)

lemma upstream_bufsend_Inl: "upstream_bufsend pipe bp sent ss = Inl e \<Longrightarrow> soft e"
  by (induction pipe bp sent ss rule: upstream_bufsend.induct)
    (auto simp: bindR_Inl_iff split: if_splits dest!: send_while_Inl)

lemma access_bufsend_okR:
  assumes "pool_ok bp" and "pipe_ok bp pipe"
  shows "okR (bufsend_post bp pipe sent) (access_bufsend pipe bp sent ss)"
  using access_bufsend_Inl access_bufsend_post [OF _ assms]
  by (cases "access_bufsend pipe bp sent ss") auto

lemma upstream_bufsend_okR:
  assumes "pool_ok bp" and "pipe_ok bp pipe"
  shows "okR (bufsend_post bp pipe sent) (upstream_bufsend pipe bp sent ss)"
  using upstream_bufsend_Inl upstream_bufsend_post [OF _ assms]
  by (cases "upstream_bufsend pipe bp sent ss") auto

subsection \<open>A chain is a byte stream\<close>

text \<open>
  The contract between the two callbacks that share a chain.  \<open>take_in\<close> is a receive step
  and yields the bytes it took from its socket, \<open>give_out\<close> a send step and the bytes it
  handed to its socket, \<open>other\<close> whatever the rest of the program does to the shared part
  of the state between two callbacks; \<open>None\<close> means that the step did not complete.  The
  client's lemma: over any interleaving of such steps, what has gone out followed by what
  is still held is what was held at first followed by what has come in.
\<close>

datatype ('r, 'w, 'e) stream_op = Take 'r | Give 'w | Other 'e

fun run_stream ::
  "('s \<Rightarrow> 'r \<Rightarrow> (byte list \<times> 's) option) \<Rightarrow> ('s \<Rightarrow> 'w \<Rightarrow> (byte list \<times> 's) option)
    \<Rightarrow> ('s \<Rightarrow> 'e \<Rightarrow> 's option) \<Rightarrow> 's \<Rightarrow> ('r, 'w, 'e) stream_op list
    \<Rightarrow> (byte list \<times> byte list \<times> 's) option" where
  "run_stream take_in give_out other s [] = Some ([], [], s)"
| "run_stream take_in give_out other s (Take r # ops) =
     (case take_in s r of
        None \<Rightarrow> None
      | Some (bs, s') \<Rightarrow>
          map_option (\<lambda>(ins, outs, s''). (bs @ ins, outs, s''))
            (run_stream take_in give_out other s' ops))"
| "run_stream take_in give_out other s (Give w # ops) =
     (case give_out s w of
        None \<Rightarrow> None
      | Some (bs, s') \<Rightarrow>
          map_option (\<lambda>(ins, outs, s''). (ins, bs @ outs, s''))
            (run_stream take_in give_out other s' ops))"
| "run_stream take_in give_out other s (Other e # ops) =
     (case other s e of
        None \<Rightarrow> None
      | Some s' \<Rightarrow> run_stream take_in give_out other s' ops)"

locale byte_stream =
  fixes inv :: "'s \<Rightarrow> bool"
    and content :: "'s \<Rightarrow> byte list"
    and take_in :: "'s \<Rightarrow> 'r \<Rightarrow> (byte list \<times> 's) option"
    and give_out :: "'s \<Rightarrow> 'w \<Rightarrow> (byte list \<times> 's) option"
    and other :: "'s \<Rightarrow> 'e \<Rightarrow> 's option"
  assumes take_in: "inv s \<Longrightarrow> take_in s r = Some (bs, s') \<Longrightarrow> inv s' \<and> content s' = content s @ bs"
    and give_out: "inv s \<Longrightarrow> give_out s w = Some (bs, s') \<Longrightarrow> inv s' \<and> content s = bs @ content s'"
    and other: "inv s \<Longrightarrow> other s e = Some s' \<Longrightarrow> inv s' \<and> content s' = content s"
begin

lemma fifo:
  "inv s \<Longrightarrow> run_stream take_in give_out other s ops = Some (ins, outs, s')
    \<Longrightarrow> inv s' \<and> content s @ ins = outs @ content s'"
proof (induction ops arbitrary: s ins outs)
  case Nil
  then show ?case by simp
next
  case (Cons x ops)
  show ?case
  proof (cases x)
    case (Take r)
    with Cons.prems obtain bs s1 ins' where st: "take_in s r = Some (bs, s1)"
      and rest: "run_stream take_in give_out other s1 ops = Some (ins', outs, s')"
      and "ins = bs @ ins'" by (auto split: option.splits)
    with take_in [OF Cons.prems(1) st] Cons.IH [OF _ rest] show ?thesis by simp
  next
    case (Give w)
    with Cons.prems obtain bs s1 outs' where st: "give_out s w = Some (bs, s1)"
      and rest: "run_stream take_in give_out other s1 ops = Some (ins, outs', s')"
      and "outs = bs @ outs'" by (auto split: option.splits)
    with give_out [OF Cons.prems(1) st] Cons.IH [OF _ rest] show ?thesis by simp
  next
    case (Other e)
    with Cons.prems obtain s1 where st: "other s e = Some s1"
      and rest: "run_stream take_in give_out other s1 ops = Some (ins, outs, s')"
      by (auto split: option.splits)
    with other [OF Cons.prems(1) st] Cons.IH [OF _ rest] show ?thesis by simp
  qed
qed

end

text \<open>
  The two chains of a connection.  The state is the chain and the pool it draws from; the
  other connections change the pool only.
\<close>

definition chain_in ::
  "xtp_buf list \<times> xtp_buf_pool \<Rightarrow> recv_item list \<times> bool list
    \<Rightarrow> (byte list \<times> (xtp_buf list \<times> xtp_buf_pool)) option" where
  "chain_in s r = (case pipe_recv (fst s) (snd s) (fst r) (snd r) of
     Inr (Drained, pipe', bp', rs', ms') \<Rightarrow>
       Some (take (length (recv_bytes (fst r)) - length (recv_bytes rs')) (recv_bytes (fst r)),
             (pipe', bp'))
   | _ \<Rightarrow> None)"

definition request_out ::
  "xtp_buf list \<times> xtp_buf_pool \<Rightarrow> send_item list
    \<Rightarrow> (byte list \<times> (xtp_buf list \<times> xtp_buf_pool)) option" where
  "request_out s ss = (case upstream_bufsend (fst s) (snd s) [] ss of
     Inr (out, pipe', bp', sent, ss') \<Rightarrow> if out = Send_error then None else Some (sent, (pipe', bp'))
   | _ \<Rightarrow> None)"

definition response_out ::
  "xtp_buf list \<times> xtp_buf_pool \<Rightarrow> send_item list
    \<Rightarrow> (byte list \<times> (xtp_buf list \<times> xtp_buf_pool)) option" where
  "response_out s ss = (case access_bufsend (fst s) (snd s) [] ss of
     Inr (out, pipe', bp', sent, ss') \<Rightarrow> if out = Send_error then None else Some (sent, (pipe', bp'))
   | _ \<Rightarrow> None)"

definition pool_change ::
  "xtp_buf list \<times> xtp_buf_pool \<Rightarrow> xtp_buf_pool \<Rightarrow> (xtp_buf list \<times> xtp_buf_pool) option" where
  "pool_change s bp' = (if pool_ok bp' \<and> same_shape (snd s) bp' then Some (fst s, bp') else None)"

definition chain_inv :: "xtp_buf list \<times> xtp_buf_pool \<Rightarrow> bool" where
  "chain_inv s \<longleftrightarrow> pool_ok (snd s) \<and> pipe_ok (snd s) (fst s)"

definition chain_bytes :: "xtp_buf list \<times> xtp_buf_pool \<Rightarrow> byte list" where
  "chain_bytes s = pipe_bytes (fst s)"

lemma chain_in_ok:
  assumes "chain_inv s" and "chain_in s r = Some (bs, s')"
  shows "chain_inv s' \<and> chain_bytes s' = chain_bytes s @ bs"
proof -
  from assms(2) obtain pipe' bp' rs' ms'
    where run: "pipe_recv (fst s) (snd s) (fst r) (snd r) = Inr (Drained, pipe', bp', rs', ms')"
      and s': "s' = (pipe', bp')"
      and bs: "bs = take (length (recv_bytes (fst r)) - length (recv_bytes rs')) (recv_bytes (fst r))"
    by (auto simp: chain_in_def split: sum.splits recv_out.splits)
  have "recv_post (snd s) (fst s) (fst r) (Drained, pipe', bp', rs', ms')"
    by (rule pipe_recv_post [OF run]) (use assms(1) in \<open>simp_all add: chain_inv_def\<close>)
  then show ?thesis by (auto simp: recv_post_def chain_inv_def chain_bytes_def s' bs)
qed

lemma bufsend_post_chain:
  assumes "bufsend_post (snd s) (fst s) [] (out, pipe', bp', sent, ss')" and "out \<noteq> Send_error"
  shows "chain_inv (pipe', bp') \<and> chain_bytes s = sent @ chain_bytes (pipe', bp')"
  using assms by (auto simp: bufsend_post_def send_post_def chain_inv_def chain_bytes_def)

lemma request_out_ok:
  assumes "chain_inv s" and "request_out s ss = Some (bs, s')"
  shows "chain_inv s' \<and> chain_bytes s = bs @ chain_bytes s'"
proof -
  from assms(2) obtain out pipe' bp' ss'
    where "upstream_bufsend (fst s) (snd s) [] ss = Inr (out, pipe', bp', bs, ss')"
      and "s' = (pipe', bp')" and "out \<noteq> Send_error"
    by (auto simp: request_out_def split: sum.splits if_splits)
  with upstream_bufsend_post bufsend_post_chain assms(1) show ?thesis
    unfolding chain_inv_def [of s] by blast
qed

lemma response_out_ok:
  assumes "chain_inv s" and "response_out s ss = Some (bs, s')"
  shows "chain_inv s' \<and> chain_bytes s = bs @ chain_bytes s'"
proof -
  from assms(2) obtain out pipe' bp' ss'
    where "access_bufsend (fst s) (snd s) [] ss = Inr (out, pipe', bp', bs, ss')"
      and "s' = (pipe', bp')" and "out \<noteq> Send_error"
    by (auto simp: response_out_def split: sum.splits if_splits)
  with access_bufsend_post bufsend_post_chain assms(1) show ?thesis
    unfolding chain_inv_def [of s] by blast
qed

lemma pool_change_ok:
  "chain_inv s \<Longrightarrow> pool_change s bp' = Some s' \<Longrightarrow> chain_inv s' \<and> chain_bytes s' = chain_bytes s"
  by (auto simp: pool_change_def chain_inv_def chain_bytes_def pipe_ok_shape split: if_splits)

interpretation request: byte_stream chain_inv chain_bytes chain_in request_out pool_change
  by unfold_locales (use chain_in_ok request_out_ok pool_change_ok in blast)+

interpretation response: byte_stream chain_inv chain_bytes chain_in response_out pool_change
  by unfold_locales (use chain_in_ok response_out_ok pool_change_ok in blast)+

subsection \<open>Properties\<close>

text \<open>C5: The request chain is a FIFO byte stream: over any interleaving of completed receives
  from the client, sends to the upstream server and activity of other connections on the
  pool, the bytes sent to the server followed by those still in the chain are exactly the bytes
  received from the client, in order.\<close>

theorem request_stream_fifo:
  assumes "pool_ok bp"
    and "run_stream chain_in request_out pool_change ([], bp) ops = Some (ins, outs, (pipe', bp'))"
  shows "ins = outs @ pipe_bytes pipe' \<and> pipe_ok bp' pipe'"
  using request.fifo [OF _ assms(2)] assms(1) by (simp add: chain_inv_def chain_bytes_def)

definition small_pool :: xtp_buf_pool where
  "small_pool = \<lparr>bp_n = 0, bp_max = 1, bp_size = 68, bp_offset = sizeof_xtp_buf, bp_head = []\<rparr>"

lemma small_pool_ok: "pool_ok small_pool"
  by (simp add: small_pool_def pool_ok_def geometry_def sizeof_xtp_buf_def)

lemmas eval_pipe =
  chain_in_def request_out_def response_out_def pipe_recv_def recv2buf.simps buf_alloc_def
  x_buf_alloc.simps x_buf_ralloc_def push_buf_def pop_buf_def malloc_buf_def reset_buf_def
  x_recvn_def recvn_loop.simps x_sendn_def sendn_loop.simps send_while.simps ptrdiff_def
  store_def write_at_def slice_def buf_free_def x_buf_free_def sizeof_xtp_buf_def small_pool_def
  numeral_2_eq_2

theorem request_stream_fifo_witness:
  "\<exists>pipe' bp'. run_stream chain_in request_out pool_change ([], small_pool)
       [Take ([RecvData [1, 2, 3, 4, 5], RecvErr EAGAIN, RecvErr EAGAIN], [True, True, True]),
        Give [SendOk 2, SendErr EAGAIN, SendErr EAGAIN]] = Some ([1, 2, 3, 4, 5], [1, 2], (pipe', bp'))
     \<and> [1, 2, 3, 4, 5] = [1, 2] @ pipe_bytes pipe'"
proof -
  obtain pipe' bp' where run: "run_stream chain_in request_out pool_change ([], small_pool)
       [Take ([RecvData [1, 2, 3, 4, 5], RecvErr EAGAIN, RecvErr EAGAIN], [True, True, True]),
        Give [SendOk 2, SendErr EAGAIN, SendErr EAGAIN]] = Some ([1, 2, 3, 4, 5], [1, 2], (pipe', bp'))"
    by (simp add: eval_pipe)
  from request_stream_fifo [OF small_pool_ok run] run show ?thesis by blast
qed

text \<open>C6: The response chain is a FIFO byte stream in the same sense, from the upstream server to
  the client.\<close>

theorem response_stream_fifo:
  assumes "pool_ok bp"
    and "run_stream chain_in response_out pool_change ([], bp) ops = Some (ins, outs, (pipe', bp'))"
  shows "ins = outs @ pipe_bytes pipe' \<and> pipe_ok bp' pipe'"
  using response.fifo [OF _ assms(2)] assms(1) by (simp add: chain_inv_def chain_bytes_def)

theorem response_stream_fifo_witness:
  "\<exists>pipe' bp'. run_stream chain_in response_out pool_change ([], small_pool)
       [Take ([RecvData [7, 8, 9, 10], RecvErr EAGAIN, RecvErr EAGAIN], [True, True, True]),
        Give [SendOk 9, SendOk 9]] = Some ([7, 8, 9, 10], [7, 8, 9, 10], (pipe', bp'))
     \<and> pipe_bytes pipe' = []"
proof -
  obtain pipe' bp' where run: "run_stream chain_in response_out pool_change ([], small_pool)
       [Take ([RecvData [7, 8, 9, 10], RecvErr EAGAIN, RecvErr EAGAIN], [True, True, True]),
        Give [SendOk 9, SendOk 9]] = Some ([7, 8, 9, 10], [7, 8, 9, 10], (pipe', bp'))"
    by (simp add: eval_pipe)
  from response_stream_fifo [OF small_pool_ok run] run show ?thesis by blast
qed

text \<open>C27: A receive loop never writes outside a buffer, keeps every buffer but the last full and
  the last one with room, and loses no byte of the socket unless it reports \<open>Closed\<close>.\<close>

theorem pipe_recv_contract:
  assumes "pipe_recv pipe bp rs ms = Inr (out, pipe', bp', rs', ms')"
    and "pool_ok bp" and "pipe_ok bp pipe"
  shows "pool_ok bp' \<and> pipe_ok bp' pipe' \<and> (\<forall>b\<in>set pipe'. b_last b \<le> b_end b \<and> b_end b < length (b_mem b))
    \<and> (\<exists>got lost. recv_bytes rs = got @ lost @ recv_bytes rs'
         \<and> pipe_bytes pipe' = pipe_bytes pipe @ got \<and> (out = Drained \<longrightarrow> lost = []))"
proof -
  have "recv_post bp pipe rs (out, pipe', bp', rs', ms')" using assms by (rule pipe_recv_post)
  then show ?thesis
    using buf_ok_bounds [of bp'] by (auto simp: recv_post_def pipe_ok_def)
qed

theorem pipe_recv_contract_witness:
  "\<exists>out pipe' bp'. pipe_recv [] small_pool [RecvData [1, 2, 3, 4], RecvErr EAGAIN, RecvErr EAGAIN] [True, True, True]
      = Inr (out, pipe', bp', [], []) \<and> pipe_ok bp' pipe' \<and> pool_ok bp'"
proof -
  obtain out pipe' bp' where run: "pipe_recv [] small_pool [RecvData [1, 2, 3, 4], RecvErr EAGAIN, RecvErr EAGAIN]
      [True, True, True] = Inr (out, pipe', bp', [], [])"
    by (simp add: eval_pipe)
  from pipe_recv_contract [OF run small_pool_ok pipe_ok_Nil] run show ?thesis by blast
qed

end
