(* ===== verification/Connection.thy ===== *)
theory Connection
  imports Pipe Conf Complex_Main
begin

section \<open>Connections and the listener (src/xtp\_connection.h)\<close>

text \<open>
  The state of one proxy thread: the listener \<open>struct xtp_conn_listen_s\<close>, the connections
  \<open>struct xtp_conn_s\<close> that exist, and what the operating system will answer.  A connection
  is an address (a \<open>nat\<close>); \<open>w_conns\<close> maps the addresses that are allocated to their
  contents, so an access to a freed connection is a fault.  The libev watchers embedded in
  the structs are the fields \<open>c_e_recv\<close> etc.; for an I/O watcher the state is whether it is
  started, for a timer which request was the last one made.  Fields that no code reads
  (\<open>port\<close> and \<open>cleanup\<close> of a connection; \<open>p\<close>, \<open>ip\<close> and \<open>e_sig\<close> of the listener) are left
  out.  \<open>w_trace\<close> records the system calls that the outside can see, in order.
\<close>

datatype xtp_conn_phase =
  CONN_NONE | CONN_WAITING | CONN_WORKING | CONN_CONNECT | CONN_TIMEOUT | CONN_CLOSE | CONN_ERROR

text \<open>
  \<open>Timer_start after repeat\<close> is an \<open>ev_timer_init\<close> with these arguments followed by
  \<open>ev_timer_start\<close>, \<open>Timer_again repeat\<close> an assignment to \<open>repeat\<close> followed by
  \<open>ev_timer_again\<close>, which stops the timer when \<open>repeat\<close> is zero.
\<close>

datatype ev_timer = Timer_off | Timer_start rat rat | Timer_again rat

definition CONN_NUM_MAX :: int where "CONN_NUM_MAX = 655350"
definition CONN_FREE_TIMEOUT :: rat where "CONN_FREE_TIMEOUT = 3"
definition CONN_CONNECT_TIMEOUT :: rat where "CONN_CONNECT_TIMEOUT = 1 / 2"

text \<open>
  What libev demands of a watcher that is started: \<open>ev_io_start\<close> asserts that the descriptor is not
  negative, and a timer's \<open>repeat\<close> must not be negative (\<open>ev_timer_start\<close> asserts it; after
  \<open>ev_timer_again\<close> the assertion falls when the timer is next processed, and the model reports it
  where the value is handed over).  The code starts a watcher on what \<open>accept\<close> and \<open>x_socket_bind\<close>
  returned without a test, and its timeouts are the configuration's, read by \<open>atoi\<close>; these places
  call the two functions.  Its other watchers are on a descriptor that \<open>socket\<close> returned and that
  has been compared with -1, and its other timers are positive constants.
\<close>

definition ev_io_ok :: "int \<Rightarrow> fault + unit" where
  "ev_io_ok fd = (if fd < 0 then Inl Bad_watcher else Inr ())"

definition ev_timer_ok :: "int \<Rightarrow> fault + unit" where
  "ev_timer_ok repeat = (if repeat < 0 then Inl Bad_watcher else Inr ())"

lemma ev_ok_Inr [simp]:
  "ev_io_ok fd = Inr u \<longleftrightarrow> 0 \<le> fd"
  "ev_timer_ok repeat = Inr u \<longleftrightarrow> 0 \<le> repeat"
  by (simp_all add: ev_io_ok_def ev_timer_ok_def)

lemma ev_ok_returns [simp]:
  "0 \<le> fd \<Longrightarrow> ev_io_ok fd = Inr ()"
  "0 \<le> repeat \<Longrightarrow> ev_timer_ok repeat = Inr ()"
  "fd < 0 \<Longrightarrow> ev_io_ok fd = Inl Bad_watcher"
  "repeat < 0 \<Longrightarrow> ev_timer_ok repeat = Inl Bad_watcher"
  by (simp_all add: ev_io_ok_def ev_timer_ok_def)

lemma okE_ev_ok [simp]:
  "okE E Q (ev_io_ok fd) = (if fd < 0 then E Bad_watcher else Q ())"
  "okE E Q (ev_timer_ok repeat) = (if repeat < 0 then E Bad_watcher else Q ())"
  by (simp_all add: ev_io_ok_def ev_timer_ok_def soft_def)

fun timer_active :: "ev_timer \<Rightarrow> bool" where
  "timer_active Timer_off \<longleftrightarrow> False"
| "timer_active (Timer_start after repeat) \<longleftrightarrow> True"
| "timer_active (Timer_again repeat) \<longleftrightarrow> repeat \<noteq> 0"

record xtp_conn =
  c_ip :: string
  c_fd :: int
  c_status :: xtp_conn_phase
  c_e_recv :: bool
  c_e_send :: bool
  c_e_timer :: ev_timer
  c_pipe1 :: "xtp_buf list"
  c_pipe2 :: "xtp_buf list"
  c_upcf :: "xtp_upstream_conf option"
  c_upc_fd :: int
  c_upc_e_recv :: bool
  c_upc_e_send :: bool
  c_upc_e_connected :: bool
  c_upc_e_timer :: ev_timer
  c_upc_status :: xtp_conn_phase

text \<open>The contents of a connection after \<open>memset(pconn, 0, sizeof(xtp_conn_t))\<close>.\<close>

definition zero_conn :: xtp_conn where
  "zero_conn = \<lparr>c_ip = [], c_fd = 0, c_status = CONN_NONE, c_e_recv = False, c_e_send = False,
     c_e_timer = Timer_off, c_pipe1 = [], c_pipe2 = [], c_upcf = None, c_upc_fd = 0,
     c_upc_e_recv = False, c_upc_e_send = False, c_upc_e_connected = False,
     c_upc_e_timer = Timer_off, c_upc_status = CONN_NONE\<rparr>"

record xtp_conn_listen =
  ln_srvcf :: xtp_srvconf
  ln_bp :: xtp_buf_pool
  ln_port :: int
  ln_fd :: int
  ln_c_count :: int
  ln_cq_waiting :: "nat list"
  ln_cq_waiting_num :: int
  ln_working_num :: int
  ln_e_listen :: bool
  ln_timeout :: int

subsection \<open>What the operating system answers\<close>

text \<open>
  \<open>sin\<close> is the four bytes of the peer's address; for a failed \<open>accept\<close> it is what the
  uninitialised variable of \<open>x_accept_cb\<close> happens to hold.
\<close>

type_synonym ipv4 = "byte \<times> byte \<times> byte \<times> byte"

datatype accept_item = AcceptOk int ipv4 | AcceptErr errno ipv4

datatype sys =
    Sys_accept int
  | Sys_socket int
  | Sys_connect int xtp_upstream_conf "errno option"
  | Sys_send int "byte list"
  | Sys_close int

record world = xtp_conn_listen +
  w_conns :: "nat \<rightharpoonup> xtp_conn"
  w_next :: nat
  o_accept :: "accept_item list"
  o_zmalloc :: "bool list"
  o_fcntl :: "u32 list"
  o_socket :: "int list"
  o_connect :: "errno option list"
  o_sockopt :: "int option list"
  o_recv :: "recv_item list"
  o_send :: "send_item list"
  o_malloc :: "bool list"
  w_trace :: "sys list"

definition log_sys :: "sys \<Rightarrow> world \<Rightarrow> world" where
  "log_sys s w = w\<lparr>w_trace := w_trace w @ [s]\<rparr>"

text \<open>The state of a listener that has just been set up, without any answers.\<close>

definition blank_world :: "xtp_srvconf \<Rightarrow> xtp_buf_pool \<Rightarrow> world" where
  "blank_world conf bp = \<lparr>ln_srvcf = conf, ln_bp = bp, ln_port = ac_port (sc_access conf), ln_fd = 3,
     ln_c_count = 0, ln_cq_waiting = [], ln_cq_waiting_num = 0, ln_working_num = 0,
     ln_e_listen = True, ln_timeout = ac_timeout (sc_access conf), w_conns = (\<lambda>_. None),
     w_next = 0, o_accept = [], o_zmalloc = [], o_fcntl = [], o_socket = [], o_connect = [],
     o_sockopt = [], o_recv = [], o_send = [], o_malloc = [], w_trace = []\<rparr>"

subsection \<open>Access to a connection\<close>

definition get_conn :: "nat \<Rightarrow> world \<Rightarrow> fault + xtp_conn" where
  "get_conn c w = (case w_conns w c of None \<Rightarrow> Inl Use_after_free | Some p \<Rightarrow> Inr p)"

definition put_conn :: "nat \<Rightarrow> xtp_conn \<Rightarrow> world \<Rightarrow> world" where
  "put_conn c p w = w\<lparr>w_conns := (w_conns w)(c \<mapsto> p)\<rparr>"

definition upd_conn :: "nat \<Rightarrow> (xtp_conn \<Rightarrow> xtp_conn) \<Rightarrow> world \<Rightarrow> fault + world" where
  "upd_conn c f w = bindR (get_conn c w) (\<lambda>p. Inr (put_conn c (f p) w))"

text \<open>
  \<open>zfree\<close> of a connection.  libev keeps pointers to the watchers that are started, so freeing
  a connection with one is a use of freed memory by the event loop.
\<close>

definition conn_idle :: "xtp_conn \<Rightarrow> bool" where
  "conn_idle p \<longleftrightarrow> \<not> c_e_recv p \<and> \<not> c_e_send p \<and> \<not> timer_active (c_e_timer p)
     \<and> \<not> c_upc_e_recv p \<and> \<not> c_upc_e_send p \<and> \<not> c_upc_e_connected p
     \<and> \<not> timer_active (c_upc_e_timer p)"

definition zfree_conn :: "nat \<Rightarrow> world \<Rightarrow> fault + world" where
  "zfree_conn c w = bindR (get_conn c w) (\<lambda>p.
     if conn_idle p then Inr (w\<lparr>w_conns := (w_conns w)(c := None)\<rparr>) else Inl Use_after_free)"

subsection \<open>The waiting queue\<close>

text \<open>
  The \<open>TAILQ\<close> of waiting connections, first element first.  Its links are in the connections
  themselves: inserting writes to the last element, removing to the two neighbours, so that
  they must still be allocated.
\<close>

definition conn_live :: "world \<Rightarrow> nat \<Rightarrow> bool" where
  "conn_live w c \<longleftrightarrow> w_conns w c \<noteq> None"

fun neighbours :: "nat \<Rightarrow> nat list \<Rightarrow> nat list" where
  "neighbours c (a # b # q) =
     (if a = c then [b]
      else if b = c then a # (case q of [] \<Rightarrow> [] | d # _ \<Rightarrow> [d])
      else neighbours c (b # q))"
| "neighbours c q = []"

definition cq_insert_tail :: "nat \<Rightarrow> world \<Rightarrow> fault + world" where
  "cq_insert_tail c w =
     (let q = ln_cq_waiting w in
      if c \<in> set q then Inl Corrupt_queue
      else if \<not> conn_live w c \<or> q \<noteq> [] \<and> \<not> conn_live w (last q) then Inl Use_after_free
      else Inr (w\<lparr>ln_cq_waiting := q @ [c]\<rparr>))"

definition cq_remove :: "nat \<Rightarrow> world \<Rightarrow> fault + world" where
  "cq_remove c w =
     (let q = ln_cq_waiting w in
      if c \<notin> set q then Inl Corrupt_queue
      else if \<not> conn_live w c \<or> \<not> list_all (conn_live w) (neighbours c q) then Inl Use_after_free
      else Inr (w\<lparr>ln_cq_waiting := remove1 c q\<rparr>))"

lemma set_neighbours: "set (neighbours c q) \<subseteq> set q"
  by (induction c q rule: neighbours.induct) (auto split: list.splits)

subsection \<open>Basic lemmas\<close>

lemma okR_get_conn [simp]:
  "okR Q (get_conn c w) \<longleftrightarrow> (case w_conns w c of None \<Rightarrow> False | Some p \<Rightarrow> Q p)"
  by (simp add: get_conn_def soft_def split: option.splits)

lemma okR_upd_conn [simp]:
  "okR Q (upd_conn c f w) \<longleftrightarrow> (case w_conns w c of None \<Rightarrow> False | Some p \<Rightarrow> Q (put_conn c (f p) w))"
  by (simp add: upd_conn_def)

lemma get_conn_Inr [simp]: "get_conn c w = Inr p \<longleftrightarrow> w_conns w c = Some p"
  by (simp add: get_conn_def split: option.splits)

lemma upd_conn_Inr [simp]:
  "upd_conn c f w = Inr w' \<longleftrightarrow> (\<exists>p. w_conns w c = Some p \<and> w' = put_conn c (f p) w)"
  by (auto simp: upd_conn_def)

lemma put_conn_fields [simp]:
  "w_conns (put_conn c p w) = (w_conns w)(c \<mapsto> p)"
  "ln_srvcf (put_conn c p w) = ln_srvcf w" "ln_bp (put_conn c p w) = ln_bp w"
  "ln_c_count (put_conn c p w) = ln_c_count w" "ln_cq_waiting (put_conn c p w) = ln_cq_waiting w"
  "ln_cq_waiting_num (put_conn c p w) = ln_cq_waiting_num w"
  "ln_working_num (put_conn c p w) = ln_working_num w" "ln_timeout (put_conn c p w) = ln_timeout w"
  "ln_e_listen (put_conn c p w) = ln_e_listen w" "ln_fd (put_conn c p w) = ln_fd w"
  "w_next (put_conn c p w) = w_next w" "w_trace (put_conn c p w) = w_trace w"
  "o_accept (put_conn c p w) = o_accept w" "o_zmalloc (put_conn c p w) = o_zmalloc w"
  "o_fcntl (put_conn c p w) = o_fcntl w" "o_socket (put_conn c p w) = o_socket w"
  "o_connect (put_conn c p w) = o_connect w" "o_sockopt (put_conn c p w) = o_sockopt w"
  "o_recv (put_conn c p w) = o_recv w" "o_send (put_conn c p w) = o_send w"
  "o_malloc (put_conn c p w) = o_malloc w"
  by (simp_all add: put_conn_def)

lemma log_sys_fields [simp]:
  "w_conns (log_sys s w) = w_conns w"
  "ln_srvcf (log_sys s w) = ln_srvcf w" "ln_bp (log_sys s w) = ln_bp w"
  "ln_c_count (log_sys s w) = ln_c_count w" "ln_cq_waiting (log_sys s w) = ln_cq_waiting w"
  "ln_cq_waiting_num (log_sys s w) = ln_cq_waiting_num w"
  "ln_working_num (log_sys s w) = ln_working_num w" "ln_timeout (log_sys s w) = ln_timeout w"
  "ln_e_listen (log_sys s w) = ln_e_listen w" "ln_fd (log_sys s w) = ln_fd w"
  "w_next (log_sys s w) = w_next w" "w_trace (log_sys s w) = w_trace w @ [s]"
  "o_accept (log_sys s w) = o_accept w" "o_zmalloc (log_sys s w) = o_zmalloc w"
  "o_fcntl (log_sys s w) = o_fcntl w" "o_socket (log_sys s w) = o_socket w"
  "o_connect (log_sys s w) = o_connect w" "o_sockopt (log_sys s w) = o_sockopt w"
  "o_recv (log_sys s w) = o_recv w" "o_send (log_sys s w) = o_send w"
  "o_malloc (log_sys s w) = o_malloc w"
  by (simp_all add: log_sys_def)

lemma okR_cq_insert_tail:
  assumes "c \<notin> set (ln_cq_waiting w)" and "conn_live w c"
    and "\<forall>d\<in>set (ln_cq_waiting w). conn_live w d"
  shows "cq_insert_tail c w = Inr (w\<lparr>ln_cq_waiting := ln_cq_waiting w @ [c]\<rparr>)"
  using assms by (cases "ln_cq_waiting w" rule: rev_cases) (auto simp: cq_insert_tail_def Let_def)

lemma okR_cq_remove:
  assumes "c \<in> set (ln_cq_waiting w)" and "\<forall>d\<in>set (ln_cq_waiting w). conn_live w d"
  shows "cq_remove c w = Inr (w\<lparr>ln_cq_waiting := remove1 c (ln_cq_waiting w)\<rparr>)"
  using assms set_neighbours [of c "ln_cq_waiting w"]
  by (auto simp: cq_remove_def Let_def list_all_iff)

lemma okR_zfree_conn:
  "w_conns w c = Some p \<Longrightarrow> conn_idle p
    \<Longrightarrow> zfree_conn c w = Inr (w\<lparr>w_conns := (w_conns w)(c := None)\<rparr>)"
  by (simp add: zfree_conn_def get_conn_def)

end
