(* ===== verification/Zmalloc.thy ===== *)
theory Zmalloc
  imports Prelude
begin

unbundle bit_operations_syntax

section \<open>The counting allocator (src/zmalloc.c)\<close>

text \<open>
  \<open>zmalloc\<close> puts a header of \<open>PREFIX_SIZE\<close> bytes with the requested size before each
  block and keeps the number of bytes in use in a \<open>size_t\<close>; this is the configuration
  without a \<open>malloc_size\<close> of the platform's, which is what a build on Linux with the C
  library's allocator uses.  A block is an address; its capacity is what \<open>malloc\<close> was asked
  for and its header the size stored in it.  \<open>malloc\<close> answers whether there is memory; an
  address is used once.  \<open>realloc\<close> may move a block.  The out-of-memory handler is the fault
  it stops the program with, or \<open>None\<close> if it returns.
\<close>

type_synonym size_t = "64 word"

record zblock =
  zb_cap :: size_t
  zb_size :: size_t

record zstate =
  z_used :: size_t
  z_thread_safe :: bool
  z_oom :: "fault option"
  z_blocks :: "nat \<rightharpoonup> zblock"
  z_next :: nat

definition PREFIX_SIZE :: size_t where "PREFIX_SIZE = 8"

definition zmalloc_default_oom :: fault where "zmalloc_default_oom = Aborted"

definition z_start :: zstate where
  "z_start = \<lparr>z_used = 0, z_thread_safe = False, z_oom = Some zmalloc_default_oom,
     z_blocks = (\<lambda>_. None), z_next = 0\<rparr>"

subsection \<open>The statistics\<close>

text \<open>Rounding up to a multiple of \<open>sizeof(long)\<close>.\<close>

definition pad_long :: "size_t \<Rightarrow> size_t" where
  "pad_long n = (if n AND 7 \<noteq> 0 then n + (8 - (n AND 7)) else n)"

definition update_zmalloc_stat_add :: "size_t \<Rightarrow> zstate \<Rightarrow> zstate" where
  "update_zmalloc_stat_add n z = z\<lparr>z_used := z_used z + n\<rparr>"

definition update_zmalloc_stat_sub :: "size_t \<Rightarrow> zstate \<Rightarrow> zstate" where
  "update_zmalloc_stat_sub n z = z\<lparr>z_used := z_used z - n\<rparr>"

definition update_zmalloc_stat_alloc :: "size_t \<Rightarrow> zstate \<Rightarrow> zstate" where
  "update_zmalloc_stat_alloc n z =
     (if z_thread_safe z then update_zmalloc_stat_add (pad_long n) z
      else z\<lparr>z_used := z_used z + pad_long n\<rparr>)"

definition update_zmalloc_stat_free :: "size_t \<Rightarrow> zstate \<Rightarrow> zstate" where
  "update_zmalloc_stat_free n z =
     (if z_thread_safe z then update_zmalloc_stat_sub (pad_long n) z
      else z\<lparr>z_used := z_used z - pad_long n\<rparr>)"

subsection \<open>The operations\<close>

text \<open>No memory: the handler is called; when it returns the code writes through NULL.\<close>

definition out_of_memory :: "zstate \<Rightarrow> fault" where
  "out_of_memory z = (case z_oom z of Some f \<Rightarrow> f | None \<Rightarrow> Null_deref)"

definition zmalloc :: "size_t \<Rightarrow> bool \<Rightarrow> zstate \<Rightarrow> fault + (nat \<times> zstate)" where
  "zmalloc sz ok z =
     (if \<not> ok then Inl (out_of_memory z)
      else if sz + PREFIX_SIZE < PREFIX_SIZE then Inl Out_of_bounds
      else
        let ptr = z_next z;
            z1 = z\<lparr>z_blocks := (z_blocks z)(ptr \<mapsto> \<lparr>zb_cap = sz + PREFIX_SIZE, zb_size = sz\<rparr>),
                   z_next := ptr + 1\<rparr>
        in Inr (ptr, update_zmalloc_stat_alloc (sz + PREFIX_SIZE) z1))"

definition zcalloc :: "size_t \<Rightarrow> bool \<Rightarrow> zstate \<Rightarrow> fault + (nat \<times> zstate)" where
  "zcalloc sz ok z =
     (if \<not> ok then Inl (out_of_memory z)
      else if sz + PREFIX_SIZE < PREFIX_SIZE then Inl Out_of_bounds
      else
        let ptr = z_next z;
            z1 = z\<lparr>z_blocks := (z_blocks z)(ptr \<mapsto> \<lparr>zb_cap = sz + PREFIX_SIZE, zb_size = sz\<rparr>),
                   z_next := ptr + 1\<rparr>
        in Inr (ptr, update_zmalloc_stat_alloc (sz + PREFIX_SIZE) z1))"

datatype realloc_ans = Realloc_fails | Realloc_in_place | Realloc_moves

definition zrealloc ::
  "nat option \<Rightarrow> size_t \<Rightarrow> realloc_ans \<Rightarrow> zstate \<Rightarrow> fault + (nat \<times> zstate)" where
  "zrealloc ptr sz ans z =
     (case ptr of
        None \<Rightarrow> zmalloc sz (ans \<noteq> Realloc_fails) z
      | Some p \<Rightarrow>
          (case z_blocks z p of
             None \<Rightarrow> Inl Use_after_free
           | Some b \<Rightarrow>
               if ans = Realloc_fails then Inl (out_of_memory z)
               else if sz + PREFIX_SIZE < PREFIX_SIZE then Inl Out_of_bounds
               else
                 let q = (if ans = Realloc_moves then z_next z else p);
                     z1 = z\<lparr>z_blocks := ((z_blocks z)(p := None))
                              (q \<mapsto> \<lparr>zb_cap = sz + PREFIX_SIZE, zb_size = sz\<rparr>),
                            z_next := z_next z + 1\<rparr>
                 in Inr (q, update_zmalloc_stat_alloc sz (update_zmalloc_stat_free (zb_size b) z1))))"

definition zmalloc_size :: "nat \<Rightarrow> zstate \<Rightarrow> fault + size_t" where
  "zmalloc_size ptr z =
     (case z_blocks z ptr of
        None \<Rightarrow> Inl Use_after_free
      | Some b \<Rightarrow> Inr (pad_long (zb_size b) + PREFIX_SIZE))"

definition zfree :: "nat option \<Rightarrow> zstate \<Rightarrow> fault + zstate" where
  "zfree ptr z =
     (case ptr of
        None \<Rightarrow> Inr z
      | Some p \<Rightarrow>
          (case z_blocks z p of
             None \<Rightarrow> Inl Use_after_free
           | Some b \<Rightarrow>
               Inr ((update_zmalloc_stat_free (zb_size b + PREFIX_SIZE) z)
                      \<lparr>z_blocks := (z_blocks z)(p := None)\<rparr>)))"

text \<open>\<open>zstrdup\<close>: the new block and the bytes copied into it, with the final NUL.\<close>

definition zstrdup :: "byte list \<Rightarrow> bool \<Rightarrow> zstate \<Rightarrow> fault + (nat \<times> byte list \<times> zstate)" where
  "zstrdup s ok z =
     (let l = word_of_nat (length s) + 1 in
      bindR (zmalloc l ok z) (\<lambda>(p, z'). Inr (p, take (unat l) (s @ [0]), z')))"

definition zmalloc_used_memory :: "zstate \<Rightarrow> size_t" where
  "zmalloc_used_memory z = z_used z"

definition zmalloc_enable_thread_safeness :: "zstate \<Rightarrow> zstate" where
  "zmalloc_enable_thread_safeness z = z\<lparr>z_thread_safe := True\<rparr>"

definition zmalloc_set_oom_handler :: "fault option \<Rightarrow> zstate \<Rightarrow> zstate" where
  "zmalloc_set_oom_handler h z = z\<lparr>z_oom := h\<rparr>"

text \<open>Without a way to ask the system the resident size is the estimate.\<close>

definition zmalloc_get_rss :: "zstate \<Rightarrow> size_t" where
  "zmalloc_get_rss z = zmalloc_used_memory z"

subsection \<open>The accounting\<close>

text \<open>The padded size of a block with its header is the padded size plus the header.\<close>

lemma take_bit_3_add_8: "take_bit 3 (n + 8) = take_bit 3 (n :: size_t)"
proof -
  have "take_bit 3 (k + 8) = take_bit 3 k" for k :: int
  proof -
    have "take_bit 3 (k + 8) = (k + 8) mod 8" by (simp add: take_bit_eq_mod)
    also have "\<dots> = k mod 8" by presburger
    finally show ?thesis by (simp add: take_bit_eq_mod)
  qed
  then show ?thesis by transfer simp
qed

lemma pad_long_prefix: "pad_long (n + PREFIX_SIZE) = pad_long n + PREFIX_SIZE"
proof -
  have m: "x AND 7 = take_bit 3 x" for x :: size_t
    by (simp add: take_bit_eq_mask mask_eq_exp_minus_1)
  have "(n + 8) AND 7 = n AND 7" unfolding m by (rule take_bit_3_add_8)
  then show ?thesis by (simp add: pad_long_def PREFIX_SIZE_def)
qed

definition footprint :: "zblock \<Rightarrow> size_t" where
  "footprint b = pad_long (zb_size b) + PREFIX_SIZE"

definition zblock_ok :: "zblock \<Rightarrow> bool" where
  "zblock_ok b \<longleftrightarrow> zb_cap b = zb_size b + PREFIX_SIZE \<and> PREFIX_SIZE \<le> zb_cap b"

definition z_ok :: "zstate \<Rightarrow> bool" where
  "z_ok z \<longleftrightarrow> finite (dom (z_blocks z)) \<and> (\<forall>p\<ge>z_next z. z_blocks z p = None)
     \<and> z_used z = heap_sum footprint (z_blocks z)
     \<and> (\<forall>p b. z_blocks z p = Some b \<longrightarrow> zblock_ok b)"

lemma z_start_ok: "z_ok z_start"
  by (simp add: z_ok_def z_start_def)

lemma stat_fields [simp]:
  "z_used (update_zmalloc_stat_alloc n z) = z_used z + pad_long n"
  "z_used (update_zmalloc_stat_free n z) = z_used z - pad_long n"
  "z_blocks (update_zmalloc_stat_alloc n z) = z_blocks z"
  "z_blocks (update_zmalloc_stat_free n z) = z_blocks z"
  "z_next (update_zmalloc_stat_alloc n z) = z_next z"
  "z_next (update_zmalloc_stat_free n z) = z_next z"
  "z_oom (update_zmalloc_stat_alloc n z) = z_oom z"
  "z_oom (update_zmalloc_stat_free n z) = z_oom z"
  by (simp_all add: update_zmalloc_stat_alloc_def update_zmalloc_stat_free_def
      update_zmalloc_stat_add_def update_zmalloc_stat_sub_def)

lemma zmalloc_spec:
  assumes "zmalloc sz ok z = Inr (p, z')" and "z_ok z"
  shows "z_ok z'" and "z_blocks z p = None"
    and "z_blocks z' = (z_blocks z)(p \<mapsto> \<lparr>zb_cap = sz + PREFIX_SIZE, zb_size = sz\<rparr>)"
    and "z_used z' = z_used z + footprint \<lparr>zb_cap = sz + PREFIX_SIZE, zb_size = sz\<rparr>"
    and "z_oom z' = z_oom z"
proof -
  from assms(1) have p: "p = z_next z" and cap: "PREFIX_SIZE \<le> sz + PREFIX_SIZE"
    and z': "z' = update_zmalloc_stat_alloc (sz + PREFIX_SIZE)
      (z\<lparr>z_blocks := (z_blocks z)(p \<mapsto> \<lparr>zb_cap = sz + PREFIX_SIZE, zb_size = sz\<rparr>), z_next := p + 1\<rparr>)"
    by (auto simp: zmalloc_def Let_def not_less split: if_split_asm)
  show none: "z_blocks z p = None" using assms(2) p by (simp add: z_ok_def)
  show blocks: "z_blocks z' = (z_blocks z)(p \<mapsto> \<lparr>zb_cap = sz + PREFIX_SIZE, zb_size = sz\<rparr>)"
    by (simp add: z')
  show used: "z_used z' = z_used z + footprint \<lparr>zb_cap = sz + PREFIX_SIZE, zb_size = sz\<rparr>"
    by (simp add: z' footprint_def pad_long_prefix)
  show "z_oom z' = z_oom z" by (simp add: z')
  have fin: "finite (dom (z_blocks z))" using assms(2) by (simp add: z_ok_def)
  let ?b = "\<lparr>zb_cap = sz + PREFIX_SIZE, zb_size = sz\<rparr>"
  have "zblock_ok ?b" using cap by (simp add: zblock_ok_def)
  moreover have "z_used z' = heap_sum footprint (z_blocks z')"
    using used assms(2) heap_sum_insert [OF fin none, of footprint ?b]
    by (simp add: z_ok_def blocks add.commute)
  moreover have "z_next z' = p + 1" by (simp add: z')
  ultimately show "z_ok z'" using assms(2) fin p by (auto simp: z_ok_def blocks split: if_split_asm)
qed

lemma zfree_spec:
  assumes "z_blocks z p = Some b" and "z_ok z"
  shows "\<exists>z'. zfree (Some p) z = Inr z' \<and> z_ok z' \<and> z_blocks z' = (z_blocks z)(p := None)
    \<and> z_used z' = z_used z - footprint b \<and> z_oom z' = z_oom z"
proof -
  have "finite (dom (z_blocks z))" using assms(2) by (simp add: z_ok_def)
  from heap_sum_delete [OF this assms(1), of footprint] assms show ?thesis
    by (auto simp: zfree_def z_ok_def footprint_def pad_long_prefix)
qed

lemma zrealloc_spec:
  assumes "zrealloc (Some p) sz ans z = Inr (q, z')" and "z_ok z" and "z_blocks z p = Some b"
  shows "z_ok z'"
    and "z_blocks z' = ((z_blocks z)(p := None))(q \<mapsto> \<lparr>zb_cap = sz + PREFIX_SIZE, zb_size = sz\<rparr>)"
    and "z_used z' = z_used z - footprint b + footprint \<lparr>zb_cap = sz + PREFIX_SIZE, zb_size = sz\<rparr>"
proof -
  let ?b = "\<lparr>zb_cap = sz + PREFIX_SIZE, zb_size = sz\<rparr>"
  define m where "m = (z_blocks z)(p := None)"
  from assms(1,3) have q: "q = (if ans = Realloc_moves then z_next z else p)"
    and cap: "PREFIX_SIZE \<le> sz + PREFIX_SIZE"
    and z': "z' = update_zmalloc_stat_alloc sz (update_zmalloc_stat_free (zb_size b)
      (z\<lparr>z_blocks := m(q \<mapsto> ?b), z_next := z_next z + 1\<rparr>))"
    by (auto simp: zrealloc_def m_def Let_def not_less split: if_split_asm)
  have blocks: "z_blocks z' = m(q \<mapsto> ?b)" by (simp add: z')
  then show "z_blocks z' = ((z_blocks z)(p := None))(q \<mapsto> ?b)" by (simp add: m_def)
  show used: "z_used z' = z_used z - footprint b + footprint ?b"
    by (simp add: z' footprint_def)
  have fin: "finite (dom (z_blocks z))" "finite (dom m)" using assms(2) by (simp_all add: z_ok_def m_def)
  have pn: "p < z_next z" using assms(2,3) by (metis z_ok_def not_less option.distinct(1))
  have none: "m q = None" using assms(2) q by (auto simp: z_ok_def m_def)
  have "z_used z' = heap_sum footprint (z_blocks z')"
    using used assms(2) heap_sum_insert [OF fin(2) none, of footprint ?b]
      heap_sum_delete [OF fin(1) assms(3), of footprint, folded m_def]
    by (simp add: z_ok_def blocks)
  moreover have "zblock_ok ?b" using cap by (simp add: zblock_ok_def)
  moreover have "z_next z' = z_next z + 1" by (simp add: z')
  ultimately show "z_ok z'"
    using assms(2) fin pn q by (auto simp: z_ok_def blocks m_def split: if_split_asm)
qed

lemma zmalloc_returns:
  "PREFIX_SIZE \<le> sz + PREFIX_SIZE \<Longrightarrow> \<exists>p z'. zmalloc sz True z = Inr (p, z')"
  by (simp add: zmalloc_def Let_def)

lemma zcalloc_zmalloc: "zcalloc sz ok z = zmalloc sz ok z"
  by (simp add: zcalloc_def zmalloc_def)

lemma zfree_cases:
  assumes "zfree ptr z = Inr z'" and "z_ok z"
  shows "z_ok z'"
proof (cases ptr)
  case None
  with assms show ?thesis by (simp add: zfree_def)
next
  case (Some p)
  with assms(1) obtain b where "z_blocks z p = Some b" by (auto simp: zfree_def split: option.splits)
  from zfree_spec [OF this assms(2)] Some assms(1) show ?thesis by auto
qed

lemma zrealloc_ok:
  assumes "zrealloc ptr sz ans z = Inr (q, z')" and "z_ok z"
  shows "z_ok z'"
proof (cases ptr)
  case None
  with assms zmalloc_spec(1) [of sz _ z q z'] show ?thesis by (simp add: zrealloc_def)
next
  case (Some p)
  with assms(1) obtain b where "z_blocks z p = Some b" by (auto simp: zrealloc_def split: option.splits)
  with Some assms zrealloc_spec(1) show ?thesis by metis
qed

subsection \<open>What its clients rely on\<close>

text \<open>
  A client takes blocks and gives them back; it relies on a block being new and on giving it
  back undoing the allocation.  Its lemma: a list of blocks taken one after another and
  given back in any order leaves the heap and the count of bytes in use as they were.
\<close>

fun give_all :: "(nat \<Rightarrow> 'z \<Rightarrow> 'z option) \<Rightarrow> nat list \<Rightarrow> 'z \<Rightarrow> 'z option" where
  "give_all give [] z = Some z"
| "give_all give (p # ps) z = (case give p z of None \<Rightarrow> None | Some z' \<Rightarrow> give_all give ps z')"

locale accounted_heap =
  fixes acquire :: "'z \<Rightarrow> nat \<Rightarrow> 'b \<Rightarrow> 'z \<Rightarrow> bool"
    and release :: "nat \<Rightarrow> 'z \<Rightarrow> 'z option"
    and ok :: "'z \<Rightarrow> bool"
    and heap :: "'z \<Rightarrow> nat \<rightharpoonup> 'b"
    and used :: "'z \<Rightarrow> 'n::ab_group_add"
    and weight :: "'b \<Rightarrow> 'n"
  assumes acquire: "ok z \<Longrightarrow> acquire z p b z' \<Longrightarrow> ok z' \<and> heap z p = None \<and> heap z' = (heap z)(p \<mapsto> b)"
    and release: "ok z \<Longrightarrow> heap z p = Some b \<Longrightarrow> \<exists>z'. release p z = Some z' \<and> ok z' \<and> heap z' = (heap z)(p := None)"
    and used: "ok z \<Longrightarrow> finite (dom (heap z)) \<and> used z = heap_sum weight (heap z)"
begin

lemma give_all:
  "ok z \<Longrightarrow> distinct ps \<Longrightarrow> set ps \<subseteq> dom (heap z)
    \<Longrightarrow> \<exists>z'. give_all release ps z = Some z' \<and> ok z' \<and> heap z' = heap z |` (- set ps)"
proof (induction ps arbitrary: z)
  case Nil
  then show ?case by simp
next
  case (Cons p ps)
  then obtain b where "heap z p = Some b" by auto
  with Cons.prems(1) obtain z1 where z1: "release p z = Some z1" "ok z1" "heap z1 = (heap z)(p := None)"
    using release by blast
  have "set ps \<subseteq> dom (heap z1)" using Cons.prems(2,3) z1(3) by auto
  with Cons.IH [OF z1(2)] Cons.prems(2) obtain z' where
    "give_all release ps z1 = Some z'" "ok z'" "heap z' = heap z1 |` (- set ps)" by auto
  moreover have "heap z1 |` (- set ps) = heap z |` (- set (p # ps))"
    by (auto simp: z1(3) restrict_map_def fun_eq_iff)
  ultimately show ?case using z1(1) by simp
qed

lemma same_heap_used: "ok z \<Longrightarrow> ok z' \<Longrightarrow> heap z' = heap z \<Longrightarrow> used z' = used z"
  using used [of z] used [of z'] by simp

lemma give_back_all:
  assumes "ok z" and "ok z0" and "distinct ps" and "set ps = dom (heap z) - dom (heap z0)"
    and "heap z0 \<subseteq>\<^sub>m heap z"
  shows "\<exists>z'. give_all release ps z = Some z' \<and> ok z' \<and> heap z' = heap z0 \<and> used z' = used z0"
proof -
  from give_all [OF assms(1,3)] assms(4) obtain z'
    where z': "give_all release ps z = Some z'" "ok z'" "heap z' = heap z |` (- set ps)" by auto
  have "heap z |` (- set ps) = heap z0"
  proof
    fix p
    show "(heap z |` (- set ps)) p = heap z0 p"
      using assms(4,5) by (cases "heap z0 p"; cases "heap z p")
        (auto simp: restrict_map_def map_le_def dom_def)
  qed
  with z' same_heap_used [OF assms(2)] show ?thesis by auto
qed

end

definition ztake :: "zstate \<Rightarrow> nat \<Rightarrow> zblock \<Rightarrow> zstate \<Rightarrow> bool" where
  "ztake z p b z' \<longleftrightarrow> zmalloc (zb_size b) True z = Inr (p, z') \<and> zb_cap b = zb_size b + PREFIX_SIZE"

definition zgive :: "nat \<Rightarrow> zstate \<Rightarrow> zstate option" where
  "zgive p z = (case zfree (Some p) z of Inl _ \<Rightarrow> None | Inr z' \<Rightarrow> Some z')"

interpretation zheap: accounted_heap ztake zgive z_ok z_blocks z_used footprint
proof
  fix z p b z'
  assume "z_ok z" and "ztake z p b z'"
  with zmalloc_spec [of "zb_size b" True z p z']
  show "z_ok z' \<and> z_blocks z p = None \<and> z_blocks z' = (z_blocks z)(p \<mapsto> b)"
    by (cases b) (simp add: ztake_def)
next
  fix z p b
  assume "z_ok z" and "z_blocks z p = Some b"
  from zfree_spec [OF this(2,1)]
  show "\<exists>z'. zgive p z = Some z' \<and> z_ok z' \<and> z_blocks z' = (z_blocks z)(p := None)"
    by (auto simp: zgive_def)
qed (simp add: z_ok_def)

text \<open>\<open>zgrown z0 ps z\<close>: \<open>z\<close> has the blocks of \<open>z0\<close>, unchanged, and those of \<open>ps\<close>.\<close>

definition zgrown :: "zstate \<Rightarrow> nat list \<Rightarrow> zstate \<Rightarrow> bool" where
  "zgrown z0 ps z \<longleftrightarrow> z_ok z \<and> z_blocks z0 \<subseteq>\<^sub>m z_blocks z \<and> distinct ps
     \<and> set ps = dom (z_blocks z) - dom (z_blocks z0)"

lemma zgrown_start: "z_ok z \<Longrightarrow> zgrown z [] z"
  by (simp add: zgrown_def)

lemma zgrown_zmalloc:
  assumes "zgrown z0 ps z" and "zmalloc sz ok z = Inr (p, z')"
  shows "zgrown z0 (ps @ [p]) z'"
proof -
  from assms(1) have ok: "z_ok z" by (simp add: zgrown_def)
  note spec = zmalloc_spec [OF assms(2) ok]
  have "p \<notin> set ps" using assms(1) spec(2) by (auto simp: zgrown_def)
  moreover have "z_blocks z0 p = None"
    using assms(1) spec(2) by (auto simp: zgrown_def map_le_def dom_def)
  ultimately show ?thesis
    using assms(1) spec(1,3) by (auto simp: zgrown_def map_le_def)
qed

lemma zgrown_give_back:
  assumes "zgrown z0 ps z" and "z_ok z0" and "distinct qs" and "set qs = set ps"
  shows "\<exists>z'. give_all zgive qs z = Some z' \<and> z_ok z' \<and> z_blocks z' = z_blocks z0 \<and> z_used z' = z_used z0"
  using zheap.give_back_all [OF _ assms(2,3)] assms(1,4) by (simp add: zgrown_def)

lemma zgive_zfree: "zgive p z = Some z' \<longleftrightarrow> zfree (Some p) z = Inr z'"
  by (auto simp: zgive_def split: sum.splits)

subsection \<open>Properties\<close>

datatype zop =
    Op_malloc size_t bool
  | Op_calloc size_t bool
  | Op_realloc "nat option" size_t realloc_ans
  | Op_free "nat option"
  | Op_thread_safe
  | Op_oom_handler "fault option"

fun zstep :: "zop \<Rightarrow> zstate \<Rightarrow> fault + zstate" where
  "zstep (Op_malloc sz ok) z = bindR (zmalloc sz ok z) (\<lambda>(p, z'). Inr z')"
| "zstep (Op_calloc sz ok) z = bindR (zcalloc sz ok z) (\<lambda>(p, z'). Inr z')"
| "zstep (Op_realloc ptr sz ans) z = bindR (zrealloc ptr sz ans z) (\<lambda>(p, z'). Inr z')"
| "zstep (Op_free ptr) z = zfree ptr z"
| "zstep Op_thread_safe z = Inr (zmalloc_enable_thread_safeness z)"
| "zstep (Op_oom_handler h) z = Inr (zmalloc_set_oom_handler h z)"

fun run_zops :: "zop list \<Rightarrow> zstate \<Rightarrow> fault + zstate" where
  "run_zops [] z = Inr z"
| "run_zops (op # ops) z = bindR (zstep op z) (run_zops ops)"

lemma zstep_ok: "zstep op z = Inr z' \<Longrightarrow> z_ok z \<Longrightarrow> z_ok z'"
  by (cases op)
    (auto simp: zcalloc_zmalloc zmalloc_enable_thread_safeness_def zmalloc_set_oom_handler_def z_ok_def [of "z_thread_safe_update _ _"]
      z_ok_def [of "z_oom_update _ _"] z_ok_def [of z] dest: zfree_cases dest!: zmalloc_spec(1) zrealloc_ok)

lemma run_zops_ok: "run_zops ops z = Inr z' \<Longrightarrow> z_ok z \<Longrightarrow> z_ok z'"
  by (induction ops arbitrary: z) (auto dest: zstep_ok)

text \<open>C33: The count of used memory is exact: after any sequence of the allocator's operations, with
  or without the locking enabled half way, it is the sum of \<open>zmalloc_size\<close> over the blocks that are
  allocated, and so it is zero when all have been freed.\<close>

theorem used_memory_exact:
  assumes "run_zops ops z_start = Inr z"
  shows "zmalloc_used_memory z
      = (\<Sum>p\<in>dom (z_blocks z). case zmalloc_size p z of Inl _ \<Rightarrow> 0 | Inr n \<Rightarrow> n)"
proof -
  have ok: "z_ok z" using run_zops_ok [OF assms z_start_ok] .
  have "(\<Sum>p\<in>dom (z_blocks z). case zmalloc_size p z of Inl _ \<Rightarrow> 0 | Inr n \<Rightarrow> n)
      = heap_sum footprint (z_blocks z)"
    unfolding heap_sum_def by (rule sum.cong) (auto simp: zmalloc_size_def footprint_def)
  with ok show ?thesis by (simp add: z_ok_def zmalloc_used_memory_def)
qed

theorem used_memory_exact_witness:
  "\<exists>z. run_zops [Op_malloc 13 True, Op_thread_safe, Op_malloc 40 True, Op_realloc (Some 0) 5 Realloc_moves,
      Op_free (Some 1)] z_start = Inr z
    \<and> zmalloc_used_memory z = 16
    \<and> (\<Sum>p\<in>dom (z_blocks z). case zmalloc_size p z of Inl _ \<Rightarrow> 0 | Inr n \<Rightarrow> n) = 16"
proof -
  have "case run_zops [Op_malloc 13 True, Op_thread_safe, Op_malloc 40 True, Op_realloc (Some 0) 5 Realloc_moves,
      Op_free (Some 1)] z_start of Inl _ \<Rightarrow> False | Inr z \<Rightarrow> zmalloc_used_memory z = 16"
    by code_simp
  then obtain z where z: "run_zops [Op_malloc 13 True, Op_thread_safe, Op_malloc 40 True,
      Op_realloc (Some 0) 5 Realloc_moves, Op_free (Some 1)] z_start = Inr z"
    "zmalloc_used_memory z = 16"
    by (simp split: sum.splits)
  from used_memory_exact [OF z(1)] z show ?thesis by auto
qed

text \<open>For a request within \<open>PREFIX_SIZE\<close> of \<open>SIZE_MAX\<close> the size passed to \<open>malloc\<close> wraps around:
  when \<open>malloc\<close> grants the few bytes, the header is written outside of them.\<close>

lemma zmalloc_wraps:
  assumes "- PREFIX_SIZE \<le> sz"
  shows "sz + PREFIX_SIZE < PREFIX_SIZE \<and> zmalloc sz True z = Inl Out_of_bounds"
proof -
  have lo: "uint (- PREFIX_SIZE) \<le> uint sz" using assms by (simp add: word_le_def)
  have eight: "uint PREFIX_SIZE = 8" "uint (- PREFIX_SIZE) = 18446744073709551608"
    by (simp_all add: PREFIX_SIZE_def)
  have hi: "uint sz < 18446744073709551616" using uint_bounded [of sz] by simp
  have "uint (sz + PREFIX_SIZE) = (uint sz + 8) mod 18446744073709551616"
    by (simp add: uint_word_ariths eight)
  also have "uint sz + 8 = (uint sz - 18446744073709551608) + 18446744073709551616" by simp
  also have "((uint sz - 18446744073709551608) + 18446744073709551616) mod 18446744073709551616
      = (uint sz - 18446744073709551608) mod 18446744073709551616"
    by (rule mod_add_self2)
  also have "\<dots> = uint sz - 18446744073709551608"
    by (rule mod_pos_pos_trivial) (use lo hi eight in linarith)+
  finally have "uint (sz + PREFIX_SIZE) < uint PREFIX_SIZE" using hi eight by simp
  then have "sz + PREFIX_SIZE < PREFIX_SIZE" by (simp add: word_less_def)
  then show ?thesis by (simp add: zmalloc_def)
qed

lemma zmalloc_wraps_example:
  "zmalloc 18446744073709551610 True z_start = Inl Out_of_bounds"
  using zmalloc_wraps [of 18446744073709551610] by (simp add: PREFIX_SIZE_def)

end
