(* ===== verification/Conf_Load.thy ===== *)
theory Conf_Load
  imports Conf Connection Zmalloc
begin

section \<open>Reading and freeing the configuration (src/xtp\_conf.c)\<close>

text \<open>
  The XML parser is the library iksemel, which is not part of the repository: it is the
  argument \<open>api\<close> of the definitions, a record of the functions the code calls.  A node is
  a value of a type \<open>'n\<close>, a NULL node \<open>None\<close>; \<open>ik_children\<close> lists the nodes that
  \<open>iks_child\<close> and \<open>iks_next\<close> enumerate.  Memory comes from \<open>zmalloc\<close>, whose answers are
  taken from a list; the addresses of the blocks are kept beside the configuration they hold.
\<close>

subsection \<open>atoi\<close>

definition isspace :: "char \<Rightarrow> bool" where
  "isspace c \<longleftrightarrow> of_char c = (32 :: nat) \<or> 9 \<le> (of_char c :: nat) \<and> of_char c \<le> (13 :: nat)"

definition digit_value :: "char \<Rightarrow> nat option" where
  "digit_value c = (if 48 \<le> (of_char c :: nat) \<and> of_char c \<le> (57 :: nat)
     then Some (of_char c - 48) else None)"

fun read_digits :: "int \<Rightarrow> string \<Rightarrow> int" where
  "read_digits acc [] = acc"
| "read_digits acc (c # cs) =
     (case digit_value c of None \<Rightarrow> acc | Some d \<Rightarrow> read_digits (acc * 10 + int d) cs)"

text \<open>\<open>strtol\<close> with base 10 on a 64-bit \<open>long\<close>; \<open>atoi\<close> cuts its result to an \<open>int\<close>.\<close>

definition strtol10 :: "string \<Rightarrow> int" where
  "strtol10 s =
     (let s1 = dropWhile isspace s;
          v = (case s1 of
                 [] \<Rightarrow> 0
               | c # cs \<Rightarrow>
                   if c = CHR ''-'' then - read_digits 0 cs
                   else if c = CHR ''+'' then read_digits 0 cs
                   else read_digits 0 s1)
      in max (- (2 ^ 63)) (min (2 ^ 63 - 1) v))"

definition atoi :: "string \<Rightarrow> int" where
  "atoi s = sint (word_of_int (strtol10 s) :: u32)"

subsection \<open>The parser's interface\<close>

record 'n iks_api =
  ik_load :: "string \<Rightarrow> 'n option"
  ik_find_cdata :: "'n \<Rightarrow> string \<Rightarrow> string option"
  ik_find :: "'n option \<Rightarrow> string \<Rightarrow> 'n option"
  ik_find_attrib :: "'n option \<Rightarrow> string \<Rightarrow> string option"
  ik_children :: "'n option \<Rightarrow> 'n list"
  ik_name :: "'n \<Rightarrow> string option"

definition XNET_DEFAULE_PIDFILE :: string where "XNET_DEFAULE_PIDFILE = ''/tmp/xtp.pid''"

definition sizeof_srvconf :: size_t where "sizeof_srvconf = 64"
definition sizeof_upstream_conf :: size_t where "sizeof_upstream_conf = 16"
definition sizeof_pointer :: size_t where "sizeof_pointer = 8"

definition attrib_int :: "'n iks_api \<Rightarrow> 'n option \<Rightarrow> string \<Rightarrow> int \<Rightarrow> int" where
  "attrib_int api node nm dflt =
     (case ik_find_attrib api node nm of Some content \<Rightarrow> atoi content | None \<Rightarrow> dflt)"

definition conf_access :: "'n iks_api \<Rightarrow> 'n option \<Rightarrow> xtp_access_entry" where
  "conf_access api access =
     \<lparr>ac_port = attrib_int api access ''port'' 9097,
      ac_max = attrib_int api access ''max'' CONN_NUM_MAX,
      ac_timeout = attrib_int api access ''timeout'' 60\<rparr>"

definition conf_pidfile :: "'n iks_api \<Rightarrow> 'n \<Rightarrow> string" where
  "conf_pidfile api conf =
     (case ik_find_cdata api conf ''pidfile'' of Some content \<Rightarrow> content | None \<Rightarrow> XNET_DEFAULE_PIDFILE)"

subsection \<open>The two passes over the upstream servers\<close>

text \<open>
  Nodes whose name holds a line break (the text between the elements) are skipped;
  \<open>strchr\<close> of a NULL name is a NULL dereference.
\<close>

fun upstream_count :: "'n iks_api \<Rightarrow> 'n list \<Rightarrow> int \<Rightarrow> fault + int" where
  "upstream_count api [] num = Inr num"
| "upstream_count api (c # cs) num =
     (case ik_name api c of
        None \<Rightarrow> Inl Null_deref
      | Some nm \<Rightarrow>
          if CHR 0x0A \<in> set nm then upstream_count api cs num
          else upstream_count api cs (num + 1))"

definition zalloc :: "size_t \<Rightarrow> bool list \<Rightarrow> zstate \<Rightarrow> fault + (nat \<times> bool list \<times> zstate)" where
  "zalloc sz oks z =
     bindR (pop oks) (\<lambda>(ok, oks').
       bindR (zmalloc sz ok z) (\<lambda>(p, z'). Inr (p, oks', z')))"

text \<open>
  The second pass.  \<open>num\<close> is the length of the table, \<open>confs\<close> and \<open>ps\<close> what has been
  entered so far and the addresses of the entries; \<open>False\<close> is the jump to \<open>err_todo\<close>.
\<close>

fun upstream_fill ::
  "'n iks_api \<Rightarrow> int \<Rightarrow> 'n list \<Rightarrow> xtp_upstream_conf list \<Rightarrow> nat list \<Rightarrow> bool list \<Rightarrow> zstate
    \<Rightarrow> fault + (bool \<times> xtp_upstream_conf list \<times> nat list \<times> bool list \<times> zstate)" where
  "upstream_fill api num [] confs ps oks z = Inr (True, confs, ps, oks, z)"
| "upstream_fill api num (c # cs) confs ps oks z =
     (case ik_name api c of
        None \<Rightarrow> Inl Null_deref
      | Some nm \<Rightarrow>
          if CHR 0x0A \<in> set nm then upstream_fill api num cs confs ps oks z
          else if num \<le> int (length confs) then Inl Out_of_bounds
          else
            bindR (zalloc sizeof_upstream_conf oks z) (\<lambda>(p, oks', z').
              case ik_find_attrib api (Some c) ''ip'' of
                None \<Rightarrow> Inr (False, confs, ps @ [p], oks', z')
              | Some ip \<Rightarrow>
                  upstream_fill api num cs
                    (confs @ [\<lparr>uc_ip = ip, uc_port = attrib_int api (Some c) ''port'' 80,
                               uc_timeout = attrib_int api (Some c) ''timeout'' 60\<rparr>])
                    (ps @ [p]) oks' z'))"

subsection \<open>x\_server\_conf\_new and x\_server\_conf\_destroy\<close>

record conf_mem =
  cm_conf :: xtp_srvconf
  cm_self :: nat
  cm_table :: nat
  cm_entries :: "nat list"

definition x_server_conf_new ::
  "'n iks_api \<Rightarrow> string option \<Rightarrow> bool list \<Rightarrow> zstate
    \<Rightarrow> fault + (conf_mem option \<times> bool list \<times> zstate)" where
  "x_server_conf_new api conf_file oks z =
     (case conf_file of
        None \<Rightarrow> Inr (None, oks, z)
      | Some f \<Rightarrow>
          (case ik_load api f of
             None \<Rightarrow> Inr (None, oks, z)
           | Some conf \<Rightarrow>
               bindR (zalloc sizeof_srvconf oks z) (\<lambda>(self, oks1, z1).
                 let server = ik_find api (Some conf) ''server'';
                     access = ik_find api server ''access'';
                     upstream = ik_find api server ''upstream''
                 in bindR (upstream_count api (ik_children api upstream) 0) (\<lambda>num.
                   bindR (zalloc (sizeof_pointer * word_of_int num) oks1 z1) (\<lambda>(table, oks2, z2).
                     bindR (upstream_fill api num (ik_children api upstream) [] [] oks2 z2)
                       (\<lambda>(ok, confs, ps, oks3, z3).
                         if ok then
                           Inr (Some \<lparr>cm_conf =
                                  \<lparr>sc_pidfile = conf_pidfile api conf, sc_access = conf_access api access,
                                   sc_upstream = confs, sc_upstream_num = num, sc_upstream_index = 0,
                                   sc_working_num_max = attrib_int api upstream ''max'' CONN_NUM_MAX\<rparr>,
                                 cm_self = self, cm_table = table, cm_entries = ps\<rparr>, oks3, z3)
                         else
                           bindR (zfree (Some self) z3) (\<lambda>z4. Inr (None, oks3, z4))))))))"

fun free_entries :: "nat list \<Rightarrow> zstate \<Rightarrow> fault + zstate" where
  "free_entries [] z = Inr z"
| "free_entries (p # ps) z = bindR (zfree (Some p) z) (free_entries ps)"

definition x_server_conf_destroy :: "conf_mem option \<Rightarrow> zstate \<Rightarrow> fault + zstate" where
  "x_server_conf_destroy cm z =
     (case cm of
        None \<Rightarrow> Inr z
      | Some m \<Rightarrow>
          bindR (free_entries (take (nat (sc_upstream_num (cm_conf m))) (cm_entries m)) z) (\<lambda>z1.
            bindR (zfree (Some (cm_table m)) z1) (\<lambda>z2. zfree (Some (cm_self m)) z2)))"

text \<open>The two questions the program asks about files, for the answers of \<open>access\<close> and \<open>stat\<close>.\<close>

definition x_file_exists :: "(string \<Rightarrow> int) \<Rightarrow> string option \<Rightarrow> int" where
  "x_file_exists access fname =
     (case fname of None \<Rightarrow> 0 | Some f \<Rightarrow> if access f \<noteq> -1 then 1 else 0)"

definition x_file_isdir :: "(string \<Rightarrow> bool option) \<Rightarrow> string option \<Rightarrow> int" where
  "x_file_isdir stat fpath =
     (case fpath of
        None \<Rightarrow> 0
      | Some f \<Rightarrow> (case stat f of None \<Rightarrow> 0 | Some isdir \<Rightarrow> if isdir then 1 else 0))"

subsection \<open>What the two passes compute\<close>

definition is_element :: "'n iks_api \<Rightarrow> 'n \<Rightarrow> bool" where
  "is_element api c = (case ik_name api c of None \<Rightarrow> False | Some nm \<Rightarrow> CHR 0x0A \<notin> set nm)"

definition upstream_conf :: "'n iks_api \<Rightarrow> 'n \<Rightarrow> xtp_upstream_conf" where
  "upstream_conf api c =
     \<lparr>uc_ip = (case ik_find_attrib api (Some c) ''ip'' of Some ip \<Rightarrow> ip | None \<Rightarrow> []),
      uc_port = attrib_int api (Some c) ''port'' 80,
      uc_timeout = attrib_int api (Some c) ''timeout'' 60\<rparr>"

definition has_ip :: "'n iks_api \<Rightarrow> 'n \<Rightarrow> bool" where
  "has_ip api c \<longleftrightarrow> ik_find_attrib api (Some c) ''ip'' \<noteq> None"

lemma upstream_count_eq:
  "upstream_count api cs num = Inr n \<Longrightarrow>
     n = num + int (length (filter (is_element api) cs)) \<and> (\<forall>c\<in>set cs. ik_name api c \<noteq> None)"
  by (induction api cs num rule: upstream_count.induct)
    (auto simp: is_element_def split: option.splits if_split_asm)

lemma upstream_count_returns:
  "\<forall>c\<in>set cs. ik_name api c \<noteq> None \<Longrightarrow>
     upstream_count api cs num = Inr (num + int (length (filter (is_element api) cs)))"
  by (induction api cs num rule: upstream_count.induct)
    (auto simp: is_element_def)

lemma zalloc_grown:
  assumes "zgrown z0 ps z" and "zalloc sz oks z = Inr (p, oks', z')"
  shows "zgrown z0 (ps @ [p]) z'"
  using assms(2) zgrown_zmalloc [OF assms(1)] by (auto simp: zalloc_def)

lemma upstream_fill_spec:
  assumes "upstream_fill api num cs confs ps oks z = Inr (ok, confs', ps', oks', z')"
    and "length ps = length confs"
  shows "\<exists>qs. ps' = ps @ qs
    \<and> (ok \<longrightarrow> confs' = confs @ map (upstream_conf api) (filter (is_element api) cs)
        \<and> (\<forall>c\<in>set (filter (is_element api) cs). has_ip api c) \<and> length ps' = length confs')
    \<and> (\<not> ok \<longrightarrow> qs \<noteq> [] \<and> (\<exists>c\<in>set (filter (is_element api) cs). \<not> has_ip api c))
    \<and> (\<forall>z0 rs. zgrown z0 (rs @ ps) z \<longrightarrow> zgrown z0 (rs @ ps') z')"
  using assms
proof (induction api num cs confs ps oks z rule: upstream_fill.induct)
  case (1 api num confs ps oks z)
  then show ?case by simp
next
  case (2 api num c cs confs ps oks z)
  note run = "2.prems"(1) [unfolded upstream_fill.simps]
  from run obtain nm where nm: "ik_name api c = Some nm" by (auto split: option.splits)
  show ?case
  proof (cases "CHR 0x0A \<in> set nm")
    case True
    with run nm have "upstream_fill api num cs confs ps oks z = Inr (ok, confs', ps', oks', z')" by simp
    from "2.IH"(1) [OF nm True this "2.prems"(2)] True nm show ?thesis by (simp add: is_element_def)
  next
    case elem: False
    then have el: "is_element api c" using nm by (simp add: is_element_def)
    from run nm elem obtain p oks1 z1 where al: "zalloc sizeof_upstream_conf oks z = Inr (p, oks1, z1)"
      and room: "\<not> num \<le> int (length confs)" by (auto split: if_split_asm)
    have grow: "zgrown z0 (rs @ (ps @ [p])) z1" if "zgrown z0 (rs @ ps) z" for z0 rs
      using zalloc_grown [OF that al] by simp
    show ?thesis
    proof (cases "ik_find_attrib api (Some c) ''ip''")
      case None
      with run nm elem room al have "ok = False" "ps' = ps @ [p]" "z' = z1" by simp_all
      moreover have "\<not> has_ip api c" using None by (simp add: has_ip_def)
      ultimately show ?thesis using el grow by auto
    next
      case (Some ip)
      let ?conf = "\<lparr>uc_ip = ip, uc_port = attrib_int api (Some c) ''port'' 80,
          uc_timeout = attrib_int api (Some c) ''timeout'' 60\<rparr>"
      have rec: "upstream_fill api num cs (confs @ [?conf]) (ps @ [p]) oks1 z1
          = Inr (ok, confs', ps', oks', z')"
        using run nm elem room al Some by simp
      have conf: "?conf = upstream_conf api c" and hip: "has_ip api c"
        using Some by (simp_all add: upstream_conf_def has_ip_def)
      from "2.IH"(2) [OF nm elem room al refl refl Some rec] "2.prems"(2) obtain qs where
        "ps' = (ps @ [p]) @ qs
        \<and> (ok \<longrightarrow> confs' = (confs @ [?conf]) @ map (upstream_conf api) (filter (is_element api) cs)
            \<and> (\<forall>c\<in>set (filter (is_element api) cs). has_ip api c) \<and> length ps' = length confs')
        \<and> (\<not> ok \<longrightarrow> qs \<noteq> [] \<and> (\<exists>c\<in>set (filter (is_element api) cs). \<not> has_ip api c))
        \<and> (\<forall>z0 rs. zgrown z0 (rs @ (ps @ [p])) z1 \<longrightarrow> zgrown z0 (rs @ ps') z')" by auto
      with conf hip el grow show ?thesis by (intro exI [of _ "p # qs"]) auto
    qed
  qed
qed

text \<open>
  The configuration that a document stands for, with the names of the attributes and the values
  for missing ones written out, and without a function of the code but \<open>atoi\<close>.
\<close>

definition number_or :: "int \<Rightarrow> string option \<Rightarrow> int" where
  "number_or dflt content = (case content of None \<Rightarrow> dflt | Some s \<Rightarrow> atoi s)"

definition conf_spec :: "'n iks_api \<Rightarrow> 'n \<Rightarrow> xtp_srvconf" where
  "conf_spec api conf =
     (let server = ik_find api (Some conf) ''server'';
          access = ik_find_attrib api (ik_find api server ''access'');
          upstream = ik_find api server ''upstream'';
          nodes = filter (is_element api) (ik_children api upstream)
      in \<lparr>sc_pidfile = (case ik_find_cdata api conf ''pidfile'' of None \<Rightarrow> ''/tmp/xtp.pid'' | Some s \<Rightarrow> s),
          sc_access = \<lparr>ac_port = number_or 9097 (access ''port''),
                       ac_max = number_or 655350 (access ''max''),
                       ac_timeout = number_or 60 (access ''timeout'')\<rparr>,
          sc_upstream = map (\<lambda>n. let server = ik_find_attrib api (Some n) in
              \<lparr>uc_ip = (case server ''ip'' of None \<Rightarrow> '''' | Some ip \<Rightarrow> ip),
               uc_port = number_or 80 (server ''port''),
               uc_timeout = number_or 60 (server ''timeout'')\<rparr>) nodes,
          sc_upstream_num = int (length nodes), sc_upstream_index = 0,
          sc_working_num_max = number_or 655350 (ik_find_attrib api upstream ''max'')\<rparr>)"

lemma attrib_number: "attrib_int api node nm dflt = number_or dflt (ik_find_attrib api node nm)"
  by (simp add: attrib_int_def number_or_def split: option.split)

lemma conf_spec_model:
  "conf_spec api conf =
     (let server = ik_find api (Some conf) ''server'';
          upstream = ik_find api server ''upstream'';
          nodes = filter (is_element api) (ik_children api upstream)
      in \<lparr>sc_pidfile = conf_pidfile api conf, sc_access = conf_access api (ik_find api server ''access''),
          sc_upstream = map (upstream_conf api) nodes, sc_upstream_num = int (length nodes),
          sc_upstream_index = 0,
          sc_working_num_max = attrib_int api upstream ''max'' CONN_NUM_MAX\<rparr>)"
  by (simp add: conf_spec_def conf_access_def conf_pidfile_def upstream_conf_def attrib_number
      CONN_NUM_MAX_def XNET_DEFAULE_PIDFILE_def Let_def fun_eq_iff split: option.split)

lemma zgrown_single: "z_ok z \<Longrightarrow> zalloc sz oks z = Inr (p, oks', z') \<Longrightarrow> zgrown z [p] z'"
  using zalloc_grown [OF zgrown_start] by fastforce

lemma conf_new_spec:
  assumes "x_server_conf_new api (Some f) oks z = Inr (Some cm, oks', z')"
  obtains conf where "ik_load api f = Some conf" and "cm_conf cm = conf_spec api conf"
    and "length (cm_entries cm) = length (sc_upstream (cm_conf cm))"
    and "z_ok z \<Longrightarrow> zgrown z ([cm_self cm, cm_table cm] @ cm_entries cm) z'"
proof -
  from assms obtain conf where ld: "ik_load api f = Some conf"
    by (auto simp: x_server_conf_new_def split: option.splits)
  let ?up = "ik_find api (ik_find api (Some conf) ''server'') ''upstream''"
  from assms ld obtain self oks1 z1 num table oks2 z2 confs ps
    where a1: "zalloc sizeof_srvconf oks z = Inr (self, oks1, z1)"
      and n: "upstream_count api (ik_children api ?up) 0 = Inr num"
      and a2: "zalloc (sizeof_pointer * word_of_int num) oks1 z1 = Inr (table, oks2, z2)"
      and fl: "upstream_fill api num (ik_children api ?up) [] [] oks2 z2 = Inr (True, confs, ps, oks', z')"
      and cm: "cm = \<lparr>cm_conf = \<lparr>sc_pidfile = conf_pidfile api conf,
            sc_access = conf_access api (ik_find api (ik_find api (Some conf) ''server'') ''access''),
            sc_upstream = confs, sc_upstream_num = num, sc_upstream_index = 0,
            sc_working_num_max = attrib_int api ?up ''max'' CONN_NUM_MAX\<rparr>,
          cm_self = self, cm_table = table, cm_entries = ps\<rparr>"
    by (auto simp: x_server_conf_new_def Let_def split: if_split_asm)
  from upstream_fill_spec [OF fl] have
    confs: "confs = map (upstream_conf api) (filter (is_element api) (ik_children api ?up))"
    and len: "length ps = length confs"
    and grow: "\<forall>z0 rs. zgrown z0 (rs @ []) z2 \<longrightarrow> zgrown z0 (rs @ ps) z'" by auto
  have "num = int (length (filter (is_element api) (ik_children api ?up)))"
    using upstream_count_eq [OF n] by simp
  then have "cm_conf cm = conf_spec api conf" by (simp add: cm conf_spec_model Let_def confs)
  moreover have "zgrown z ([self, table] @ ps) z'" if "z_ok z"
    using zalloc_grown [OF zgrown_single [OF that a1] a2] grow by fastforce
  moreover have "length (cm_entries cm) = length (sc_upstream (cm_conf cm))"
    by (simp add: cm len)
  ultimately show ?thesis using that [OF ld] by (simp add: cm)
qed

lemma free_entries_give_all: "give_all zgive ps z = Some z' \<Longrightarrow> free_entries ps z = Inr z'"
  by (induction ps arbitrary: z) (auto simp: zgive_def split: option.splits sum.splits)

lemma free_entries_append:
  "free_entries (ps @ qs) z = bindR (free_entries ps z) (free_entries qs)"
proof (induction ps arbitrary: z)
  case Nil
  then show ?case by simp
next
  case (Cons p ps)
  then show ?case by (cases "zfree (Some p) z") simp_all
qed

lemma upstream_fill_returns:
  assumes "\<forall>c\<in>set cs. ik_name api c \<noteq> None" and "\<forall>c\<in>set cs. is_element api c \<longrightarrow> has_ip api c"
    and "int (length confs + length (filter (is_element api) cs)) \<le> num"
    and "length (filter (is_element api) cs) \<le> length oks" and "set oks \<subseteq> {True}"
  shows "\<exists>r. upstream_fill api num cs confs ps oks z = Inr (True, r)"
  using assms
proof (induction cs arbitrary: confs ps oks z)
  case Nil
  then show ?case by simp
next
  case (Cons c cs)
  from Cons.prems(1) obtain nm where nm: "ik_name api c = Some nm" by auto
  show ?case
  proof (cases "is_element api c")
    case False
    with Cons nm show ?thesis by (auto simp: is_element_def)
  next
    case True
    then have elem: "CHR 0x0A \<notin> set nm" using nm by (simp add: is_element_def)
    from Cons.prems(2) True obtain ip where ip: "ik_find_attrib api (Some c) ''ip'' = Some ip"
      by (auto simp: has_ip_def)
    from Cons.prems(4,5) True obtain oks1 where oks: "oks = True # oks1" "set oks1 \<subseteq> {True}"
      "length (filter (is_element api) cs) \<le> length oks1"
      by (cases oks) auto
    obtain p z1 where al: "zalloc sizeof_upstream_conf oks z = Inr (p, oks1, z1)"
      by (simp add: zalloc_def oks(1) zmalloc_def sizeof_upstream_conf_def PREFIX_SIZE_def Let_def)
    let ?conf = "\<lparr>uc_ip = ip, uc_port = attrib_int api (Some c) ''port'' 80,
        uc_timeout = attrib_int api (Some c) ''timeout'' 60\<rparr>"
    have "\<exists>r. upstream_fill api num cs (confs @ [?conf]) (ps @ [p]) oks1 z1 = Inr (True, r)"
      by (rule Cons.IH) (use Cons.prems(1-3) True oks in simp_all)
    moreover have "\<not> num \<le> int (length confs)" using Cons.prems(3) True by simp
    ultimately show ?thesis using nm elem ip al by simp
  qed
qed

lemma digit_value_digit: "d < 10 \<Longrightarrow> digit_value (digit d) = Some d"
proof -
  have "\<forall>d\<in>set [0..<10]. digit_value (digit d) = Some d" by code_simp
  then show "d < 10 \<Longrightarrow> digit_value (digit d) = Some d" by simp
qed

lemma read_digits_snoc:
  "\<forall>c\<in>set cs. digit_value c \<noteq> None \<Longrightarrow> d < 10
    \<Longrightarrow> read_digits acc (cs @ [digit d]) = read_digits acc cs * 10 + int d"
  by (induction acc cs rule: read_digits.induct) (auto simp: digit_value_digit)

lemma dec_digits: "\<forall>c\<in>set (dec n). digit_value c \<noteq> None"
proof (induction n rule: dec.induct)
  case (1 n)
  then show ?case by (simp add: dec.simps [of n] digit_value_digit)
qed

lemma read_digits_dec: "read_digits 0 (dec n) = int n"
proof (induction n rule: dec.induct)
  case (1 n)
  show ?case
  proof (cases "n < 10")
    case True
    then show ?thesis by (simp add: dec.simps [of n] digit_value_digit)
  next
    case False
    have "read_digits 0 (dec n) = int (n div 10) * 10 + int (n mod 10)"
      using False 1 dec_digits [of "n div 10"]
      by (simp add: dec.simps [of n] read_digits_snoc)
    then show ?thesis by (simp only: zdiv_int zmod_int) simp
  qed
qed

lemma digit_not_sign: "digit_value c \<noteq> None \<Longrightarrow> \<not> isspace c \<and> c \<noteq> CHR ''-'' \<and> c \<noteq> CHR ''+''"
  by (auto simp: digit_value_def isspace_def split: if_splits)

lemma conf_refused:
  assumes "x_server_conf_new api (Some f) oks z = Inr (None, oks', z')" and "z_ok z"
    and "ik_load api f = Some conf"
  shows "z_ok z'" and "z_blocks z \<subseteq>\<^sub>m z_blocks z'" and "dom (z_blocks z) \<subset> dom (z_blocks z')"
proof -
  let ?up = "ik_find api (ik_find api (Some conf) ''server'') ''upstream''"
  from assms(1,3) obtain self oks1 z1 num table oks2 z2 confs ps z3
    where a1: "zalloc sizeof_srvconf oks z = Inr (self, oks1, z1)"
      and a2: "zalloc (sizeof_pointer * word_of_int num) oks1 z1 = Inr (table, oks2, z2)"
      and fl: "upstream_fill api num (ik_children api ?up) [] [] oks2 z2 = Inr (False, confs, ps, oks', z3)"
      and fr: "zfree (Some self) z3 = Inr z'"
    by (auto simp: x_server_conf_new_def Let_def split: if_split_asm)
  have "zgrown z [self, table] z2" using zalloc_grown [OF zgrown_single [OF assms(2) a1] a2] by simp
  with upstream_fill_spec [OF fl] have grow: "zgrown z ([self, table] @ ps) z3" by fastforce
  then obtain b where "z_blocks z3 self = Some b" by (auto simp: zgrown_def)
  from zfree_spec [OF this] grow fr have z': "z_blocks z' = (z_blocks z3)(self := None)"
    and "z_ok z'"
    by (auto simp: zgrown_def)
  have "self \<notin> dom (z_blocks z)" "table \<in> dom (z_blocks z3) - dom (z_blocks z)" "self \<noteq> table"
    and sub: "z_blocks z \<subseteq>\<^sub>m z_blocks z3"
    using grow by (auto simp: zgrown_def)
  then have "z_blocks z \<subseteq>\<^sub>m z_blocks z'" and "table \<in> dom (z_blocks z')" and "table \<notin> dom (z_blocks z)"
    by (auto simp: z' map_le_def)
  with \<open>z_ok z'\<close> show "z_ok z'" "z_blocks z \<subseteq>\<^sub>m z_blocks z'" "dom (z_blocks z) \<subset> dom (z_blocks z')"
    using map_le_implies_dom_le [of "z_blocks z" "z_blocks z'"] by auto
qed

subsection \<open>Properties\<close>

text \<open>C31: Reading a configuration yields what the document says: the port, the limit and the timeout
  for the clients are the numbers of the attributes \<open>port\<close>, \<open>max\<close> and \<open>timeout\<close> of \<open>access\<close>, or 9097,
  655350 and 60 where they are missing; the table of upstream servers has exactly the elements
  below \<open>upstream\<close>, in the document's order, each with its \<open>ip\<close>, its \<open>port\<close> (or 80) and its
  \<open>timeout\<close> (or 60); the limit on upstream connections is the attribute \<open>max\<close> of \<open>upstream\<close>, or
  655350, and the pid file the text of \<open>pidfile\<close>, or /tmp/xtp.pid.\<close>

theorem conf_new_reads:
  assumes "x_server_conf_new api (Some f) oks z = Inr (Some cm, oks', z')"
  shows "\<exists>conf. ik_load api f = Some conf \<and> cm_conf cm = conf_spec api conf
    \<and> sc_upstream_num (cm_conf cm) = int (length (sc_upstream (cm_conf cm)))
    \<and> sc_upstream_index (cm_conf cm) = 0"
proof -
  from assms obtain conf where "ik_load api f = Some conf" "cm_conf cm = conf_spec api conf"
    using conf_new_spec by metis
  then show ?thesis by (auto simp: conf_spec_def Let_def)
qed

text \<open>C32: Destroying a configuration undoes reading it: every block that \<open>x_server_conf_new\<close> allocated
  is freed, none twice, and the heap and the count of used memory are what they were.\<close>

theorem conf_new_destroy:
  assumes "x_server_conf_new api (Some f) oks z = Inr (Some cm, oks', z')" and "z_ok z"
  shows "\<exists>z''. x_server_conf_destroy (Some cm) z' = Inr z'' \<and> z_ok z'' \<and> z_blocks z'' = z_blocks z
    \<and> zmalloc_used_memory z'' = zmalloc_used_memory z"
proof -
  from assms(1) obtain conf where spec: "cm_conf cm = conf_spec api conf"
    and len: "length (cm_entries cm) = length (sc_upstream (cm_conf cm))"
    and grow: "zgrown z ([cm_self cm, cm_table cm] @ cm_entries cm) z'"
    using conf_new_spec assms(2) by metis
  have "take (nat (sc_upstream_num (cm_conf cm))) (cm_entries cm) = cm_entries cm"
    using spec len by (simp add: conf_spec_def Let_def)
  then have run: "x_server_conf_destroy (Some cm) z'
      = free_entries (cm_entries cm @ [cm_table cm, cm_self cm]) z'"
    by (simp add: x_server_conf_destroy_def free_entries_append)
      (cases "free_entries (cm_entries cm) z'"; simp; simp add: bindR_def split: sum.split)
  have "\<exists>z''. give_all zgive (cm_entries cm @ [cm_table cm, cm_self cm]) z' = Some z'' \<and> z_ok z''
      \<and> z_blocks z'' = z_blocks z \<and> z_used z'' = z_used z"
    by (rule zgrown_give_back [OF grow assms(2)]) (use grow in \<open>auto simp: zgrown_def\<close>)
  then show ?thesis
    unfolding run zmalloc_used_memory_def using free_entries_give_all by metis
qed

text \<open>A configuration that is refused leaks: when an upstream server has no \<open>ip\<close>, only the
  outermost block is freed; the table and the entries made so far stay allocated.\<close>

theorem conf_new_leaks:
  assumes "x_server_conf_new api (Some f) oks z = Inr (None, oks', z')" and "z_ok z"
    and "ik_load api f = Some conf"
  shows "z_blocks z \<subseteq>\<^sub>m z_blocks z' \<and> dom (z_blocks z) \<subset> dom (z_blocks z')"
  using conf_refused [OF assms] by blast

text \<open>A well-formed document is accepted: if every node below \<open>upstream\<close> has a name and every
  element there an \<open>ip\<close>, and there is memory, the result is a configuration.\<close>

lemma conf_new_accepts:
  assumes "ik_load api f = Some conf"
    and "up = ik_find api (ik_find api (Some conf) ''server'') ''upstream''"
    and "\<forall>c\<in>set (ik_children api up). ik_name api c \<noteq> None \<and> (is_element api c \<longrightarrow> has_ip api c)"
    and "length (ik_children api up) < 2 ^ 32"
    and "length (ik_children api up) + 2 \<le> length oks" and "set oks \<subseteq> {True}"
  shows "\<exists>cm oks' z'. x_server_conf_new api (Some f) oks z = Inr (Some cm, oks', z')"
proof -
  let ?n = "length (filter (is_element api) (ik_children api up))"
  have le: "?n \<le> length (ik_children api up)" by (rule length_filter_le)
  from assms(5) obtain o1 o2 oks2 where oks0: "oks = o1 # o2 # oks2"
    by (auto simp: Suc_le_length_iff)
  with assms(6) have oks: "oks = True # True # oks2" by auto
  have cnt: "upstream_count api (ik_children api up) 0 = Inr (int ?n)"
    using upstream_count_returns [of "ik_children api up" api 0] assms(3) by simp
  obtain p1 z1 where a1: "zalloc sizeof_srvconf oks z = Inr (p1, True # oks2, z1)"
    by (simp add: zalloc_def oks zmalloc_def sizeof_srvconf_def PREFIX_SIZE_def Let_def)
  have "PREFIX_SIZE \<le> sizeof_pointer * word_of_nat ?n + PREFIX_SIZE"
  proof -
    have "?n < 2 ^ 32" using le assms(4) by (rule le_less_trans)
    then have lt: "8 * ?n + 8 < 2 ^ 64" by simp
    have eq: "sizeof_pointer * word_of_nat ?n + PREFIX_SIZE = (word_of_nat (8 * ?n + 8) :: size_t)"
      by (simp add: sizeof_pointer_def PREFIX_SIZE_def)
    have small: "unat (word_of_nat k :: size_t) = k" if "k < 2 ^ 64" for k
      using that by (simp add: unsigned_of_nat take_bit_nat_eq_self_iff)
    have "unat (word_of_nat (8 * ?n + 8) :: size_t) = 8 * ?n + 8" by (rule small [OF lt])
    then show ?thesis by (simp only: eq word_le_nat_alt) (simp add: PREFIX_SIZE_def)
  qed
  from zmalloc_returns [OF this, of z1] obtain p2 z2
    where "zmalloc (sizeof_pointer * word_of_nat ?n) True z1 = Inr (p2, z2)" by blast
  then have a2: "zalloc (sizeof_pointer * word_of_int (int ?n)) (True # oks2) z1 = Inr (p2, oks2, z2)"
    by (simp add: zalloc_def)
  have "\<exists>r. upstream_fill api (int ?n) (ik_children api up) [] [] oks2 z2 = Inr (True, r)"
  proof (rule upstream_fill_returns)
    show "?n \<le> length oks2" by (rule order_trans [OF le]) (use assms(5) oks in simp)
  qed (use assms(3,6) oks in auto)
  then obtain confs ps oks3 z3
    where fl: "upstream_fill api (int ?n) (ik_children api up) [] [] oks2 z2 = Inr (True, confs, ps, oks3, z3)"
    by auto
  show ?thesis
    unfolding x_server_conf_new_def using assms(1) a1 cnt a2 fl
    by (simp add: assms(2) Let_def)
qed

text \<open>\<open>atoi\<close> of the decimal digits of a number below \<open>2 ^ 31\<close> is that number.\<close>

lemma atoi_digits:
  assumes "n < 2 ^ 31"
  shows "atoi (dec n) = int n"
proof -
  have "dec n \<noteq> []" by (subst dec.simps) simp
  then obtain c cs where d: "dec n = c # cs" by (cases "dec n") auto
  then have "digit_value c \<noteq> None" using dec_digits [of n] by simp
  note sign = digit_not_sign [OF this]
  have "strtol10 (dec n) = max (- (2 ^ 63)) (min (2 ^ 63 - 1) (read_digits 0 (dec n)))"
    using sign by (simp add: strtol10_def d Let_def)
  also have "\<dots> = int n" using assms by (simp add: read_digits_dec)
  finally show ?thesis using sint_word_of_int_u32 [of "int n"] assms by (simp add: atoi_def)
qed

subsection \<open>A document\<close>

text \<open>A parser's interface over trees, and a document with one complete and one incomplete server.\<close>

datatype xml = Element string "(string \<times> string) list" "xml list" | Cdata string

fun xml_name :: "xml \<Rightarrow> string" where
  "xml_name (Element nm attrs kids) = nm"
| "xml_name (Cdata s) = s"

fun xml_kids :: "xml \<Rightarrow> xml list" where
  "xml_kids (Element nm attrs kids) = kids"
| "xml_kids (Cdata s) = []"

fun xml_attrs :: "xml \<Rightarrow> (string \<times> string) list" where
  "xml_attrs (Element nm attrs kids) = attrs"
| "xml_attrs (Cdata s) = []"

definition tree_api :: "xml \<Rightarrow> xml iks_api" where
  "tree_api doc = \<lparr>ik_load = (\<lambda>f. if f = ''etc/conf.xml'' then Some doc else None),
     ik_find_cdata = (\<lambda>n s. map_option xml_name (find (\<lambda>k. xml_name k = s) (xml_kids n))),
     ik_find = (\<lambda>n s. case n of None \<Rightarrow> None | Some x \<Rightarrow> find (\<lambda>k. xml_name k = s) (xml_kids x)),
     ik_find_attrib = (\<lambda>n s. case n of None \<Rightarrow> None | Some x \<Rightarrow> map_of (xml_attrs x) s),
     ik_children = (\<lambda>n. case n of None \<Rightarrow> [] | Some x \<Rightarrow> xml_kids x),
     ik_name = (\<lambda>n. Some (xml_name n))\<rparr>"

definition sample_doc :: "(string \<times> string) list \<Rightarrow> xml" where
  "sample_doc attrs = Element ''proxy'' [] [Element ''server'' []
     [Element ''access'' [(''port'', ''9000''), (''timeout'', ''30'')] [],
      Element ''upstream'' [(''max'', ''5'')] [Cdata [CHR 0x0A], Element ''item'' attrs [], Cdata [CHR 0x0A]]]]"

lemma sample_run:
  obtains cm oks z where "x_server_conf_new (tree_api (sample_doc [(''ip'', ''10.0.0.1'')]))
      (Some ''etc/conf.xml'') [True, True, True] z_start = Inr (Some cm, oks, z)"
    and "sc_upstream_num (cm_conf cm) = 1" and "ac_port (sc_access (cm_conf cm)) = 9000"
proof -
  have "case x_server_conf_new (tree_api (sample_doc [(''ip'', ''10.0.0.1'')]))
      (Some ''etc/conf.xml'') [True, True, True] z_start of Inl _ \<Rightarrow> False
    | Inr (r, oks, z) \<Rightarrow> (case r of None \<Rightarrow> False
        | Some cm \<Rightarrow> sc_upstream_num (cm_conf cm) = 1 \<and> ac_port (sc_access (cm_conf cm)) = 9000)"
    by code_simp
  then show ?thesis using that by (auto split: sum.splits option.splits prod.splits)
qed

theorem conf_new_reads_witness:
  "\<exists>cm :: conf_mem. cm_conf cm = conf_spec (tree_api (sample_doc [(''ip'', ''10.0.0.1'')])) (sample_doc [(''ip'', ''10.0.0.1'')])
    \<and> sc_upstream_num (cm_conf cm) = 1 \<and> length (sc_upstream (cm_conf cm)) = 1"
proof -
  obtain cm oks z where run: "x_server_conf_new (tree_api (sample_doc [(''ip'', ''10.0.0.1'')]))
      (Some ''etc/conf.xml'') [True, True, True] z_start = Inr (Some cm, oks, z)"
    "sc_upstream_num (cm_conf cm) = 1" using sample_run by metis
  have ld: "ik_load (tree_api (sample_doc [(''ip'', ''10.0.0.1'')])) ''etc/conf.xml''
      = Some (sample_doc [(''ip'', ''10.0.0.1'')])"
    by (simp add: tree_api_def)
  from conf_new_reads [OF run(1)] have "cm_conf cm
      = conf_spec (tree_api (sample_doc [(''ip'', ''10.0.0.1'')])) (sample_doc [(''ip'', ''10.0.0.1'')])"
    and num: "sc_upstream_num (cm_conf cm) = int (length (sc_upstream (cm_conf cm)))"
    unfolding ld by blast+
  moreover have "length (sc_upstream (cm_conf cm)) = 1" using num unfolding run(2) by simp
  ultimately show ?thesis using run(2) by blast
qed

theorem conf_new_destroy_witness:
  "\<exists>cm z z''. x_server_conf_destroy (Some cm) z = Inr z'' \<and> zmalloc_used_memory z'' = 0
    \<and> sc_upstream_num (cm_conf cm) = 1"
proof -
  obtain cm oks z where run: "x_server_conf_new (tree_api (sample_doc [(''ip'', ''10.0.0.1'')]))
      (Some ''etc/conf.xml'') [True, True, True] z_start = Inr (Some cm, oks, z)"
    "sc_upstream_num (cm_conf cm) = 1" using sample_run by metis
  from conf_new_destroy [OF run(1) z_start_ok] run(2) show ?thesis
    by (auto simp: zmalloc_used_memory_def z_start_def)
qed

theorem conf_new_leaks_witness:
  "\<exists>oks z. x_server_conf_new (tree_api (sample_doc [])) (Some ''etc/conf.xml'') [True, True, True] z_start
      = Inr (None, oks, z) \<and> dom (z_blocks z) \<noteq> {}"
proof -
  have "case x_server_conf_new (tree_api (sample_doc [])) (Some ''etc/conf.xml'') [True, True, True] z_start of
      Inl _ \<Rightarrow> False | Inr (r, oks, z) \<Rightarrow> (case r of None \<Rightarrow> True | Some cm \<Rightarrow> False)"
    by code_simp
  then obtain oks z where run: "x_server_conf_new (tree_api (sample_doc [])) (Some ''etc/conf.xml'')
      [True, True, True] z_start = Inr (None, oks, z)"
    by (auto split: sum.splits option.splits prod.splits)
  have "ik_load (tree_api (sample_doc [])) ''etc/conf.xml'' = Some (sample_doc [])"
    by (simp add: tree_api_def)
  from conf_new_leaks [OF run z_start_ok this] run show ?thesis by auto
qed

end
