(* ===== verification/Upstream.thy ===== *)
theory Upstream
  imports Connection "HOL-Library.Signed_Division"
begin

section \<open>The upstream side of a connection (src/xtp\_upstream.c)\<close>

text \<open>
  Admission of waiting connections to the upstream servers and the callbacks of the
  upstream socket.  An operation takes the connection's address and the state and returns
  the state, with the C function's result where it has one.
\<close>

abbreviation (input) XNET_OK :: int where "XNET_OK \<equiv> 0"
abbreviation (input) XNET_ERR :: int where "XNET_ERR \<equiv> -1"
abbreviation (input) XNET_BUSY :: int where "XNET_BUSY \<equiv> -3"

subsection \<open>Choosing a peer\<close>

definition x_upstream_choose_peer ::
  "xtp_srvconf option \<Rightarrow> fault + (xtp_upstream_conf option \<times> xtp_srvconf option)" where
  "x_upstream_choose_peer srvcf =
     (case srvcf of
        None \<Rightarrow> Inr (None, None)
      | Some s \<Rightarrow>
          if sc_upstream_num s = 0 then Inl Div_by_zero
          else
            let i = sc_upstream_index s smod sc_upstream_num s in
            if i < 0 \<or> int (length (sc_upstream s)) \<le> i then Inl Out_of_bounds
            else Inr (Some (sc_upstream s ! nat i), Some (s\<lparr>sc_upstream_index := i + 1\<rparr>)))"

subsection \<open>Opening a connection to it\<close>

definition upc_connecting :: "int \<Rightarrow> xtp_conn \<Rightarrow> xtp_conn" where
  "upc_connecting sockfd p = p\<lparr>c_upc_fd := sockfd, c_upc_status := CONN_CONNECT,
     c_upc_e_recv := True, c_upc_e_send := False, c_upc_e_connected := True,
     c_upc_e_timer := Timer_start CONN_CONNECT_TIMEOUT CONN_CONNECT_TIMEOUT\<rparr>"

text \<open>\<open>ev_io_init\<close> and \<open>ev_timer_init\<close> must not be called on a watcher that is started.\<close>

definition upc_idle :: "xtp_conn \<Rightarrow> bool" where
  "upc_idle p \<longleftrightarrow> \<not> c_upc_e_recv p \<and> \<not> c_upc_e_send p \<and> \<not> c_upc_e_connected p
     \<and> \<not> timer_active (c_upc_e_timer p)"

definition x_upstream_connection_new ::
  "nat \<Rightarrow> xtp_upstream_conf option \<Rightarrow> world \<Rightarrow> fault + (int \<times> world)" where
  "x_upstream_connection_new c upcf w =
     bindR (pop (o_socket w)) (\<lambda>(sockfd, so).
       let w1 = log_sys (Sys_socket sockfd) (w\<lparr>o_socket := so\<rparr>) in
       if sockfd = -1 then Inr (XNET_ERR, w1)
       else
         bindR (x_setNonBlock (o_fcntl w1)) (\<lambda>(r, opts, fc).
           let w2 = w1\<lparr>o_fcntl := fc\<rparr> in
           if r = -1 then Inr (XNET_ERR, w2)
           else
             bindR (get_conn c w2) (\<lambda>p.
               if \<not> upc_idle p then Inl Active_watcher
               else case upcf of
                 None \<Rightarrow> Inl Null_deref
               | Some peer \<Rightarrow>
                   let w3 = put_conn c (upc_connecting sockfd p) w2 in
                   bindR (pop (o_connect w3)) (\<lambda>(rc, co).
                     let w4 = log_sys (Sys_connect sockfd peer rc) (w3\<lparr>o_connect := co\<rparr>) in
                     if rc \<noteq> None \<and> rc \<noteq> Some EINPROGRESS then Inr (XNET_ERR, w4)
                     else Inr (XNET_OK, w4)))))"

definition x_upstream_init :: "nat \<Rightarrow> world \<Rightarrow> fault + (int \<times> world)" where
  "x_upstream_init c w =
     bindR (x_upstream_choose_peer (Some (ln_srvcf w))) (\<lambda>(upcf, srvcf).
       let w1 = (case srvcf of None \<Rightarrow> w | Some s \<Rightarrow> w\<lparr>ln_srvcf := s\<rparr>) in
       bindR (x_upstream_connection_new c upcf w1) (\<lambda>(rc, w2).
         bindR (upd_conn c (\<lambda>p. p\<lparr>c_upcf := upcf\<rparr>) w2) (\<lambda>w3. Inr (rc, w3))))"

lemma x_upstream_connection_new_socket:
  "x_upstream_connection_new c upcf w = Inr (rc, w') \<Longrightarrow> length (o_socket w') < length (o_socket w)"
  by (cases "o_socket w")
    (auto simp: x_upstream_connection_new_def Let_def simp del: upd_conn_Inr
      split: if_split_asm option.split_asm)

lemma x_upstream_init_socket:
  "x_upstream_init c w = Inr (rc, w') \<Longrightarrow> length (o_socket w') < length (o_socket w)"
  by (auto simp: x_upstream_init_def Let_def split: option.splits
      dest!: x_upstream_connection_new_socket)

subsection \<open>Admission: x\_upstream\_handle and x\_upstream\_final\<close>

text \<open>\<open>x_access_send_to_client\<close> of \<open>src/xtp_access.c\<close> and its counterpart for the upstream socket.\<close>

definition x_access_send_to_client :: "nat \<Rightarrow> world \<Rightarrow> fault + world" where
  "x_access_send_to_client c w = upd_conn c (\<lambda>p. p\<lparr>c_e_send := True\<rparr>) w"

definition x_upstream_send_to_peer :: "nat \<Rightarrow> world \<Rightarrow> fault + world" where
  "x_upstream_send_to_peer c w = upd_conn c (\<lambda>p. p\<lparr>c_upc_e_send := True\<rparr>) w"

definition upc_stopped :: "xtp_conn \<Rightarrow> xtp_conn" where
  "upc_stopped p = p\<lparr>c_upc_e_recv := False, c_upc_e_send := False, c_upc_e_connected := False,
     c_upc_e_timer := Timer_off\<rparr>"

text \<open>
  The two functions call each other: a connect that fails at once is finalised, and
  finalising offers the free place to the head of the queue, which is still the same
  connection.  Every round opens a socket, so the recursion is bounded by the sockets the
  system will give out.
\<close>

function x_upstream_handle :: "world \<Rightarrow> fault + (int \<times> world)"
  and x_upstream_final :: "nat \<Rightarrow> world \<Rightarrow> fault + world" where
  "x_upstream_handle w =
     (case ln_cq_waiting w of
        [] \<Rightarrow> Inr (XNET_OK, w)
      | c # _ \<Rightarrow>
          if sc_working_num_max (ln_srvcf w) \<le> ln_working_num w then Inr (XNET_BUSY, w)
          else
            bindR (x_upstream_init c w) (\<lambda>(rc, w1).
              if rc = XNET_OK then
                bindR (cq_remove c w1) (\<lambda>w2.
                  let w3 = w2\<lparr>ln_cq_waiting_num := ln_cq_waiting_num w2 - 1\<rparr> in
                  bindR (upd_conn c (\<lambda>p. p\<lparr>c_status := CONN_WORKING\<rparr>) w3) (\<lambda>w4.
                    Inr (rc, w4\<lparr>ln_working_num := ln_working_num w4 + 1\<rparr>)))
              else
                bindR (x_upstream_final c w1) (\<lambda>w2. Inr (rc, w2))))"
| "x_upstream_final c w =
     bindR (get_conn c w) (\<lambda>p.
       if c_upc_status p = CONN_NONE then Inr w
       else if c_upc_status p \<noteq> CONN_CLOSE then
         let w1 = log_sys (Sys_close (c_upc_fd p))
                    (put_conn c ((upc_stopped p)\<lparr>c_upc_status := CONN_CLOSE\<rparr>) w) in
         bindR (if c_status p \<noteq> CONN_CLOSE then x_access_send_to_client c w1 else Inr w1) (\<lambda>w2.
           bindR (x_upstream_handle (w2\<lparr>ln_working_num := ln_working_num w2 - 1\<rparr>)) (\<lambda>(rc, w3).
             Inr w3))
       else Inr w)"
  by pat_completeness auto
termination
  by (relation "measure (\<lambda>x. case x of Inl w \<Rightarrow> 2 * length (o_socket w)
        | Inr (c, w) \<Rightarrow> 2 * length (o_socket w) + 1)")
    (auto simp: x_access_send_to_client_def dest!: x_upstream_init_socket split: if_splits)

declare x_upstream_handle.simps [simp del] x_upstream_final.simps [simp del]

subsection \<open>The callbacks of the upstream socket\<close>

text \<open>\<open>valopt\<close> is what \<open>getsockopt(SO_ERROR)\<close> stores; \<open>None\<close> is a failing call.\<close>

definition x_upstream_connected_cb :: "nat \<Rightarrow> world \<Rightarrow> fault + world" where
  "x_upstream_connected_cb c w =
     bindR (get_conn c w) (\<lambda>p.
       bindR (pop (o_sockopt w)) (\<lambda>(valopt, so).
         let w1 = w\<lparr>o_sockopt := so\<rparr> in
         case valopt of
           None \<Rightarrow> x_upstream_final c w1
         | Some v \<Rightarrow>
             if v \<noteq> 0 then x_upstream_final c w1
             else
               (case c_upcf p of
                  None \<Rightarrow> Inl Null_deref
                | Some upcf \<Rightarrow>
                    bindR (ev_timer_ok (uc_timeout upcf)) (\<lambda>_.
                      Inr (put_conn c (p\<lparr>c_upc_e_connected := False, c_upc_e_send := True,
                        c_upc_e_timer := Timer_again (of_int (uc_timeout upcf)),
                        c_upc_status := CONN_WORKING\<rparr>) w1)))))"

definition x_upstream_send_cb :: "nat \<Rightarrow> world \<Rightarrow> fault + world" where
  "x_upstream_send_cb c w =
     bindR (get_conn c w) (\<lambda>p.
       bindR (upstream_bufsend (c_pipe1 p) (ln_bp w) [] (o_send w)) (\<lambda>(out, pipe1, bp, sent, ss).
         let w1 = log_sys (Sys_send (c_upc_fd p) sent)
                    (put_conn c (p\<lparr>c_pipe1 := pipe1\<rparr>) (w\<lparr>ln_bp := bp, o_send := ss\<rparr>)) in
         if out = Send_error then x_upstream_final c w1
         else upd_conn c (\<lambda>p. p\<lparr>c_upc_e_send := False\<rparr>) w1))"

definition x_upstream_recv_cb :: "nat \<Rightarrow> world \<Rightarrow> fault + world" where
  "x_upstream_recv_cb c w =
     bindR (get_conn c w) (\<lambda>p.
       bindR (pipe_recv (c_pipe2 p) (ln_bp w) (o_recv w) (o_malloc w)) (\<lambda>(out, pipe2, bp, rs, ms).
         let w1 = put_conn c (p\<lparr>c_pipe2 := pipe2\<rparr>) (w\<lparr>ln_bp := bp, o_recv := rs, o_malloc := ms\<rparr>) in
         if out = Closed then x_upstream_final c w1
         else x_access_send_to_client c w1))"

definition x_upstream_timeout_cb :: "nat \<Rightarrow> world \<Rightarrow> fault + world" where
  "x_upstream_timeout_cb c w =
     bindR (get_conn c w) (\<lambda>p.
       let w1 = (if c_upc_status p \<noteq> CONN_CLOSE
                 then put_conn c (p\<lparr>c_upc_status := CONN_TIMEOUT\<rparr>) w else w) in
       bindR (x_upstream_final c w1) (\<lambda>w2.
         upd_conn c (\<lambda>p. p\<lparr>c_upc_e_timer := Timer_off\<rparr>) w2))"

subsection \<open>Properties\<close>

text \<open>The peers chosen by \<open>n\<close> successive calls.\<close>

fun choose_peers :: "nat \<Rightarrow> xtp_srvconf \<Rightarrow> fault + xtp_upstream_conf list" where
  "choose_peers 0 s = Inr []"
| "choose_peers (Suc n) s =
     bindR (x_upstream_choose_peer (Some s)) (\<lambda>(upcf, s').
       bindR (case s' of None \<Rightarrow> Inr [] | Some s1 \<Rightarrow> choose_peers n s1) (\<lambda>ps.
         Inr (case upcf of None \<Rightarrow> ps | Some p \<Rightarrow> p # ps)))"

lemma smod_nonneg: "0 \<le> a \<Longrightarrow> 0 < b \<Longrightarrow> a smod b = a mod (b :: int)"
  by (simp add: signed_modulo_int_def sgn_if)

lemma choose_peer_step:
  assumes "sc_upstream_num s = int (length (sc_upstream s))" and "sc_upstream s \<noteq> []"
    and "sc_upstream_index s = int i"
  shows "x_upstream_choose_peer (Some s) = Inr (Some (sc_upstream s ! (i mod length (sc_upstream s))),
    Some (s\<lparr>sc_upstream_index := int (i mod length (sc_upstream s)) + 1\<rparr>))"
proof -
  have "sc_upstream_index s smod sc_upstream_num s = int (i mod length (sc_upstream s))"
    using assms by (simp add: smod_nonneg zmod_int)
  moreover have "\<not> length (sc_upstream s) \<le> i mod length (sc_upstream s)"
    using assms(2) by (simp add: not_le)
  ultimately show ?thesis using assms by (simp add: x_upstream_choose_peer_def Let_def)
qed

text \<open>The peers are taken in turn: with \<open>k\<close> upstream servers, call number \<open>j\<close> counted from
  position \<open>i\<close> of the table yields server \<open>(i + j) mod k\<close>, so that each of \<open>k\<close> successive
  connections goes to another server.\<close>

theorem choose_peer_round_robin:
  assumes "sc_upstream_num s = int (length (sc_upstream s))" and "sc_upstream s \<noteq> []"
    and "sc_upstream_index s = int i"
  shows "choose_peers n s
    = Inr (map (\<lambda>j. sc_upstream s ! ((i + j) mod length (sc_upstream s))) [0..<n])"
  using assms
proof (induction n arbitrary: s i)
  case 0
  then show ?case by simp
next
  case (Suc n)
  let ?k = "length (sc_upstream s)"
  let ?s = "s\<lparr>sc_upstream_index := int (i mod ?k) + 1\<rparr>"
  have ih: "choose_peers n ?s
      = Inr (map (\<lambda>j. sc_upstream s ! ((Suc (i mod ?k) + j) mod ?k)) [0..<n])"
    using Suc.IH [of ?s "Suc (i mod ?k)"] Suc.prems by simp
  have "(Suc (i mod ?k) + j) mod ?k = (i + Suc j) mod ?k" for j
    by (simp only: add_Suc_shift mod_add_left_eq)
  with ih have "choose_peers n ?s = Inr (map (\<lambda>j. sc_upstream s ! ((i + Suc j) mod ?k)) [0..<n])"
    by simp
  then show ?case
    unfolding map_upt_Suc choose_peers.simps choose_peer_step [OF Suc.prems] by simp
qed

theorem choose_peer_round_robin_witness:
  "choose_peers 3 \<lparr>sc_pidfile = [], sc_access = \<lparr>ac_port = 1, ac_max = 1, ac_timeout = 1\<rparr>,
     sc_upstream = [\<lparr>uc_ip = ''a'', uc_port = 80, uc_timeout = 5\<rparr>, \<lparr>uc_ip = ''b'', uc_port = 80, uc_timeout = 5\<rparr>],
     sc_upstream_num = 2, sc_upstream_index = 1, sc_working_num_max = 1\<rparr>
   = Inr [\<lparr>uc_ip = ''b'', uc_port = 80, uc_timeout = 5\<rparr>, \<lparr>uc_ip = ''a'', uc_port = 80, uc_timeout = 5\<rparr>,
          \<lparr>uc_ip = ''b'', uc_port = 80, uc_timeout = 5\<rparr>]"
  by (subst choose_peer_round_robin [where i = 1]; code_simp)

text \<open>A configuration without upstream servers stops the proxy with a division by zero as soon
  as the first connection is to be served.\<close>

theorem handle_no_upstream:
  assumes "sc_upstream_num (ln_srvcf w) = 0" and "ln_cq_waiting w \<noteq> []"
    and "ln_working_num w < sc_working_num_max (ln_srvcf w)"
  shows "x_upstream_handle w = Inl Div_by_zero"
  using assms
  by (cases "ln_cq_waiting w")
    (simp_all add: x_upstream_handle.simps [of w] x_upstream_init_def x_upstream_choose_peer_def)

theorem handle_no_upstream_witness:
  "x_upstream_handle ((blank_world (plain_conf []) small_pool)\<lparr>ln_cq_waiting := [0]\<rparr>) = Inl Div_by_zero"
  by (rule handle_no_upstream) (simp_all add: blank_world_def plain_conf_def)

text \<open>\<open>x_upstream_send_cb\<close> stops its write watcher also when the socket is full: part of the
  request is then still in the chain, the upstream connection is as open as before, and its write
  watcher is off.\<close>

theorem upstream_send_stalls:
  assumes "w_conns w c = Some p" and "pool_ok (ln_bp w)" and "pipe_ok (ln_bp w) (c_pipe1 p)"
    and "upstream_bufsend (c_pipe1 p) (ln_bp w) [] (o_send w) = Inr (Send_again, pipe1, bp, sent, ss)"
  shows "\<exists>w' p'. x_upstream_send_cb c w = Inr w' \<and> w_conns w' c = Some p' \<and> \<not> c_upc_e_send p'
    \<and> pipe_bytes (c_pipe1 p') \<noteq> [] \<and> pipe_bytes (c_pipe1 p) = sent @ pipe_bytes (c_pipe1 p')
    \<and> c_upc_status p' = c_upc_status p"
proof -
  have "pipe_bytes (c_pipe1 p) = sent @ pipe_bytes pipe1" "pipe_bytes pipe1 \<noteq> []"
    using upstream_bufsend_post [OF assms(4,2,3)] by (auto simp: bufsend_post_def send_post_def)
  with assms show ?thesis
    by (simp add: x_upstream_send_cb_def get_conn_def upd_conn_def Let_def del: bindR_Inr_iff)
qed

theorem upstream_send_stalls_witness:
  "\<exists>buf w' p'. x_upstream_send_cb 0 ((blank_world (plain_conf []) small_pool)
      \<lparr>w_conns := [0 \<mapsto> zero_conn\<lparr>c_pipe1 := [buf], c_upc_status := CONN_WORKING, c_upc_e_send := True\<rparr>],
        o_send := [SendOk 1, SendErr EAGAIN, SendErr EAGAIN]\<rparr>) = Inr w'
    \<and> w_conns w' 0 = Some p' \<and> \<not> c_upc_e_send p' \<and> pipe_bytes (c_pipe1 p') \<noteq> []"
proof -
  define buf where "buf = (reset_buf small_pool (malloc_buf small_pool))\<lparr>b_last := 66\<rparr>"
  let ?p = "zero_conn\<lparr>c_pipe1 := [buf], c_upc_status := CONN_WORKING, c_upc_e_send := True\<rparr>"
  let ?w = "(blank_world (plain_conf []) small_pool)\<lparr>w_conns := [0 \<mapsto> ?p],
      o_send := [SendOk 1, SendErr EAGAIN, SendErr EAGAIN]\<rparr>"
  have ok: "pipe_ok (ln_bp ?w) (c_pipe1 ?p)"
    by (simp add: pipe_ok_def buf_ok_def block_ok_def buf_def reset_buf_def malloc_buf_def
        small_pool_def sizeof_xtp_buf_def blank_world_def)
  have run: "\<exists>pipe1 bp sent ss. upstream_bufsend (c_pipe1 ?p) (ln_bp ?w) [] (o_send ?w)
      = Inr (Send_again, pipe1, bp, sent, ss)"
    by (simp add: eval_pipe buf_def blank_world_def)
  then obtain pipe1 bp sent ss where run: "upstream_bufsend (c_pipe1 ?p) (ln_bp ?w) [] (o_send ?w)
      = Inr (Send_again, pipe1, bp, sent, ss)" by blast
  have conn: "w_conns ?w 0 = Some ?p" by simp
  have "pool_ok (ln_bp ?w)" using small_pool_ok by (simp add: blank_world_def)
  from upstream_send_stalls [OF conn this ok run] show ?thesis by blast
qed

end
