(* ===== verification/Access.thy ===== *)
theory Access
  imports Upstream
begin

section \<open>The client side of a connection (src/xtp\_access.c)\<close>

text \<open>
  Accepting clients, the callbacks of a client's socket, closing a connection and freeing it
  when its timer fires, and the thread function that sets the listener up.
\<close>

subsection \<open>Closing\<close>

text \<open>
  The message logged first reads \<open>upcf->ip\<close> when there has been an upstream connection.  The
  parameter \<open>flag\<close> of \<open>x_event_close\<close> is not used by the code.
\<close>

definition x_event_close :: "nat \<Rightarrow> world \<Rightarrow> fault + world" where
  "x_event_close c w =
     bindR (get_conn c w) (\<lambda>p.
       if c_status p = CONN_CLOSE then Inr w
       else if c_upc_status p \<noteq> CONN_NONE \<and> c_upcf p = None then Inl Null_deref
       else
         bindR (x_upstream_final c w) (\<lambda>w1.
           bindR (get_conn c w1) (\<lambda>p1.
             let w2 = log_sys (Sys_close (c_fd p1))
                        (put_conn c (p1\<lparr>c_e_recv := False, c_e_send := False\<rparr>) w1) in
             bindR (if c_status p1 = CONN_WAITING
                    then bindR (cq_remove c w2) (\<lambda>w'.
                           Inr (w'\<lparr>ln_cq_waiting_num := ln_cq_waiting_num w' - 1\<rparr>))
                    else Inr w2) (\<lambda>w3.
               bindR (upd_conn c (\<lambda>p. p\<lparr>c_e_timer := Timer_again CONN_FREE_TIMEOUT,
                                         c_status := CONN_CLOSE\<rparr>) w3) (\<lambda>w4.
                 Inr (w4\<lparr>ln_c_count := ln_c_count w4 - 1\<rparr>))))))"

subsection \<open>The callbacks of the client's socket\<close>

definition x_recv_cb :: "nat \<Rightarrow> world \<Rightarrow> fault + world" where
  "x_recv_cb c w =
     bindR (get_conn c w) (\<lambda>p.
       bindR (pipe_recv (c_pipe1 p) (ln_bp w) (o_recv w) (o_malloc w)) (\<lambda>(out, pipe1, bp, rs, ms).
         let w1 = put_conn c (p\<lparr>c_pipe1 := pipe1\<rparr>) (w\<lparr>ln_bp := bp, o_recv := rs, o_malloc := ms\<rparr>) in
         if out = Closed then x_event_close c w1
         else
           bindR (if c_status p = CONN_NONE
                  then bindR (cq_insert_tail c w1) (\<lambda>w2.
                         bindR (upd_conn c (\<lambda>p. p\<lparr>c_status := CONN_WAITING\<rparr>)
                                  (w2\<lparr>ln_cq_waiting_num := ln_cq_waiting_num w2 + 1\<rparr>)) (\<lambda>w3.
                           bindR (x_upstream_handle w3) (\<lambda>(rc, w4). Inr w4)))
                  else Inr w1) (\<lambda>w5.
             bindR (get_conn c w5) (\<lambda>p5.
               if c_upc_status p5 = CONN_WORKING then x_upstream_send_to_peer c w5 else Inr w5))))"

text \<open>The end of \<open>x_send_cb\<close>, when the chain has nothing left to send.\<close>

definition send_finished :: "nat \<Rightarrow> world \<Rightarrow> fault + world" where
  "send_finished c w =
     bindR (get_conn c w) (\<lambda>p.
       if c_upc_status p = CONN_CLOSE then x_event_close c w
       else Inr (put_conn c (p\<lparr>c_e_send := False\<rparr>) w))"

definition x_send_cb :: "nat \<Rightarrow> world \<Rightarrow> fault + world" where
  "x_send_cb c w =
     bindR (get_conn c w) (\<lambda>p.
       bindR (access_bufsend (c_pipe2 p) (ln_bp w) [] (o_send w)) (\<lambda>(out, pipe2, bp, sent, ss).
         let w1 = log_sys (Sys_send (c_fd p) sent)
                    (put_conn c (p\<lparr>c_pipe2 := pipe2\<rparr>) (w\<lparr>ln_bp := bp, o_send := ss\<rparr>)) in
         case out of
           Send_error \<Rightarrow> x_event_close c w1
         | Send_again \<Rightarrow> Inr w1
         | Send_empty \<Rightarrow> send_finished c w1
         | Send_done \<Rightarrow> send_finished c w1))"

subsection \<open>Freeing\<close>

fun drain :: "xtp_buf_pool \<Rightarrow> xtp_buf list \<Rightarrow> xtp_buf_pool" where
  "drain bp [] = bp"
| "drain bp (buf # pipe) = drain (buf_free bp buf) pipe"

lemma drain_foldl: "drain bp pipe = foldl buf_free bp pipe"
  by (induction bp pipe rule: drain.induct) simp_all

definition x_timeout_cb :: "nat \<Rightarrow> world \<Rightarrow> fault + world" where
  "x_timeout_cb c w =
     bindR (get_conn c w) (\<lambda>p.
       let w1 = (if c_status p \<noteq> CONN_CLOSE
                 then put_conn c (p\<lparr>c_status := CONN_TIMEOUT\<rparr>) w else w) in
       bindR (x_event_close c w1) (\<lambda>w2.
         bindR (get_conn c w2) (\<lambda>p2.
           let w3 = put_conn c (p2\<lparr>c_e_timer := Timer_off, c_pipe1 := [], c_pipe2 := []\<rparr>)
                      (w2\<lparr>ln_bp := drain (drain (ln_bp w2) (c_pipe1 p2)) (c_pipe2 p2)\<rparr>) in
           zfree_conn c w3)))"

subsection \<open>Accepting\<close>

fun accept_loop :: "accept_item list \<Rightarrow> fault + (int \<times> ipv4 \<times> accept_item list)" where
  "accept_loop [] = Inl Script_end"
| "accept_loop (AcceptOk fd addr # as) = Inr (fd, addr, as)"
| "accept_loop (AcceptErr e addr # as) = (if e = EAGAIN then accept_loop as else Inr (-1, addr, as))"

fun sprintf_ip :: "ipv4 \<Rightarrow> string" where
  "sprintf_ip (a, b, c, d) =
     dec (unat a) @ ''.'' @ dec (unat b) @ ''.'' @ dec (unat c) @ ''.'' @ dec (unat d)"

text \<open>
  \<open>zmalloc\<close> aborts the program when there is no memory.  An address is used once only: the
  model gives the new connection the address \<open>w_next\<close>.
\<close>

definition new_conn :: "int \<Rightarrow> ipv4 \<Rightarrow> int \<Rightarrow> xtp_conn" where
  "new_conn newfd addr timeout = zero_conn\<lparr>c_ip := sprintf_ip addr, c_fd := newfd,
     c_status := CONN_NONE, c_upc_status := CONN_NONE, c_pipe1 := [], c_pipe2 := [],
     c_e_recv := True, c_e_timer := Timer_start (of_int timeout) (of_int timeout)\<rparr>"

definition x_accept_cb :: "world \<Rightarrow> fault + world" where
  "x_accept_cb w =
     bindR (accept_loop (o_accept w)) (\<lambda>(newfd, addr, as).
       let w1 = log_sys (Sys_accept newfd) (w\<lparr>o_accept := as\<rparr>) in
       if ac_max (sc_access (ln_srvcf w1)) \<le> ln_c_count w1 then
         Inr (log_sys (Sys_close newfd) w1)
       else
         bindR (pop (o_zmalloc w1)) (\<lambda>(ok, zs).
           if \<not> ok then Inl Aborted
           else
             bindR (x_setNonBlock (o_fcntl w1)) (\<lambda>(r, opts, fc).
               bindR (ev_io_ok newfd) (\<lambda>_.
                 bindR (ev_timer_ok (ln_timeout w1)) (\<lambda>_.
                   let c = w_next w1;
                       w2 = w1\<lparr>o_zmalloc := zs, o_fcntl := fc, w_next := c + 1\<rparr>;
                       w3 = put_conn c (new_conn newfd addr (ln_timeout w2)) w2
                   in Inr (w3\<lparr>ln_c_count := ln_c_count w3 + 1\<rparr>))))))"

subsection \<open>The thread function\<close>

text \<open>
  \<open>x_access_in\<close> up to the start of the event loop.  \<open>sock\<close>, \<open>fc\<close>, \<open>bnd\<close> and \<open>lst\<close> are what
  \<open>x_socket_bind\<close> asks the system, \<open>zs\<close> and \<open>ms\<close> the answers of \<open>zmalloc\<close> (the listener and
  the pool) and of the pool's \<open>malloc\<close>.
\<close>

definition x_access_listen ::
  "xtp_srvconf \<Rightarrow> int \<Rightarrow> u32 list \<Rightarrow> int \<Rightarrow> int \<Rightarrow> bool list \<Rightarrow> bool list \<Rightarrow> fault + world" where
  "x_access_listen srvconf sock fc bnd lst zs ms =
     bindR (pop zs) (\<lambda>(ok1, zs1).
       if \<not> ok1 then Inl Aborted
       else
         bindR (x_socket_bind (ac_port (sc_access srvconf)) sock fc bnd lst) (\<lambda>(fd, _).
           bindR (pop zs1) (\<lambda>(ok2, zs2).
             if \<not> ok2 then Inl Aborted
             else
               bindR (x_buf_init 1 (int NODE_BUFSIZ) ms) (\<lambda>(bp, ms').
                 bindR (ev_io_ok fd) (\<lambda>_.
                   Inr \<lparr>ln_srvcf = srvconf, ln_bp = bp, ln_port = ac_port (sc_access srvconf),
                        ln_fd = fd, ln_c_count = 0, ln_cq_waiting = [], ln_cq_waiting_num = 0,
                        ln_working_num = 0, ln_e_listen = True,
                        ln_timeout = ac_timeout (sc_access srvconf),
                        w_conns = (\<lambda>_. None), w_next = 0, o_accept = [], o_zmalloc = zs2,
                        o_fcntl = [], o_socket = [], o_connect = [], o_sockopt = [], o_recv = [],
                        o_send = [], o_malloc = ms', w_trace = []\<rparr>)))))"

text \<open>
  The whole of \<open>x_access_in\<close>: \<open>arg\<close> is its argument (NULL or the server's configuration) and
  \<open>ev_loop\<close> libev's loop.  The result is the blocks that the final \<open>x_buf_uninit\<close> frees.
\<close>

definition x_access_in ::
  "(world \<Rightarrow> fault + world) \<Rightarrow> xtp_srvconf option \<Rightarrow> int \<Rightarrow> u32 list \<Rightarrow> int \<Rightarrow> int
    \<Rightarrow> bool list \<Rightarrow> bool list \<Rightarrow> fault + xtp_buf list" where
  "x_access_in ev_loop arg sock fc bnd lst zs ms =
     (case arg of
        None \<Rightarrow> Inr []
      | Some srvconf \<Rightarrow>
          bindR (x_access_listen srvconf sock fc bnd lst zs ms) (\<lambda>w.
            bindR (ev_loop w) (\<lambda>w'. Inr (fst (x_buf_uninit (ln_bp w'))))))"

subsection \<open>Properties\<close>

lemma length_sprintf_ip: "length (sprintf_ip addr) \<le> 15"
proof (cases addr)
  case (fields a b c d)
  have "length (dec (unat x)) \<le> 3" for x :: byte
    using length_dec_byte [of "unat x"] unsigned_less [of x, where 'a = nat] by simp
  from this [of a] this [of b] this [of c] this [of d] fields show ?thesis by simp
qed

lemma x_event_close_closes:
  "x_event_close c w = Inr w' \<Longrightarrow> \<exists>p'. w_conns w' c = Some p' \<and> c_status p' = CONN_CLOSE"
  by (auto simp: x_event_close_def Let_def split: if_split_asm)

text \<open>Accepting: with the limit reached the new socket is closed again and nothing else changes;
  below it one connection is added, in phase \<open>CONN_NONE\<close> and with empty chains, being read and
  timed, and its textual address fits into the 16 bytes of \<open>ip\<close>.\<close>

theorem x_accept_cb_contract:
  assumes "x_accept_cb w = Inr w'" and "accept_loop (o_accept w) = Inr (fd, addr, as)"
  shows "if ac_max (sc_access (ln_srvcf w)) \<le> ln_c_count w
    then w_conns w' = w_conns w \<and> ln_c_count w' = ln_c_count w
      \<and> w_trace w' = w_trace w @ [Sys_accept fd, Sys_close fd]
    else ln_c_count w' = ln_c_count w + 1 \<and> w_trace w' = w_trace w @ [Sys_accept fd]
      \<and> (\<exists>p. w_conns w' = (w_conns w)(w_next w \<mapsto> p) \<and> c_fd p = fd \<and> c_status p = CONN_NONE
           \<and> c_upc_status p = CONN_NONE \<and> c_pipe1 p = [] \<and> c_pipe2 p = [] \<and> c_e_recv p
           \<and> timer_active (c_e_timer p) \<and> c_ip p = sprintf_ip addr \<and> length (c_ip p) < 16)"
  using assms length_sprintf_ip [of addr]
  by (auto simp: x_accept_cb_def Let_def new_conn_def split: if_split_asm)

theorem x_accept_cb_contract_witness:
  "\<exists>w' p. x_accept_cb ((blank_world (plain_conf []) small_pool)
      \<lparr>o_accept := [AcceptErr EAGAIN (0, 0, 0, 0), AcceptOk 4 (192, 168, 100, 255)],
       o_zmalloc := [True], o_fcntl := [2, 0]\<rparr>) = Inr w'
    \<and> w_conns w' 0 = Some p \<and> c_ip p = ''192.168.100.255'' \<and> length (c_ip p) < 16"
proof -
  let ?w = "(blank_world (plain_conf []) small_pool)
      \<lparr>o_accept := [AcceptErr EAGAIN (0, 0, 0, 0), AcceptOk 4 (192, 168, 100, 255)],
       o_zmalloc := [True], o_fcntl := [2, 0]\<rparr>"
  have acc: "accept_loop (o_accept ?w) = Inr (4, (192, 168, 100, 255), [])" by simp
  obtain w' where run: "x_accept_cb ?w = Inr w'"
    by (simp add: x_accept_cb_def x_setNonBlock_def Let_def blank_world_def plain_conf_def)
  have "sprintf_ip (192, 168, 100, 255) = ''192.168.100.255''" by code_simp
  with x_accept_cb_contract [OF run acc] run show ?thesis
    by (auto simp: blank_world_def plain_conf_def)
qed

text \<open>When \<open>accept\<close> fails with anything but \<open>EAGAIN\<close> and the limit is not reached, the callback
  goes on as if it had succeeded: it allocates a connection and starts a watcher on the
  descriptor -1, which libev does not accept.  When the limit is reached it closes -1.\<close>

theorem accept_error_bad_watcher:
  assumes "o_accept w = AcceptErr e addr # as" and "e \<noteq> EAGAIN"
    and "o_zmalloc w = True # zs" and "2 \<le> length (o_fcntl w)"
  shows "x_accept_cb w = (if ln_c_count w < ac_max (sc_access (ln_srvcf w)) then Inl Bad_watcher
    else Inr (log_sys (Sys_close (-1)) (log_sys (Sys_accept (-1)) (w\<lparr>o_accept := as\<rparr>))))"
proof -
  obtain f1 f2 fc where "o_fcntl w = f1 # f2 # fc"
    using assms(4) by (auto simp: numeral_2_eq_2 Suc_le_length_iff)
  then show ?thesis
    using assms(1-3) by (simp add: x_accept_cb_def x_setNonBlock_def Let_def)
qed

theorem accept_error_bad_watcher_witness:
  "x_accept_cb ((blank_world (plain_conf []) small_pool)
      \<lparr>o_accept := [AcceptErr EOTHER (0, 0, 0, 0)], o_zmalloc := [True], o_fcntl := [-1, -1]\<rparr>)
    = Inl Bad_watcher"
  using accept_error_bad_watcher [of "(blank_world (plain_conf []) small_pool)
      \<lparr>o_accept := [AcceptErr EOTHER (0, 0, 0, 0)], o_zmalloc := [True], o_fcntl := [-1, -1]\<rparr>"
      EOTHER "(0, 0, 0, 0)" "[]" "[]"]
  by (simp add: blank_world_def plain_conf_def)

text \<open>C26: A client whose upstream side is closed is closed as soon as, and not before, every byte of
  its response has been handed to its socket: unless \<open>send\<close> fails, one run of the send callback
  closes it exactly if the chain is then empty.\<close>

theorem send_flushes_before_close:
  assumes "x_send_cb c w = Inr w'" and "w_conns w c = Some p"
    and "pool_ok (ln_bp w)" and "pipe_ok (ln_bp w) (c_pipe2 p)"
    and "c_upc_status p = CONN_CLOSE" and "c_status p \<noteq> CONN_CLOSE"
    and "access_bufsend (c_pipe2 p) (ln_bp w) [] (o_send w) = Inr (out, pipe2, bp, sent, ss)"
    and "out \<noteq> Send_error"
  shows "pipe_bytes (c_pipe2 p) = sent @ pipe_bytes pipe2
    \<and> (\<exists>p'. w_conns w' c = Some p' \<and> (c_status p' = CONN_CLOSE \<longleftrightarrow> pipe_bytes pipe2 = []))"
proof -
  have post: "bufsend_post (ln_bp w) (c_pipe2 p) [] (out, pipe2, bp, sent, ss)"
    by (rule access_bufsend_post [OF assms(7,3,4)])
  then have bytes: "pipe_bytes (c_pipe2 p) = sent @ pipe_bytes pipe2"
    and again: "out = Send_again \<Longrightarrow> pipe_bytes pipe2 \<noteq> []"
    and none: "out = Send_done \<or> out = Send_empty \<Longrightarrow> pipe_bytes pipe2 = []"
    using assms(8) by (auto simp: bufsend_post_def send_post_def)
  let ?w1 = "log_sys (Sys_send (c_fd p) sent)
      (put_conn c (p\<lparr>c_pipe2 := pipe2\<rparr>) (w\<lparr>ln_bp := bp, o_send := ss\<rparr>))"
  show ?thesis
  proof (cases "out = Send_again")
    case True
    then have "w' = ?w1" using assms(1,2,7) by (simp add: x_send_cb_def get_conn_def Let_def)
    with bytes again [OF True] assms(6) show ?thesis by simp
  next
    case False
    then have fin: "out = Send_done \<or> out = Send_empty" using assms(8) by (cases out) simp_all
    then have "send_finished c ?w1 = Inr w'"
      using assms(1,2,7) by (auto simp: x_send_cb_def Let_def)
    then have "x_event_close c ?w1 = Inr w'" using assms(5) by (simp add: send_finished_def)
    from x_event_close_closes [OF this] bytes none [OF fin] show ?thesis by simp
  qed
qed

theorem send_flushes_before_close_witness:
  "\<exists>w' p'. x_send_cb 0 ((blank_world (plain_conf []) small_pool)
      \<lparr>w_conns := [0 \<mapsto> zero_conn\<lparr>c_status := CONN_WORKING, c_upc_status := CONN_CLOSE,
         c_upcf := Some \<lparr>uc_ip = ''a'', uc_port = 80, uc_timeout = 5\<rparr>, c_e_send := True\<rparr>]\<rparr>) = Inr w'
    \<and> w_conns w' 0 = Some p' \<and> c_status p' = CONN_CLOSE"
proof -
  let ?p = "zero_conn\<lparr>c_status := CONN_WORKING, c_upc_status := CONN_CLOSE,
         c_upcf := Some \<lparr>uc_ip = ''a'', uc_port = 80, uc_timeout = 5\<rparr>, c_e_send := True\<rparr>"
  let ?w = "(blank_world (plain_conf []) small_pool)\<lparr>w_conns := [0 \<mapsto> ?p]\<rparr>"
  obtain w' where run: "x_send_cb 0 ?w = Inr w'"
    by (simp add: x_send_cb_def send_finished_def x_event_close_def x_upstream_final.simps
        get_conn_def upd_conn_def zero_conn_def Let_def)
  from send_flushes_before_close [OF run, of ?p] small_pool_ok run show ?thesis
    by (simp add: blank_world_def zero_conn_def)
qed

end
