(* ===== verification/Invariant.thy ===== *)
theory Invariant
  imports Access
begin

section \<open>The invariant of a proxy thread\<close>

text \<open>
  What holds of the listener, the waiting queue and all connections between two callbacks, in
  four parts: \<open>heap_ok\<close> (each connection is well formed by itself), \<open>queue_ok\<close> (the
  waiting queue holds exactly the connections in phase \<open>CONN_WAITING\<close>), \<open>count_ok\<close> (what
  the two hand-kept counters count) and \<open>waiting_idle\<close> (a waiting connection has no open
  upstream socket).  The last one is broken for one connection while its failed connect is
  being finalised, which is why it is a separate part.
\<close>

subsection \<open>Connections\<close>

definition upc_active :: "xtp_conn \<Rightarrow> bool" where
  "upc_active p \<longleftrightarrow> c_upc_status p \<noteq> CONN_NONE \<and> c_upc_status p \<noteq> CONN_CLOSE"

definition conn_open :: "xtp_conn \<Rightarrow> bool" where
  "conn_open p \<longleftrightarrow> c_status p \<noteq> CONN_CLOSE"

definition client_ok :: "int \<Rightarrow> xtp_conn \<Rightarrow> bool" where
  "client_ok timeout p \<longleftrightarrow>
     (if conn_open p
      then c_e_recv p \<and> c_e_timer p = Timer_start (of_int timeout) (of_int timeout)
        \<and> (c_upc_status p = CONN_CLOSE \<longrightarrow> c_e_send p)
      else \<not> c_e_recv p \<and> \<not> c_e_send p \<and> c_e_timer p = Timer_again CONN_FREE_TIMEOUT)"

definition upstream_ok :: "xtp_conn \<Rightarrow> bool" where
  "upstream_ok p \<longleftrightarrow>
     (if upc_active p
      then conn_open p \<and> c_upc_e_recv p \<and> (c_upc_status p = CONN_CONNECT \<longrightarrow> c_upc_e_connected p)
      else upc_idle p)
     \<and> (c_upc_status p \<noteq> CONN_NONE \<longrightarrow> c_upcf p \<noteq> None)"

definition phase_ok :: "xtp_conn \<Rightarrow> bool" where
  "phase_ok p \<longleftrightarrow> (c_status p = CONN_NONE \<longrightarrow> c_upc_status p = CONN_NONE)
     \<and> (c_status p = CONN_WORKING \<longrightarrow> c_upc_status p \<noteq> CONN_NONE)
     \<and> c_status p \<noteq> CONN_CONNECT \<and> c_status p \<noteq> CONN_ERROR"

definition conn_ok :: "xtp_buf_pool \<Rightarrow> int \<Rightarrow> xtp_conn \<Rightarrow> bool" where
  "conn_ok bp timeout p \<longleftrightarrow> client_ok timeout p \<and> upstream_ok p \<and> phase_ok p
     \<and> pipe_ok bp (c_pipe1 p) \<and> pipe_ok bp (c_pipe2 p)"

subsection \<open>The four parts\<close>

definition srv_ok :: "xtp_srvconf \<Rightarrow> bool" where
  "srv_ok s \<longleftrightarrow> 0 < sc_upstream_num s \<and> sc_upstream_num s = int (length (sc_upstream s))
     \<and> 0 \<le> sc_upstream_index s"

definition heap_ok :: "world \<Rightarrow> bool" where
  "heap_ok w \<longleftrightarrow> finite (dom (w_conns w)) \<and> (\<forall>c\<ge>w_next w. w_conns w c = None)
     \<and> pool_ok (ln_bp w) \<and> srv_ok (ln_srvcf w)
     \<and> (\<forall>c p. w_conns w c = Some p \<longrightarrow> conn_ok (ln_bp w) (ln_timeout w) p)"

definition is_waiting :: "world \<Rightarrow> nat \<Rightarrow> bool" where
  "is_waiting w c =
     (case w_conns w c of None \<Rightarrow> False | Some p \<Rightarrow> c_status p = CONN_WAITING)"

lemma is_waiting_iff:
  "is_waiting w c \<longleftrightarrow> (\<exists>p. w_conns w c = Some p \<and> c_status p = CONN_WAITING)"
  by (simp add: is_waiting_def split: option.split)

definition queue_ok :: "world \<Rightarrow> bool" where
  "queue_ok w \<longleftrightarrow> distinct (ln_cq_waiting w) \<and> (\<forall>c. c \<in> set (ln_cq_waiting w) \<longleftrightarrow> is_waiting w c)
     \<and> ln_cq_waiting_num w = int (length (ln_cq_waiting w))"

text \<open>
  \<open>connect_failures\<close> counts the calls of \<open>connect\<close> that failed at once.  Each leaves
  \<open>working_num\<close> one below the number of open upstream sockets.
\<close>

fun connect_failed :: "sys \<Rightarrow> bool" where
  "connect_failed (Sys_connect fd peer rc) \<longleftrightarrow> rc \<noteq> None \<and> rc \<noteq> Some EINPROGRESS"
| "connect_failed _ \<longleftrightarrow> False"

definition connect_failures :: "world \<Rightarrow> int" where
  "connect_failures w = int (length (filter connect_failed (w_trace w)))"

definition count_ok :: "world \<Rightarrow> bool" where
  "count_ok w \<longleftrightarrow> ln_c_count w = int (cnt conn_open (w_conns w))
     \<and> int (cnt upc_active (w_conns w)) = ln_working_num w + connect_failures w
     \<and> ln_working_num w \<le> max 0 (sc_working_num_max (ln_srvcf w))
     \<and> ln_c_count w \<le> max 0 (ac_max (sc_access (ln_srvcf w)))"

definition waiting_idle :: "nat set \<Rightarrow> world \<Rightarrow> bool" where
  "waiting_idle X w \<longleftrightarrow>
     (\<forall>c p. c \<notin> X \<longrightarrow> w_conns w c = Some p \<longrightarrow> c_status p = CONN_WAITING \<longrightarrow> \<not> upc_active p)"

definition inv_ex :: "nat set \<Rightarrow> world \<Rightarrow> bool" where
  "inv_ex X w \<longleftrightarrow> heap_ok w \<and> queue_ok w \<and> count_ok w \<and> waiting_idle X w"

definition proxy_inv :: "world \<Rightarrow> bool" where
  "proxy_inv w \<longleftrightarrow> inv_ex {} w"

lemma inv_ex_mono: "inv_ex X w \<Longrightarrow> X \<subseteq> Y \<Longrightarrow> inv_ex Y w"
  by (auto simp: inv_ex_def waiting_idle_def)

subsection \<open>Changing one connection\<close>

text \<open>
  \<open>w'\<close> differs from \<open>w\<close> in the connection \<open>c\<close>, and possibly in the queue, the counters, the
  pool's contents and the answers.
\<close>

definition shape_ok :: "world \<Rightarrow> world \<Rightarrow> bool" where
  "shape_ok w w' \<longleftrightarrow> same_shape (ln_bp w) (ln_bp w') \<and> pool_ok (ln_bp w')
     \<and> ln_timeout w' = ln_timeout w \<and> srv_ok (ln_srvcf w')
     \<and> sc_working_num_max (ln_srvcf w') = sc_working_num_max (ln_srvcf w)
     \<and> sc_access (ln_srvcf w') = sc_access (ln_srvcf w) \<and> w_next w' = w_next w"

lemma conn_ok_shape: "same_shape bp bp' \<Longrightarrow> conn_ok bp' t p = conn_ok bp t p"
  by (simp add: conn_ok_def pipe_ok_shape)

lemma heap_ok_upd:
  assumes "heap_ok w" and "w_conns w c = Some p" and "w_conns w' = (w_conns w)(c \<mapsto> p')"
    and "shape_ok w w'" and "conn_ok (ln_bp w) (ln_timeout w) p'"
  shows "heap_ok w'"
  unfolding heap_ok_def
proof (intro conjI allI impI)
  show "finite (dom (w_conns w'))" using assms(1,3) by (simp add: heap_ok_def)
  show "w_conns w' d = None" if "w_next w' \<le> d" for d
    using that assms(1-4) by (auto simp: heap_ok_def shape_ok_def)
  show "pool_ok (ln_bp w')" "srv_ok (ln_srvcf w')" using assms(4) by (simp_all add: shape_ok_def)
  show "conn_ok (ln_bp w') (ln_timeout w') q" if "w_conns w' d = Some q" for d q
    using that assms(1,3,4,5) conn_ok_shape [of "ln_bp w" "ln_bp w'" "ln_timeout w"]
    by (auto simp: heap_ok_def shape_ok_def split: if_splits)
qed

lemma queue_ok_upd:
  assumes "queue_ok w" and "w_conns w c = Some p" and "w_conns w' = (w_conns w)(c \<mapsto> p')"
    and "c_status p' = CONN_WAITING \<longleftrightarrow> c_status p = CONN_WAITING"
    and "ln_cq_waiting w' = ln_cq_waiting w" and "ln_cq_waiting_num w' = ln_cq_waiting_num w"
  shows "queue_ok w'"
  using assms by (auto simp: queue_ok_def is_waiting_iff)

lemma count_ok_upd:
  assumes "count_ok w" and "finite (dom (w_conns w))"
    and "w_conns w c = Some p" and "w_conns w' = (w_conns w)(c \<mapsto> p')"
    and "ln_c_count w' = ln_c_count w - of_bool (conn_open p) + of_bool (conn_open p')"
    and "ln_working_num w' + connect_failures w' = ln_working_num w + connect_failures w
      - of_bool (upc_active p) + of_bool (upc_active p')"
    and "ln_working_num w' \<le> max 0 (sc_working_num_max (ln_srvcf w'))"
    and "ln_c_count w' \<le> max 0 (ac_max (sc_access (ln_srvcf w')))"
  shows "count_ok w'"
  using assms(1,4-) cnt_update [OF assms(2,3), of conn_open p']
    cnt_update [OF assms(2,3), of upc_active p']
  by (simp add: count_ok_def)

lemma waiting_idle_upd:
  assumes "waiting_idle X w" and "w_conns w' = (w_conns w)(c \<mapsto> p')"
    and "c \<in> Y \<or> (c_status p' = CONN_WAITING \<longrightarrow> \<not> upc_active p')" and "X \<subseteq> insert c Y"
  shows "waiting_idle Y w'"
  using assms by (auto simp: waiting_idle_def)

text \<open>The same connection in another phase, with queue, counters and answers as they were.\<close>

lemma inv_ex_upd:
  assumes "inv_ex X w" and "w_conns w c = Some p" and "w_conns w' = (w_conns w)(c \<mapsto> p')"
    and "shape_ok w w'" and "conn_ok (ln_bp w) (ln_timeout w) p'"
    and "c_status p' = CONN_WAITING \<longleftrightarrow> c_status p = CONN_WAITING"
    and "ln_cq_waiting w' = ln_cq_waiting w" and "ln_cq_waiting_num w' = ln_cq_waiting_num w"
    and "ln_c_count w' = ln_c_count w - of_bool (conn_open p) + of_bool (conn_open p')"
    and "ln_working_num w' + connect_failures w' = ln_working_num w + connect_failures w
      - of_bool (upc_active p) + of_bool (upc_active p')"
    and "ln_working_num w' \<le> max 0 (sc_working_num_max (ln_srvcf w'))"
    and "c \<in> Y \<or> (c_status p' = CONN_WAITING \<longrightarrow> \<not> upc_active p')" and "X \<subseteq> insert c Y"
    and "conn_open p' \<longrightarrow> conn_open p"
  shows "inv_ex Y w'"
proof -
  have "ln_c_count w' \<le> ln_c_count w" using assms(9,14) by (cases "conn_open p") auto
  moreover have "sc_access (ln_srvcf w') = sc_access (ln_srvcf w)"
    using assms(4) by (simp add: shape_ok_def)
  ultimately have "ln_c_count w' \<le> max 0 (ac_max (sc_access (ln_srvcf w')))"
    using assms(1) by (simp add: inv_ex_def count_ok_def)
  then show ?thesis
    using assms heap_ok_upd [of w c p w' p'] queue_ok_upd [of w c p w' p']
      count_ok_upd [of w c p w' p'] waiting_idle_upd [of X w w' c p' Y]
    unfolding inv_ex_def by (simp add: heap_ok_def)
qed

lemma inv_conn_ok:
  "inv_ex X w \<Longrightarrow> w_conns w c = Some p \<Longrightarrow> conn_ok (ln_bp w) (ln_timeout w) p"
  by (simp add: inv_ex_def heap_ok_def)

lemma inv_pool_ok: "inv_ex X w \<Longrightarrow> pool_ok (ln_bp w)"
  by (simp add: inv_ex_def heap_ok_def)

lemma inv_srv_ok: "inv_ex X w \<Longrightarrow> srv_ok (ln_srvcf w)"
  by (simp add: inv_ex_def heap_ok_def)

end
