(* ===== verification/Admission.thy ===== *)
theory Admission
  imports Invariant
begin

section \<open>Admission keeps the invariant\<close>

text \<open>
  What \<open>x_upstream_handle\<close> and \<open>x_upstream_final\<close> do to the state: they keep the
  invariant, take at most the head of the waiting queue from it, and change no other
  connection than the one finalised and waiting ones.  The proofs are by induction on the
  number of sockets the system still gives out.
\<close>

subsection \<open>What admission leaves alone\<close>

definition same_client :: "xtp_conn \<Rightarrow> xtp_conn \<Rightarrow> bool" where
  "same_client p p' \<longleftrightarrow> c_ip p' = c_ip p \<and> c_fd p' = c_fd p \<and> c_pipe1 p' = c_pipe1 p
     \<and> c_pipe2 p' = c_pipe2 p \<and> c_e_recv p' = c_e_recv p \<and> c_e_timer p' = c_e_timer p"

definition conn_adm :: "xtp_conn \<Rightarrow> xtp_conn \<Rightarrow> bool" where
  "conn_adm p p' \<longleftrightarrow> p' = p \<or> c_status p = CONN_WAITING \<and> same_client p p'
     \<and> (c_status p' = CONN_WAITING \<or> c_status p' = CONN_WORKING)"

definition frame :: "world \<Rightarrow> world \<Rightarrow> bool" where
  "frame w w' \<longleftrightarrow> (\<forall>d. rel_option conn_adm (w_conns w d) (w_conns w' d))
     \<and> ln_bp w' = ln_bp w \<and> ln_c_count w' = ln_c_count w \<and> ln_timeout w' = ln_timeout w
     \<and> sc_working_num_max (ln_srvcf w') = sc_working_num_max (ln_srvcf w)
     \<and> sc_access (ln_srvcf w') = sc_access (ln_srvcf w) \<and> w_next w' = w_next w
     \<and> ln_e_listen w' = ln_e_listen w"

lemma conn_adm_refl [simp]: "conn_adm p p"
  by (simp add: conn_adm_def)

lemma conn_adm_trans: "conn_adm p q \<Longrightarrow> conn_adm q r \<Longrightarrow> conn_adm p r"
  by (auto simp: conn_adm_def same_client_def)

lemma rel_option_conn_adm_refl [simp]: "rel_option conn_adm x x"
  by (cases x) simp_all

lemma frame_refl [simp]: "frame w w"
  by (simp add: frame_def)

lemma frame_trans:
  assumes "frame w w'" and "frame w' w''"
  shows "frame w w''"
proof -
  have "rel_option conn_adm (w_conns w d) (w_conns w'' d)" for d
  proof -
    have "rel_option conn_adm (w_conns w d) (w_conns w' d)"
      and "rel_option conn_adm (w_conns w' d) (w_conns w'' d)"
      using assms by (simp_all add: frame_def)
    then show ?thesis
      by (cases "w_conns w d"; cases "w_conns w' d"; cases "w_conns w'' d")
        (auto intro: conn_adm_trans)
  qed
  with assms show ?thesis by (simp add: frame_def)
qed

lemma frame_not_waiting:
  assumes "frame w w'" and "w_conns w c = Some p" and "c_status p \<noteq> CONN_WAITING"
  shows "w_conns w' c = Some p"
proof -
  have "rel_option conn_adm (Some p) (w_conns w' c)" using assms(1,2) by (metis frame_def)
  then show ?thesis using assms(3) by (cases "w_conns w' c") (auto simp: conn_adm_def)
qed

lemma frame_client:
  assumes "frame w w'" and "w_conns w c = Some p"
  obtains p' where "w_conns w' c = Some p'" and "same_client p p'"
proof -
  have "rel_option conn_adm (Some p) (w_conns w' c)" using assms(1,2) by (metis frame_def)
  then show ?thesis using that by (cases "w_conns w' c") (auto simp: conn_adm_def same_client_def)
qed

lemma frame_new: "frame w w' \<Longrightarrow> w_conns w c = None \<Longrightarrow> w_conns w' c = None"
  unfolding frame_def by (metis option.rel_distinct(1) option.exhaust)

text \<open>The head of the queue is the only one that may be taken.\<close>

definition queue_step :: "nat list \<Rightarrow> world \<Rightarrow> bool" where
  "queue_step q w' \<longleftrightarrow> ln_cq_waiting w' = q
     \<or> (\<exists>c p. q = c # ln_cq_waiting w' \<and> w_conns w' c = Some p \<and> c_status p = CONN_WORKING
          \<and> upc_active p)"

subsection \<open>Choosing a peer and connecting\<close>

lemma choose_peer_ok:
  assumes "srv_ok s"
  obtains peer where "x_upstream_choose_peer (Some s) = Inr (Some peer,
      Some (s\<lparr>sc_upstream_index := sc_upstream_index s mod sc_upstream_num s + 1\<rparr>))"
    and "srv_ok (s\<lparr>sc_upstream_index := sc_upstream_index s mod sc_upstream_num s + 1\<rparr>)"
    and "peer \<in> set (sc_upstream s)"
proof -
  define i where "i = sc_upstream_index s mod sc_upstream_num s"
  have pos: "0 < sc_upstream_num s" "0 \<le> sc_upstream_index s"
    and len: "sc_upstream_num s = int (length (sc_upstream s))"
    using assms unfolding srv_ok_def by blast+
  have smod: "sc_upstream_index s smod sc_upstream_num s = i"
    using pos by (simp add: i_def signed_modulo_int_def sgn_if)
  have i: "0 \<le> i" "i < int (length (sc_upstream s))"
    using pos_mod_sign [OF pos(1)] pos_mod_bound [OF pos(1)] pos len by (auto simp: i_def)
  have "x_upstream_choose_peer (Some s)
      = Inr (Some (sc_upstream s ! nat i), Some (s\<lparr>sc_upstream_index := i + 1\<rparr>))"
    using smod i pos by (simp add: x_upstream_choose_peer_def Let_def)
  moreover have "srv_ok (s\<lparr>sc_upstream_index := i + 1\<rparr>)" using pos len i by (auto simp: srv_ok_def)
  moreover have "sc_upstream s ! nat i \<in> set (sc_upstream s)" using i by (simp add: nat_less_iff)
  ultimately show ?thesis using that by (simp add: i_def)
qed

text \<open>
  \<open>attempted c p w p1 w1 failed\<close>: one attempt to connect the waiting connection \<open>c\<close> has
  changed it from \<open>p\<close> to \<open>p1\<close>; \<open>failed\<close> tells whether \<open>connect\<close> failed at once.
\<close>

definition attempted :: "nat \<Rightarrow> xtp_conn \<Rightarrow> world \<Rightarrow> xtp_conn \<Rightarrow> world \<Rightarrow> bool \<Rightarrow> bool" where
  "attempted c p w p1 w1 failed \<longleftrightarrow> w_conns w1 = (w_conns w)(c \<mapsto> p1) \<and> shape_ok w w1
     \<and> ln_bp w1 = ln_bp w \<and> ln_c_count w1 = ln_c_count w \<and> ln_working_num w1 = ln_working_num w
     \<and> ln_cq_waiting w1 = ln_cq_waiting w \<and> ln_cq_waiting_num w1 = ln_cq_waiting_num w
     \<and> ln_e_listen w1 = ln_e_listen w
     \<and> same_client p p1 \<and> c_status p1 = c_status p \<and> conn_ok (ln_bp w) (ln_timeout w) p1
     \<and> connect_failures w1 = connect_failures w + of_bool failed
     \<and> length (o_socket w1) < length (o_socket w)"

lemma connect_failures_log [simp]:
  "connect_failures (log_sys s w) = connect_failures w + of_bool (connect_failed s)"
  by (simp add: connect_failures_def)

lemma connect_failures_cong: "w_trace w' = w_trace w \<Longrightarrow> connect_failures w' = connect_failures w"
  by (simp add: connect_failures_def)

lemma conn_ok_attempt:
  assumes "conn_ok bp t p" and "c_status p = CONN_WAITING"
  shows "conn_ok bp t (p\<lparr>c_upcf := Some peer\<rparr>)"
    and "conn_ok bp t ((upc_connecting fd p)\<lparr>c_upcf := Some peer\<rparr>)"
    and "upc_active ((upc_connecting fd p)\<lparr>c_upcf := Some peer\<rparr>)"
  using assms
  by (auto simp: conn_ok_def client_ok_def upstream_ok_def phase_ok_def conn_open_def upc_active_def
      upc_idle_def upc_connecting_def)

lemma x_upstream_init_post:
  assumes "inv_ex X w" and "w_conns w c = Some p" and "c_status p = CONN_WAITING"
    and "\<not> upc_active p"
  shows "okR (\<lambda>(rc, w1). \<exists>p1. attempted c p w p1 w1 (rc \<noteq> XNET_OK \<and> upc_active p1)
      \<and> (rc = XNET_OK \<longrightarrow> upc_active p1)) (x_upstream_init c w)"
proof -
  note ok = inv_conn_ok [OF assms(1,2)]
  have idle: "upc_idle p" using ok assms(4) by (simp add: conn_ok_def upstream_ok_def)
  obtain peer where ch: "x_upstream_choose_peer (Some (ln_srvcf w)) = Inr (Some peer,
      Some ((ln_srvcf w)\<lparr>sc_upstream_index :=
        sc_upstream_index (ln_srvcf w) mod sc_upstream_num (ln_srvcf w) + 1\<rparr>))"
    and srv: "srv_ok ((ln_srvcf w)\<lparr>sc_upstream_index :=
        sc_upstream_index (ln_srvcf w) mod sc_upstream_num (ln_srvcf w) + 1\<rparr>)"
    using choose_peer_ok [OF inv_srv_ok [OF assms(1)]] by blast
  note keep = conn_ok_attempt [OF ok assms(3)]
  note pool = inv_pool_ok [OF assms(1)]
  show ?thesis
    unfolding x_upstream_init_def x_upstream_connection_new_def x_setNonBlock_def ch
    using assms(2-4) srv keep pool idle
    by (auto simp: Let_def attempted_def shape_ok_def same_client_def upc_connecting_def
        connect_failures_def upc_active_def split: option.splits)
qed

subsection \<open>The recursion\<close>

definition final_conn :: "xtp_conn \<Rightarrow> xtp_conn" where
  "final_conn p =
     (if upc_active p then (upc_stopped p)\<lparr>c_upc_status := CONN_CLOSE, c_e_send := True\<rparr> else p)"

definition handle_spec :: "world \<Rightarrow> bool" where
  "handle_spec w \<longleftrightarrow> (inv_ex {} w \<longrightarrow>
     okR (\<lambda>(rc, w'). inv_ex {} w' \<and> frame w w' \<and> queue_step (ln_cq_waiting w) w')
       (x_upstream_handle w))"

definition final_spec :: "nat \<Rightarrow> world \<Rightarrow> bool" where
  "final_spec c w \<longleftrightarrow> (\<forall>p. inv_ex {c} w \<longrightarrow> w_conns w c = Some p \<longrightarrow>
     okR (\<lambda>w'. inv_ex {} w' \<and> frame (put_conn c (final_conn p) w) w'
       \<and> queue_step (ln_cq_waiting w) w') (x_upstream_final c w))"

lemma shape_ok_refl: "inv_ex X w \<Longrightarrow> shape_ok w w"
  by (simp add: shape_ok_def inv_pool_ok inv_srv_ok)

lemma final_conn_ok:
  assumes "conn_ok bp t p"
  shows "conn_ok bp t (final_conn p)" and "\<not> upc_active (final_conn p)"
    and "c_status (final_conn p) = c_status p" and "conn_open (final_conn p) = conn_open p"
    and "same_client p (final_conn p)"
  using assms
  by (auto simp: conn_ok_def client_ok_def upstream_ok_def phase_ok_def conn_open_def upc_active_def
      upc_idle_def final_conn_def upc_stopped_def same_client_def)

lemma x_upstream_final_inactive:
  "w_conns w c = Some p \<Longrightarrow> \<not> upc_active p \<Longrightarrow> x_upstream_final c w = Inr w"
  by (auto simp: x_upstream_final.simps [of c w] get_conn_def upc_active_def)

lemma put_conn_log: "put_conn c p (log_sys s w) = log_sys s (put_conn c p w)"
  by (simp add: put_conn_def log_sys_def)

lemma put_conn_twice: "put_conn c q (put_conn c p w) = put_conn c q w"
  by (simp add: put_conn_def)

lemma put_conn_same: "w_conns w c = Some p \<Longrightarrow> put_conn c p w = w"
  by (simp add: put_conn_def fun_upd_idem)

lemma final_spec_step:
  assumes "\<And>v. o_socket v = o_socket w \<Longrightarrow> handle_spec v"
  shows "final_spec c w"
  unfolding final_spec_def
proof (intro allI impI)
  fix p
  assume inv: "inv_ex {c} w" and p: "w_conns w c = Some p"
  note ok = inv_conn_ok [OF inv p]
  show "okR (\<lambda>w'. inv_ex {} w' \<and> frame (put_conn c (final_conn p) w) w'
       \<and> queue_step (ln_cq_waiting w) w') (x_upstream_final c w)"
  proof (cases "upc_active p")
    case False
    then have "inv_ex {} w"
      using inv p unfolding inv_ex_def waiting_idle_def by (metis singletonD option.inject)
    with False p show ?thesis
      by (simp add: x_upstream_final_inactive final_conn_def put_conn_same queue_step_def)
  next
    case True
    then have op: "c_status p \<noteq> CONN_CLOSE" using ok by (simp add: conn_ok_def upstream_ok_def conn_open_def)
    define v where "v = (log_sys (Sys_close (c_upc_fd p)) (put_conn c (final_conn p) w))
      \<lparr>ln_working_num := ln_working_num w - 1\<rparr>"
    have run: "x_upstream_final c w = bindR (x_upstream_handle v) (\<lambda>(rc, w3). Inr w3)"
      using True p op
      by (simp add: x_upstream_final.simps [of c w] get_conn_def upc_active_def v_def final_conn_def
          x_access_send_to_client_def upd_conn_def put_conn_log put_conn_twice)
    have "inv_ex {} v"
      using inv p
    proof (rule inv_ex_upd)
      show "w_conns v = (w_conns w)(c \<mapsto> final_conn p)" by (simp add: v_def)
      show "shape_ok w v" using shape_ok_refl [OF inv] by (simp add: v_def shape_ok_def)
      show "ln_working_num v \<le> max 0 (sc_working_num_max (ln_srvcf v))"
        using inv by (simp add: v_def inv_ex_def count_ok_def)
    qed (use ok True final_conn_ok [OF ok] in \<open>simp_all add: v_def connect_failures_def\<close>)
    moreover have "handle_spec v" by (rule assms) (simp add: v_def)
    moreover have "frame v w' \<Longrightarrow> frame (put_conn c (final_conn p) w) w'" for w'
      by (simp add: frame_def v_def)
    ultimately show ?thesis
      unfolding run handle_spec_def by (auto simp: v_def elim!: okR_mono)
  qed
qed

text \<open>Taking the head from the queue when its connect has been started.\<close>

lemma queue_ok_admit:
  assumes "queue_ok w" and "ln_cq_waiting w = c # q" and "w_conns w' = (w_conns w)(c \<mapsto> p')"
    and "c_status p' \<noteq> CONN_WAITING" and "ln_cq_waiting w' = q"
    and "ln_cq_waiting_num w' = ln_cq_waiting_num w - 1"
  shows "queue_ok w'"
  unfolding queue_ok_def
proof (intro conjI allI)
  have dist: "distinct (c # q)" and mem: "d \<in> set (c # q) \<longleftrightarrow> is_waiting w d" for d
    using assms(1,2) unfolding queue_ok_def by (metis, metis)
  show "distinct (ln_cq_waiting w')" using dist assms(5) by simp
  show "d \<in> set (ln_cq_waiting w') \<longleftrightarrow> is_waiting w' d" for d
    using dist mem [of d] assms(3-5) by (auto simp: is_waiting_iff)
  show "ln_cq_waiting_num w' = int (length (ln_cq_waiting w'))"
    using assms by (simp add: queue_ok_def)
qed

lemma queue_head:
  assumes "inv_ex X w" and "ln_cq_waiting w = c # q"
  obtains p where "w_conns w c = Some p" and "c_status p = CONN_WAITING"
    and "\<forall>d\<in>set (c # q). conn_live w d"
proof -
  have all: "\<forall>d. d \<in> set (c # q) \<longleftrightarrow> is_waiting w d" using assms by (auto simp: inv_ex_def queue_ok_def)
  then have "is_waiting w c" by (metis list.set_intros(1))
  then obtain p where "w_conns w c = Some p" "c_status p = CONN_WAITING"
    by (auto simp: is_waiting_iff)
  moreover have "\<forall>d\<in>set (c # q). conn_live w d"
    using all by (auto simp: is_waiting_iff conn_live_def simp del: set_simps)
  ultimately show ?thesis using that by blast
qed

lemma admit_inv:
  assumes "inv_ex {} w" and "ln_cq_waiting w = c # q"
    and "w_conns w c = Some p" and "c_status p = CONN_WAITING" and "\<not> upc_active p"
    and "ln_working_num w < sc_working_num_max (ln_srvcf w)"
    and "attempted c p w p1 w1 False" and "upc_active p1"
  defines "w2 \<equiv> (put_conn c (p1\<lparr>c_status := CONN_WORKING\<rparr>) (w1\<lparr>ln_cq_waiting := q,
      ln_cq_waiting_num := ln_cq_waiting_num w1 - 1\<rparr>))\<lparr>ln_working_num := ln_working_num w1 + 1\<rparr>"
  shows "inv_ex {} w2" and "frame w w2" and "queue_step (ln_cq_waiting w) w2"
proof -
  let ?p = "p1\<lparr>c_status := CONN_WORKING\<rparr>"
  note att = assms(7) [unfolded attempted_def]
  have conns: "w_conns w2 = (w_conns w)(c \<mapsto> ?p)" using att by (simp add: w2_def)
  have shape: "shape_ok w w2"
    using att inv_pool_ok [OF assms(1)] by (simp add: w2_def shape_ok_def)
  have ok: "conn_ok (ln_bp w) (ln_timeout w) ?p"
    using att assms(4,8)
    by (auto simp: conn_ok_def client_ok_def upstream_ok_def phase_ok_def conn_open_def
        upc_active_def upc_idle_def)
  have num: "ln_working_num w2 = ln_working_num w + 1" "connect_failures w2 = connect_failures w"
    "ln_c_count w2 = ln_c_count w"
    using att by (simp_all add: w2_def connect_failures_def)
  have conf: "sc_working_num_max (ln_srvcf w2) = sc_working_num_max (ln_srvcf w)"
    "sc_access (ln_srvcf w2) = sc_access (ln_srvcf w)"
    using shape by (simp_all add: shape_ok_def)
  have fin: "finite (dom (w_conns w))" using assms(1) by (simp add: inv_ex_def heap_ok_def)
  have "heap_ok w2"
    by (rule heap_ok_upd [OF _ assms(3) conns shape ok]) (use assms(1) in \<open>simp add: inv_ex_def\<close>)
  moreover have "queue_ok w2"
    by (rule queue_ok_admit [OF _ assms(2) conns])
      (use assms(1) att in \<open>simp_all add: inv_ex_def w2_def\<close>)
  moreover have "count_ok w2"
  proof (rule count_ok_upd [OF _ fin assms(3) conns])
    show "ln_working_num w2 \<le> max 0 (sc_working_num_max (ln_srvcf w2))"
      using num conf assms(6) by simp
    show "ln_c_count w2 \<le> max 0 (ac_max (sc_access (ln_srvcf w2)))"
      using num conf assms(1) by (simp add: inv_ex_def count_ok_def)
  qed (use assms(1,4,5,8) num in \<open>simp_all add: inv_ex_def conn_open_def upc_active_def\<close>)
  moreover have "waiting_idle {} w2"
    using assms(1) conns by (auto simp: inv_ex_def waiting_idle_def)
  ultimately show "inv_ex {} w2" by (simp add: inv_ex_def)
  have "same_client p ?p" using att by (simp add: same_client_def)
  then show "frame w w2"
    using conns att assms(3,4) conf
    by (simp add: frame_def conn_adm_def w2_def shape_ok_def)
  show "queue_step (ln_cq_waiting w) w2"
    using assms(2,8) conns by (simp add: queue_step_def w2_def upc_active_def)
qed

text \<open>A failed attempt leaves the state ready for \<open>x_upstream_final\<close>.\<close>

lemma attempt_inv:
  assumes "inv_ex {} w" and "w_conns w c = Some p" and "c_status p = CONN_WAITING"
    and "\<not> upc_active p" and "attempted c p w p1 w1 (upc_active p1)"
  shows "inv_ex {c} w1" and "frame w (put_conn c (final_conn p1) w1)"
proof -
  note att = assms(5) [unfolded attempted_def]
  show "inv_ex {c} w1"
    using assms(1,2)
  proof (rule inv_ex_upd)
    show "ln_working_num w1 \<le> max 0 (sc_working_num_max (ln_srvcf w1))"
      using assms(1) att by (simp add: inv_ex_def count_ok_def shape_ok_def)
  qed (use assms(3,4) att in \<open>auto simp: conn_open_def\<close>)
  have "same_client p (final_conn p1)"
    using att final_conn_ok(5) [of "ln_bp w" "ln_timeout w" p1] by (simp add: same_client_def)
  moreover have "c_status (final_conn p1) = CONN_WAITING"
    using att assms(3) final_conn_ok(3) [of "ln_bp w" "ln_timeout w" p1] by simp
  ultimately show "frame w (put_conn c (final_conn p1) w1)"
    using att assms(2,3) by (simp add: frame_def conn_adm_def shape_ok_def)
qed

lemma queue_step_same_queue: "ln_cq_waiting w1 = q \<Longrightarrow> queue_step (ln_cq_waiting w1) w' \<Longrightarrow> queue_step q w'"
  by simp

lemma handle_spec_step:
  assumes "\<And>c v. length (o_socket v) < length (o_socket w) \<Longrightarrow> final_spec c v"
  shows "handle_spec w"
  unfolding handle_spec_def
proof
  assume inv: "inv_ex {} w"
  let ?Q = "\<lambda>(rc, w'). inv_ex {} w' \<and> frame w w' \<and> queue_step (ln_cq_waiting w) w'"
  show "okR ?Q (x_upstream_handle w)"
  proof (cases "ln_cq_waiting w")
    case Nil
    with inv show ?thesis by (simp add: x_upstream_handle.simps [of w] queue_step_def)
  next
    case (Cons c q)
    obtain p where p: "w_conns w c = Some p" "c_status p = CONN_WAITING"
      and live: "\<forall>d\<in>set (c # q). conn_live w d"
      using queue_head [OF inv Cons] by blast
    have idle: "\<not> upc_active p" using inv p by (auto simp: inv_ex_def waiting_idle_def)
    show ?thesis
    proof (cases "sc_working_num_max (ln_srvcf w) \<le> ln_working_num w")
      case True
      with inv Cons show ?thesis by (simp add: x_upstream_handle.simps [of w] queue_step_def)
    next
      case room: False
      define cont where "cont = (\<lambda>(rc, w1).
              if rc = XNET_OK then
                bindR (cq_remove c w1) (\<lambda>w2.
                  let w3 = w2\<lparr>ln_cq_waiting_num := ln_cq_waiting_num w2 - 1\<rparr> in
                  bindR (upd_conn c (\<lambda>p. p\<lparr>c_status := CONN_WORKING\<rparr>) w3) (\<lambda>w4.
                    Inr (rc, w4\<lparr>ln_working_num := ln_working_num w4 + 1\<rparr>)))
              else bindR (x_upstream_final c w1) (\<lambda>w2. Inr (rc, w2)))"
      have run: "x_upstream_handle w = bindR (x_upstream_init c w) cont"
        using Cons room by (simp add: x_upstream_handle.simps [of w] cont_def)
      have "okR ?Q (cont (rc, w1))"
        if att: "attempted c p w p1 w1 (rc \<noteq> XNET_OK \<and> upc_active p1)"
          and act: "rc = XNET_OK \<longrightarrow> upc_active p1" for rc w1 p1
      proof (cases "rc = XNET_OK")
        case True
        with att act have att': "attempted c p w p1 w1 False" and act': "upc_active p1" by simp_all
        then have cq: "cq_remove c w1 = Inr (w1\<lparr>ln_cq_waiting := q\<rparr>)"
          using okR_cq_remove [of c w1] Cons live by (auto simp: attempted_def conn_live_def)
        have p1: "w_conns w1 c = Some p1" using att by (simp add: attempted_def)
        from admit_inv [OF inv Cons p idle _ att' act'] room True p1 show ?thesis
          by (simp add: cont_def cq)
      next
        case False
        with att have att': "attempted c p w p1 w1 (upc_active p1)" by simp
        have "final_spec c w1" by (rule assms) (use att in \<open>simp add: attempted_def\<close>)
        moreover have "w_conns w1 c = Some p1" "ln_cq_waiting w1 = ln_cq_waiting w"
          using att by (simp_all add: attempted_def)
        ultimately show ?thesis
          using attempt_inv [OF inv p idle att'] frame_trans False unfolding final_spec_def
          by (auto simp: cont_def elim!: okR_mono)
      qed
      then show ?thesis
        unfolding run okR_bind
        by (intro okR_mono [OF x_upstream_init_post [OF inv p idle]]) auto
    qed
  qed
qed

lemma handle_final_spec:
  "(\<forall>w. length (o_socket w) \<le> n \<longrightarrow> handle_spec w \<and> (\<forall>c. final_spec c w))"
proof (induction n rule: less_induct)
  case (less n)
  have handle: "handle_spec w" if "length (o_socket w) \<le> n" for w
    by (rule handle_spec_step) (use less that in \<open>meson less_le_trans order_refl\<close>)
  moreover have "final_spec c w" if "length (o_socket w) \<le> n" for c w
    by (rule final_spec_step) (use handle that in simp)
  ultimately show ?case by blast
qed

lemma x_upstream_handle_ok:
  "inv_ex {} w \<Longrightarrow> okR (\<lambda>(rc, w'). inv_ex {} w' \<and> frame w w' \<and> queue_step (ln_cq_waiting w) w')
     (x_upstream_handle w)"
  using handle_final_spec [of "length (o_socket w)"] by (auto simp: handle_spec_def)

lemma x_upstream_final_ok:
  "inv_ex {c} w \<Longrightarrow> w_conns w c = Some p \<Longrightarrow>
     okR (\<lambda>w'. inv_ex {} w' \<and> frame (put_conn c (final_conn p) w) w'
       \<and> queue_step (ln_cq_waiting w) w') (x_upstream_final c w)"
  using handle_final_spec [of "length (o_socket w)"] by (auto simp: final_spec_def)

end
