(* ===== verification/Handlers.thy ===== *)
theory Handlers
  imports Admission
begin

section \<open>The callbacks keep the invariant\<close>

text \<open>
  One lemma per callback: started on a state that satisfies the invariant, by a watcher that
  is started, it returns such a state or stops for a \<open>soft\<close> reason.  The timer of a client is
  the exception: its lemma needs that the connection is not in the waiting queue.
\<close>

subsection \<open>The waiting queue\<close>

lemma queue_ok_remove:
  assumes "queue_ok w" and "c \<in> set (ln_cq_waiting w)" and "w_conns w' = (w_conns w)(c \<mapsto> p')"
    and "c_status p' \<noteq> CONN_WAITING" and "ln_cq_waiting w' = remove1 c (ln_cq_waiting w)"
    and "ln_cq_waiting_num w' = ln_cq_waiting_num w - 1"
  shows "queue_ok w'"
proof -
  have dist: "distinct (ln_cq_waiting w)"
    and mem: "\<forall>d. d \<in> set (ln_cq_waiting w) \<longleftrightarrow> is_waiting w d"
    and num: "ln_cq_waiting_num w = int (length (ln_cq_waiting w))"
    using assms(1) by (simp_all add: queue_ok_def)
  have "d \<in> set (ln_cq_waiting w') \<longleftrightarrow> is_waiting w' d" for d
    using dist mem assms(3-5) by (auto simp: is_waiting_iff)
  then show ?thesis
    using dist num assms(2,5,6) int_length_remove1 [OF assms(2)] by (simp add: queue_ok_def)
qed

lemma queue_ok_insert:
  assumes "queue_ok w" and "w_conns w c = Some p" and "c_status p \<noteq> CONN_WAITING"
    and "w_conns w' = (w_conns w)(c \<mapsto> p')" and "c_status p' = CONN_WAITING"
    and "ln_cq_waiting w' = ln_cq_waiting w @ [c]"
    and "ln_cq_waiting_num w' = ln_cq_waiting_num w + 1"
  shows "queue_ok w'"
  using assms by (auto simp: queue_ok_def is_waiting_iff)

lemma queue_live: "inv_ex X w \<Longrightarrow> \<forall>d\<in>set (ln_cq_waiting w). conn_live w d"
  by (auto simp: inv_ex_def queue_ok_def is_waiting_iff conn_live_def)

lemma in_queue_iff: "inv_ex X w \<Longrightarrow> w_conns w c = Some p
    \<Longrightarrow> c \<in> set (ln_cq_waiting w) \<longleftrightarrow> c_status p = CONN_WAITING"
  by (auto simp: inv_ex_def queue_ok_def is_waiting_iff)

lemma inv_waiting_idle:
  "inv_ex {} w \<Longrightarrow> w_conns w c = Some p \<Longrightarrow> c_status p = CONN_WAITING \<Longrightarrow> \<not> upc_active p"
  by (auto simp: inv_ex_def waiting_idle_def)

text \<open>Changes of one connection that no part of the invariant but \<open>conn_ok\<close> looks at.\<close>

lemma inv_ex_quiet:
  assumes "inv_ex {} w" and "w_conns w c = Some p" and "w_conns w' = (w_conns w)(c \<mapsto> p')"
    and "shape_ok w w'" and "conn_ok (ln_bp w) (ln_timeout w) p'"
    and "(c_status p' = CONN_WAITING) = (c_status p = CONN_WAITING)"
    and "conn_open p' = conn_open p" and "upc_active p' = upc_active p"
    and "ln_cq_waiting w' = ln_cq_waiting w" and "ln_cq_waiting_num w' = ln_cq_waiting_num w"
    and "ln_c_count w' = ln_c_count w" and "ln_working_num w' = ln_working_num w"
    and "connect_failures w' = connect_failures w"
  shows "inv_ex {} w'"
proof (rule inv_ex_upd [OF assms(1-5)])
  show "ln_working_num w' \<le> max 0 (sc_working_num_max (ln_srvcf w'))"
    using assms(1,4,12) by (simp add: inv_ex_def count_ok_def shape_ok_def)
qed (use assms inv_waiting_idle [OF assms(1,2)] in simp_all)

subsection \<open>Closing a connection\<close>

definition closed_conn :: "xtp_conn \<Rightarrow> xtp_conn" where
  "closed_conn p = p\<lparr>c_e_recv := False, c_e_send := False,
     c_e_timer := Timer_again CONN_FREE_TIMEOUT, c_status := CONN_CLOSE\<rparr>"

definition close_post :: "nat \<Rightarrow> xtp_conn \<Rightarrow> world \<Rightarrow> bool" where
  "close_post c p w' \<longleftrightarrow> inv_ex {} w' \<and> (\<exists>p'. w_conns w' c = Some p' \<and> c_status p' = CONN_CLOSE
     \<and> c_pipe1 p' = c_pipe1 p \<and> c_pipe2 p' = c_pipe2 p \<and> c_fd p' = c_fd p)"

lemma closed_conn_ok:
  assumes "conn_ok bp t p" and "\<not> upc_active p"
  shows "conn_ok bp t (closed_conn p)" and "\<not> upc_active (closed_conn p)"
    and "\<not> conn_open (closed_conn p)"
  using assms
  by (auto simp: conn_ok_def client_ok_def upstream_ok_def phase_ok_def conn_open_def upc_active_def
      upc_idle_def closed_conn_def)

lemma close_inv:
  assumes "inv_ex {} w" and "w_conns w c = Some p" and "conn_open p" and "\<not> upc_active p"
    and "w_conns w' = (w_conns w)(c \<mapsto> closed_conn p)" and "shape_ok w w'"
    and "ln_c_count w' = ln_c_count w - 1" and "ln_working_num w' = ln_working_num w"
    and "connect_failures w' = connect_failures w"
    and "if c_status p = CONN_WAITING
      then ln_cq_waiting w' = remove1 c (ln_cq_waiting w) \<and> ln_cq_waiting_num w' = ln_cq_waiting_num w - 1
      else ln_cq_waiting w' = ln_cq_waiting w \<and> ln_cq_waiting_num w' = ln_cq_waiting_num w"
  shows "close_post c p w'"
proof -
  note ok = inv_conn_ok [OF assms(1,2)]
  note cl = closed_conn_ok [OF ok assms(4)]
  have st: "c_status (closed_conn p) = CONN_CLOSE" by (simp add: closed_conn_def)
  have fin: "finite (dom (w_conns w))" using assms(1) by (simp add: inv_ex_def heap_ok_def)
  have "heap_ok w'"
    by (rule heap_ok_upd [OF _ assms(2,5,6) cl(1)]) (use assms(1) in \<open>simp add: inv_ex_def\<close>)
  moreover have "queue_ok w'"
  proof (cases "c_status p = CONN_WAITING")
    case True
    then show ?thesis
      by (intro queue_ok_remove [OF _ _ assms(5)])
        (use assms(1,10) st in_queue_iff [OF assms(1,2)] in \<open>simp_all add: inv_ex_def\<close>)
  next
    case False
    then show ?thesis
      by (intro queue_ok_upd [OF _ assms(2,5)]) (use assms(1,10) st in \<open>simp_all add: inv_ex_def\<close>)
  qed
  moreover have "count_ok w'"
    by (rule count_ok_upd [OF _ fin assms(2,5)])
      (use assms(1,3,4,6-9) cl in \<open>simp_all add: inv_ex_def count_ok_def shape_ok_def\<close>)
  moreover have "waiting_idle {} w'"
    by (rule waiting_idle_upd [where X = "{}", OF _ assms(5)]) (use assms(1) st in \<open>simp_all add: inv_ex_def\<close>)
  ultimately have "inv_ex {} w'" by (simp add: inv_ex_def)
  moreover have "w_conns w' c = Some (closed_conn p)" using assms(5) by simp
  moreover have "c_pipe1 (closed_conn p) = c_pipe1 p" "c_pipe2 (closed_conn p) = c_pipe2 p"
    "c_fd (closed_conn p) = c_fd p"
    by (simp_all add: closed_conn_def)
  ultimately show ?thesis using st by (auto simp: close_post_def)
qed

text \<open>What \<open>x_event_close\<close> does after its call of \<open>x_upstream_final\<close>.\<close>

abbreviation (input) close_rest :: "nat \<Rightarrow> world \<Rightarrow> fault + world" where
  "close_rest c w1 \<equiv>
           bindR (get_conn c w1) (\<lambda>p1.
             let w2 = log_sys (Sys_close (c_fd p1))
                        (put_conn c (p1\<lparr>c_e_recv := False, c_e_send := False\<rparr>) w1) in
             bindR (if c_status p1 = CONN_WAITING
                    then bindR (cq_remove c w2) (\<lambda>w'.
                           Inr (w'\<lparr>ln_cq_waiting_num := ln_cq_waiting_num w' - 1\<rparr>))
                    else Inr w2) (\<lambda>w3.
               bindR (upd_conn c (\<lambda>p. p\<lparr>c_e_timer := Timer_again CONN_FREE_TIMEOUT,
                                         c_status := CONN_CLOSE\<rparr>) w3) (\<lambda>w4.
                 Inr (w4\<lparr>ln_c_count := ln_c_count w4 - 1\<rparr>))))"

lemma close_rest_ok:
  assumes inv: "inv_ex {} v" and q: "w_conns v c = Some q" and op: "conn_open q" and na: "\<not> upc_active q"
  shows "okR (close_post c q) (close_rest c v)"
proof (cases "c_status q = CONN_WAITING")
  case True
  define v1 where "v1 = log_sys (Sys_close (c_fd q))
      (put_conn c (q\<lparr>c_e_recv := False, c_e_send := False\<rparr>) v)"
  have "cq_remove c v1 = Inr (v1\<lparr>ln_cq_waiting := remove1 c (ln_cq_waiting v1)\<rparr>)"
    by (rule okR_cq_remove)
      (use True in_queue_iff [OF inv q] queue_live [OF inv] in \<open>auto simp: v1_def conn_live_def\<close>)
  moreover have "w_conns v1 c = Some (q\<lparr>c_e_recv := False, c_e_send := False\<rparr>)"
    by (simp add: v1_def)
  ultimately show ?thesis
    using q True
    by (simp add: Let_def v1_def [symmetric])
      (rule close_inv [OF inv q op na], use shape_ok_refl [OF inv] in
        \<open>auto simp: v1_def closed_conn_def shape_ok_def connect_failures_def\<close>)
next
  case False
  with q show ?thesis
    by (simp add: Let_def)
      (rule close_inv [OF inv q op na], use shape_ok_refl [OF inv] in
        \<open>auto simp: closed_conn_def shape_ok_def connect_failures_def\<close>)
qed

lemma x_event_close_ok:
  assumes "inv_ex {} w" and "w_conns w c = Some p"
  shows "okR (close_post c p) (x_event_close c w)"
proof (cases "c_status p = CONN_CLOSE")
  case True
  with assms show ?thesis by (simp add: x_event_close_def close_post_def)
next
  case nclosed: False
  note ok = inv_conn_ok [OF assms]
  then have upcf: "\<not> (c_upc_status p \<noteq> CONN_NONE \<and> c_upcf p = None)"
    unfolding conn_ok_def upstream_ok_def by blast
  have inv_c: "inv_ex {c} w" using assms(1) by (rule inv_ex_mono) simp
  have run: "x_event_close c w = bindR (x_upstream_final c w) (close_rest c)"
    unfolding x_event_close_def get_conn_def [of c w] assms(2) option.case bindR_simps
      if_not_P [OF nclosed] if_not_P [OF upcf] ..
  show ?thesis
  proof (cases "upc_active p")
    case False
    with close_rest_ok [OF assms] nclosed assms(2) show ?thesis
      unfolding run by (simp add: x_upstream_final_inactive conn_open_def)
  next
    case True
    have nw: "c_status p \<noteq> CONN_WAITING" using True inv_waiting_idle [OF assms] by auto
    have fin: "c_status (final_conn p) \<noteq> CONN_WAITING" "conn_open (final_conn p)"
      "\<not> upc_active (final_conn p)" "same_client p (final_conn p)"
      using nw nclosed final_conn_ok [OF ok] by (simp_all add: conn_open_def)
    have same: "close_post c (final_conn p) = close_post c p"
      using fin(4) by (simp add: close_post_def same_client_def fun_eq_iff)
    have "okR (close_post c p) (close_rest c v)"
      if "inv_ex {} v" and "frame (put_conn c (final_conn p) w) v" for v
    proof -
      have "w_conns v c = Some (final_conn p)"
        using frame_not_waiting [OF that(2)] fin(1) by simp
      from close_rest_ok [OF that(1) this fin(2,3)] same show ?thesis by simp
    qed
    then show ?thesis
      unfolding run okR_bind
      by (intro okR_mono [OF x_upstream_final_ok [OF inv_c assms(2)]]) blast
  qed
qed

subsection \<open>Moving bytes\<close>

lemma pipes_update [simp]:
  "client_ok t (p\<lparr>c_pipe1 := x\<rparr>) = client_ok t p" "client_ok t (p\<lparr>c_pipe2 := x\<rparr>) = client_ok t p"
  "upstream_ok (p\<lparr>c_pipe1 := x\<rparr>) = upstream_ok p" "upstream_ok (p\<lparr>c_pipe2 := x\<rparr>) = upstream_ok p"
  "phase_ok (p\<lparr>c_pipe1 := x\<rparr>) = phase_ok p" "phase_ok (p\<lparr>c_pipe2 := x\<rparr>) = phase_ok p"
  by (simp_all add: client_ok_def upstream_ok_def phase_ok_def conn_open_def upc_active_def
      upc_idle_def)

lemma upc_idle_update [simp]:
  "upc_idle (p\<lparr>c_e_send := b\<rparr>) = upc_idle p" "upc_idle (p\<lparr>c_status := st\<rparr>) = upc_idle p"
  "upc_idle (p\<lparr>c_e_timer := tm\<rparr>) = upc_idle p" "upc_idle (p\<lparr>c_e_recv := b\<rparr>) = upc_idle p"
  by (simp_all add: upc_idle_def)

lemma conn_ok_pipes:
  assumes "conn_ok bp t p" and "same_shape bp bp'" and "pipe_ok bp' pipe"
  shows "conn_ok bp t (p\<lparr>c_pipe1 := pipe\<rparr>)" and "conn_ok bp t (p\<lparr>c_pipe2 := pipe\<rparr>)"
  using assms pipe_ok_shape [OF assms(2), of pipe]
  by (simp_all add: conn_ok_def)

lemma pipe_change_inv:
  assumes "inv_ex {} w" and "w_conns w c = Some p"
    and "pool_ok bp" and "same_shape (ln_bp w) bp" and "pipe_ok bp pipe"
    and "w_conns w' = (w_conns w)(c \<mapsto> p')"
    and "p' = p\<lparr>c_pipe1 := pipe\<rparr> \<or> p' = p\<lparr>c_pipe2 := pipe\<rparr>"
    and "ln_bp w' = bp" and "ln_timeout w' = ln_timeout w" and "ln_srvcf w' = ln_srvcf w"
    and "w_next w' = w_next w" and "ln_cq_waiting w' = ln_cq_waiting w"
    and "ln_cq_waiting_num w' = ln_cq_waiting_num w" and "ln_c_count w' = ln_c_count w"
    and "ln_working_num w' = ln_working_num w" and "connect_failures w' = connect_failures w"
  shows "inv_ex {} w'"
proof (rule inv_ex_quiet [OF assms(1,2,6)])
  show "shape_ok w w'"
    using assms(3,4,8-11) inv_srv_ok [OF assms(1)] by (simp add: shape_ok_def)
  show "conn_ok (ln_bp w) (ln_timeout w) p'"
    using assms(7) conn_ok_pipes [OF inv_conn_ok [OF assms(1,2)] assms(4,5)] by auto
qed (use assms(7,12-) in \<open>auto simp: conn_open_def upc_active_def\<close>)

lemma send_to_peer_ok:
  assumes "inv_ex {} w" and "w_conns w c = Some p" and "upc_active p"
  shows "okR (inv_ex {}) (x_upstream_send_to_peer c w)"
proof -
  let ?p = "p\<lparr>c_upc_e_send := True\<rparr>"
  have "inv_ex {} (put_conn c ?p w)"
    by (rule inv_ex_quiet [OF assms(1,2), where p' = ?p])
      (use assms shape_ok_refl [OF assms(1)] inv_conn_ok [OF assms(1,2)] in
        \<open>simp_all add: connect_failures_def shape_ok_def conn_ok_def client_ok_def upstream_ok_def
          phase_ok_def conn_open_def upc_active_def\<close>)
  with assms(2) show ?thesis by (simp add: x_upstream_send_to_peer_def)
qed

lemma send_to_client_ok:
  assumes "inv_ex {} w" and "w_conns w c = Some p" and "conn_open p"
  shows "okR (inv_ex {}) (x_access_send_to_client c w)"
proof -
  let ?p = "p\<lparr>c_e_send := True\<rparr>"
  have "inv_ex {} (put_conn c ?p w)"
    by (rule inv_ex_quiet [OF assms(1,2), where p' = ?p])
      (use assms shape_ok_refl [OF assms(1)] inv_conn_ok [OF assms(1,2)] in
        \<open>simp_all add: connect_failures_def shape_ok_def conn_ok_def client_ok_def upstream_ok_def
          phase_ok_def conn_open_def upc_active_def\<close>)
  with assms(2) show ?thesis by (simp add: x_access_send_to_client_def)
qed

lemma enqueue_inv:
  assumes "inv_ex {} w" and "w_conns w c = Some p" and "c_status p = CONN_NONE"
  shows "cq_insert_tail c w = Inr (w\<lparr>ln_cq_waiting := ln_cq_waiting w @ [c]\<rparr>)"
    and "inv_ex {} (put_conn c (p\<lparr>c_status := CONN_WAITING\<rparr>)
      (w\<lparr>ln_cq_waiting := ln_cq_waiting w @ [c], ln_cq_waiting_num := ln_cq_waiting_num w + 1\<rparr>))"
proof -
  note ok = inv_conn_ok [OF assms(1,2)]
  have none: "c_upc_status p = CONN_NONE" using ok assms(3) by (simp add: conn_ok_def phase_ok_def)
  have "c \<notin> set (ln_cq_waiting w)" using in_queue_iff [OF assms(1,2)] assms(3) by simp
  then show "cq_insert_tail c w = Inr (w\<lparr>ln_cq_waiting := ln_cq_waiting w @ [c]\<rparr>)"
    using assms(2) queue_live [OF assms(1)] by (intro okR_cq_insert_tail) (simp_all add: conn_live_def)
  let ?p = "p\<lparr>c_status := CONN_WAITING\<rparr>"
  let ?w = "put_conn c ?p
      (w\<lparr>ln_cq_waiting := ln_cq_waiting w @ [c], ln_cq_waiting_num := ln_cq_waiting_num w + 1\<rparr>)"
  have fin: "finite (dom (w_conns w))" using assms(1) by (simp add: inv_ex_def heap_ok_def)
  have conns: "w_conns ?w = (w_conns w)(c \<mapsto> ?p)" by simp
  have parts: "heap_ok w" "queue_ok w" "count_ok w" "waiting_idle {} w"
    using assms(1) by (simp_all add: inv_ex_def)
  have shape: "shape_ok w ?w" using shape_ok_refl [OF assms(1)] by (simp add: shape_ok_def)
  have ok': "conn_ok (ln_bp w) (ln_timeout w) ?p"
    using ok assms(3) none
    by (simp add: conn_ok_def client_ok_def upstream_ok_def phase_ok_def conn_open_def
        upc_active_def upc_idle_def)
  have "heap_ok ?w" by (rule heap_ok_upd [OF parts(1) assms(2) conns shape ok'])
  moreover have "queue_ok ?w"
    by (rule queue_ok_insert [OF parts(2) assms(2) _ conns]) (use assms(3) in simp_all)
  moreover have "count_ok ?w"
    by (rule count_ok_upd [OF parts(3) fin assms(2) conns])
      (use parts(3) assms(3) none in
        \<open>simp_all add: conn_open_def upc_active_def connect_failures_def count_ok_def\<close>)
  moreover have "waiting_idle {} ?w"
    by (rule waiting_idle_upd [OF parts(4) conns]) (use none in \<open>simp_all add: upc_active_def\<close>)
  ultimately show "inv_ex {} ?w" by (simp add: inv_ex_def)
qed

lemma close_post_inv: "close_post c p w \<Longrightarrow> inv_ex {} w"
  by (simp add: close_post_def)

lemma x_event_close_inv:
  assumes "inv_ex {} w" and "w_conns w c = Some p"
  shows "okR (inv_ex {}) (x_event_close c w)"
  by (rule okR_mono [OF x_event_close_ok [OF assms]]) (rule close_post_inv)

lemma x_upstream_handle_inv: "inv_ex {} w \<Longrightarrow> okR (\<lambda>(rc, w'). inv_ex {} w' \<and> frame w w') (x_upstream_handle w)"
  by (rule okR_mono [OF x_upstream_handle_ok]) auto

lemma x_upstream_final_inv:
  assumes "inv_ex {} w" and "w_conns w c = Some p"
  shows "okR (\<lambda>w'. inv_ex {} w' \<and> frame (put_conn c (final_conn p) w) w') (x_upstream_final c w)"
  by (rule okR_mono [OF x_upstream_final_ok [OF inv_ex_mono [OF assms(1)] assms(2)]]) auto

lemma x_recv_cb_inv:
  assumes "inv_ex {} w" and "w_conns w c = Some p"
  shows "okR (inv_ex {}) (x_recv_cb c w)"
proof -
  note ok = inv_conn_ok [OF assms]
  then have pipe: "pipe_ok (ln_bp w) (c_pipe1 p)" by (simp add: conn_ok_def)
  have after: "okR (inv_ex {}) (bindR (get_conn c v) (\<lambda>q.
      if c_upc_status q = CONN_WORKING then x_upstream_send_to_peer c v else Inr v))"
    if "inv_ex {} v" and "\<exists>q. w_conns v c = Some q" for v
    using that send_to_peer_ok [OF that(1)] by (auto simp: upc_active_def)
  have step: "okR (inv_ex {}) (let w1 = put_conn c (p\<lparr>c_pipe1 := pipe1\<rparr>)
            (w\<lparr>ln_bp := bp, o_recv := rs, o_malloc := ms\<rparr>) in
         if out = Closed then x_event_close c w1
         else
           bindR (if c_status p = CONN_NONE
                  then bindR (cq_insert_tail c w1) (\<lambda>w2.
                         bindR (upd_conn c (\<lambda>p. p\<lparr>c_status := CONN_WAITING\<rparr>)
                                  (w2\<lparr>ln_cq_waiting_num := ln_cq_waiting_num w2 + 1\<rparr>)) (\<lambda>w3.
                           bindR (x_upstream_handle w3) (\<lambda>(rc, w4). Inr w4)))
                  else Inr w1) (\<lambda>w5.
             bindR (get_conn c w5) (\<lambda>p5.
               if c_upc_status p5 = CONN_WORKING then x_upstream_send_to_peer c w5 else Inr w5)))"
    if "recv_post (ln_bp w) (c_pipe1 p) (o_recv w) (out, pipe1, bp, rs, ms)" for out pipe1 bp rs ms
  proof -
    let ?p = "p\<lparr>c_pipe1 := pipe1\<rparr>"
    define w1 where "w1 = put_conn c ?p (w\<lparr>ln_bp := bp, o_recv := rs, o_malloc := ms\<rparr>)"
    have inv1: "inv_ex {} w1"
      by (rule pipe_change_inv [OF assms, of bp pipe1 _ ?p])
        (use that in \<open>simp_all add: recv_post_def w1_def connect_failures_def\<close>)
    have p1: "w_conns w1 c = Some ?p" by (simp add: w1_def)
    show ?thesis
    proof (cases "out = Closed \<or> c_status p \<noteq> CONN_NONE")
      case True
      then show ?thesis
        using x_event_close_inv [OF inv1 p1] after [OF inv1] p1 by (auto simp: w1_def [symmetric] Let_def)
    next
      case False
      then have none: "c_status ?p = CONN_NONE" by simp
      let ?v = "put_conn c (?p\<lparr>c_status := CONN_WAITING\<rparr>)
          (w1\<lparr>ln_cq_waiting := ln_cq_waiting w1 @ [c], ln_cq_waiting_num := ln_cq_waiting_num w1 + 1\<rparr>)"
      note enq = enqueue_inv [OF inv1 p1 none]
      have live: "\<exists>q. w_conns v c = Some q" if "frame ?v v" for v
        by (rule frame_client [OF that, of c]) simp_all
      have "okR (\<lambda>(rc, v). okR (inv_ex {}) (bindR (get_conn c v) (\<lambda>q.
          if c_upc_status q = CONN_WORKING then x_upstream_send_to_peer c v else Inr v)))
          (x_upstream_handle ?v)"
        by (rule okR_mono [OF x_upstream_handle_inv [OF enq(2)]]) (use after live in blast)
      then show ?thesis
        using False p1 by (simp add: w1_def [symmetric] Let_def enq(1) case_prod_beta')
    qed
  qed
  show ?thesis
    unfolding x_recv_cb_def
    using assms(2) okR_mono [OF pipe_recv_okR [OF inv_pool_ok [OF assms(1)] pipe,
          of "o_recv w" "o_malloc w"]] step
    by (simp add: case_prod_beta')
qed

lemma conn_ok_send_off:
  "conn_ok bp t p \<Longrightarrow> c_upc_status p \<noteq> CONN_CLOSE \<Longrightarrow> conn_ok bp t (p\<lparr>c_e_send := False\<rparr>)"
  by (auto simp: conn_ok_def client_ok_def upstream_ok_def phase_ok_def conn_open_def upc_active_def
      split: if_split_asm)

lemma send_finished_inv:
  assumes "inv_ex {} w" and "w_conns w c = Some p"
  shows "okR (inv_ex {}) (send_finished c w)"
proof (cases "c_upc_status p = CONN_CLOSE")
  case True
  with assms x_event_close_inv [OF assms] show ?thesis by (simp add: send_finished_def)
next
  case False
  let ?p = "p\<lparr>c_e_send := False\<rparr>"
  have "inv_ex {} (put_conn c ?p w)"
    by (rule inv_ex_quiet [OF assms, where p' = ?p])
      (use shape_ok_refl [OF assms(1)] conn_ok_send_off [OF inv_conn_ok [OF assms] False] in
        \<open>simp_all add: connect_failures_def shape_ok_def conn_open_def upc_active_def\<close>)
  with assms False show ?thesis by (simp add: send_finished_def)
qed

lemma x_send_cb_inv:
  assumes "inv_ex {} w" and "w_conns w c = Some p"
  shows "okR (inv_ex {}) (x_send_cb c w)"
proof -
  have pipe: "pipe_ok (ln_bp w) (c_pipe2 p)" using inv_conn_ok [OF assms] by (simp add: conn_ok_def)
  have step: "okR (inv_ex {}) (let w1 = log_sys (Sys_send (c_fd p) sent)
                    (put_conn c (p\<lparr>c_pipe2 := pipe2\<rparr>) (w\<lparr>ln_bp := bp, o_send := ss\<rparr>)) in
         case out of
           Send_error \<Rightarrow> x_event_close c w1
         | Send_again \<Rightarrow> Inr w1
         | Send_empty \<Rightarrow> send_finished c w1
         | Send_done \<Rightarrow> send_finished c w1)"
    if "bufsend_post (ln_bp w) (c_pipe2 p) [] (out, pipe2, bp, sent, ss)" for out pipe2 bp sent ss
  proof -
    let ?p = "p\<lparr>c_pipe2 := pipe2\<rparr>"
    define w1 where "w1 = log_sys (Sys_send (c_fd p) sent)
        (put_conn c ?p (w\<lparr>ln_bp := bp, o_send := ss\<rparr>))"
    have inv1: "inv_ex {} w1"
      by (rule pipe_change_inv [OF assms, of bp pipe2 _ ?p])
        (use that in \<open>auto simp: bufsend_post_def w1_def connect_failures_def\<close>)
    have p1: "w_conns w1 c = Some ?p" by (simp add: w1_def)
    show ?thesis
      using x_event_close_inv [OF inv1 p1] send_finished_inv [OF inv1 p1] inv1
      by (simp add: w1_def [symmetric] Let_def split: send_out.split)
  qed
  show ?thesis
    unfolding x_send_cb_def
    using assms(2) okR_mono [OF access_bufsend_okR [OF inv_pool_ok [OF assms(1)] pipe,
          of "[]" "o_send w"]] step
    by (simp add: case_prod_beta')
qed

subsection \<open>The upstream socket's callbacks\<close>

lemma x_upstream_final_only_inv:
  assumes "inv_ex {} w" and "w_conns w c = Some p"
  shows "okR (inv_ex {}) (x_upstream_final c w)"
  by (rule okR_mono [OF x_upstream_final_inv [OF assms]]) simp

lemma inv_answers:
  assumes "inv_ex X w" and "w_conns w' = w_conns w" and "ln_bp w' = ln_bp w"
    and "ln_srvcf w' = ln_srvcf w" and "ln_timeout w' = ln_timeout w" and "w_next w' = w_next w"
    and "ln_cq_waiting w' = ln_cq_waiting w" and "ln_cq_waiting_num w' = ln_cq_waiting_num w"
    and "ln_c_count w' = ln_c_count w" and "ln_working_num w' = ln_working_num w"
    and "connect_failures w' = connect_failures w"
  shows "inv_ex X w'"
  using assms
  by (simp add: inv_ex_def heap_ok_def queue_ok_def is_waiting_iff count_ok_def waiting_idle_def)

lemma x_upstream_send_cb_inv:
  assumes "inv_ex {} w" and "w_conns w c = Some p"
  shows "okR (inv_ex {}) (x_upstream_send_cb c w)"
proof -
  have pipe: "pipe_ok (ln_bp w) (c_pipe1 p)" using inv_conn_ok [OF assms] by (simp add: conn_ok_def)
  have step: "okR (inv_ex {}) (let w1 = log_sys (Sys_send (c_upc_fd p) sent)
                    (put_conn c (p\<lparr>c_pipe1 := pipe1\<rparr>) (w\<lparr>ln_bp := bp, o_send := ss\<rparr>)) in
         if out = Send_error then x_upstream_final c w1
         else upd_conn c (\<lambda>p. p\<lparr>c_upc_e_send := False\<rparr>) w1)"
    if "bufsend_post (ln_bp w) (c_pipe1 p) [] (out, pipe1, bp, sent, ss)" for out pipe1 bp sent ss
  proof -
    let ?p = "p\<lparr>c_pipe1 := pipe1\<rparr>"
    let ?q = "?p\<lparr>c_upc_e_send := False\<rparr>"
    define w1 where "w1 = log_sys (Sys_send (c_upc_fd p) sent)
        (put_conn c ?p (w\<lparr>ln_bp := bp, o_send := ss\<rparr>))"
    have inv1: "inv_ex {} w1"
      by (rule pipe_change_inv [OF assms, of bp pipe1 _ ?p])
        (use that in \<open>auto simp: bufsend_post_def w1_def connect_failures_def\<close>)
    have p1: "w_conns w1 c = Some ?p" by (simp add: w1_def)
    have "conn_ok (ln_bp w1) (ln_timeout w1) ?q"
      using inv_conn_ok [OF inv1 p1]
      by (auto simp: conn_ok_def client_ok_def upstream_ok_def phase_ok_def conn_open_def
          upc_active_def upc_idle_def split: if_split_asm)
    then have "inv_ex {} (put_conn c ?q w1)"
      by (intro inv_ex_quiet [OF inv1 p1, where p' = ?q])
        (use shape_ok_refl [OF inv1] in
          \<open>simp_all add: connect_failures_def shape_ok_def conn_open_def upc_active_def\<close>)
    then show ?thesis
      using x_upstream_final_only_inv [OF inv1 p1] p1
      by (simp add: w1_def [symmetric] Let_def)
  qed
  show ?thesis
    unfolding x_upstream_send_cb_def
    using assms(2) okR_mono [OF upstream_bufsend_okR [OF inv_pool_ok [OF assms(1)] pipe,
          of "[]" "o_send w"]] step
    by (simp add: case_prod_beta')
qed

lemma x_upstream_recv_cb_inv:
  assumes "inv_ex {} w" and "w_conns w c = Some p" and "conn_open p"
  shows "okR (inv_ex {}) (x_upstream_recv_cb c w)"
proof -
  have pipe: "pipe_ok (ln_bp w) (c_pipe2 p)" using inv_conn_ok [OF assms(1,2)] by (simp add: conn_ok_def)
  have step: "okR (inv_ex {}) (let w1 = put_conn c (p\<lparr>c_pipe2 := pipe2\<rparr>)
            (w\<lparr>ln_bp := bp, o_recv := rs, o_malloc := ms\<rparr>) in
         if out = Closed then x_upstream_final c w1 else x_access_send_to_client c w1)"
    if "recv_post (ln_bp w) (c_pipe2 p) (o_recv w) (out, pipe2, bp, rs, ms)" for out pipe2 bp rs ms
  proof -
    let ?p = "p\<lparr>c_pipe2 := pipe2\<rparr>"
    define w1 where "w1 = put_conn c ?p (w\<lparr>ln_bp := bp, o_recv := rs, o_malloc := ms\<rparr>)"
    have inv1: "inv_ex {} w1"
      by (rule pipe_change_inv [OF assms(1,2), of bp pipe2 _ ?p])
        (use that in \<open>simp_all add: recv_post_def w1_def connect_failures_def\<close>)
    have p1: "w_conns w1 c = Some ?p" by (simp add: w1_def)
    have "conn_open ?p" using assms(3) by (simp add: conn_open_def)
    from send_to_client_ok [OF inv1 p1 this] x_upstream_final_only_inv [OF inv1 p1] show ?thesis
      by (simp add: w1_def [symmetric] Let_def)
  qed
  show ?thesis
    unfolding x_upstream_recv_cb_def
    using assms(2) okR_mono [OF pipe_recv_okR [OF inv_pool_ok [OF assms(1)] pipe,
          of "o_recv w" "o_malloc w"]] step
    by (simp add: case_prod_beta')
qed

lemma x_upstream_connected_cb_inv:
  assumes "inv_ex {} w" and "w_conns w c = Some p" and "upc_active p"
  shows "okE (\<lambda>f. f = Bad_watcher \<and> (\<exists>u. c_upcf p = Some u \<and> uc_timeout u < 0)) (inv_ex {})
    (x_upstream_connected_cb c w)" (is "okE ?E _ _")
proof -
  note ok = inv_conn_ok [OF assms(1,2)]
  from ok assms(3) obtain upcf where upcf: "c_upcf p = Some upcf"
    by (auto simp: conn_ok_def upstream_ok_def upc_active_def)
  have inv1: "inv_ex {} (w\<lparr>o_sockopt := so\<rparr>)" for so
    using assms(1) by (rule inv_answers) (simp_all add: connect_failures_def)
  let ?p = "p\<lparr>c_upc_e_connected := False, c_upc_e_send := True,
      c_upc_e_timer := Timer_again (of_int (uc_timeout upcf)), c_upc_status := CONN_WORKING\<rparr>"
  have ok': "conn_ok (ln_bp w) (ln_timeout w) ?p"
    using ok assms(3) upcf
    by (auto simp: conn_ok_def client_ok_def upstream_ok_def phase_ok_def conn_open_def upc_active_def)
  have "inv_ex {} (put_conn c ?p (w\<lparr>o_sockopt := so\<rparr>))" for so
    by (rule inv_ex_quiet [OF assms(1,2), where p' = ?p])
      (use ok' assms(3) shape_ok_refl [OF assms(1)] in
        \<open>simp_all add: connect_failures_def shape_ok_def conn_open_def upc_active_def\<close>)
  moreover have "okE ?E (inv_ex {}) (x_upstream_final c (w\<lparr>o_sockopt := so\<rparr>))" for so
    by (rule okR_okE [OF x_upstream_final_only_inv [OF inv1]]) (use assms(2) in simp)
  ultimately show ?thesis
    using assms(2) upcf by (auto simp: x_upstream_connected_cb_def get_conn_def Let_def split: option.split)
qed

lemma x_upstream_timeout_cb_inv:
  assumes "inv_ex {} w" and "w_conns w c = Some p" and "upc_active p"
  shows "okR (inv_ex {}) (x_upstream_timeout_cb c w)"
proof -
  note ok = inv_conn_ok [OF assms(1,2)]
  let ?p = "p\<lparr>c_upc_status := CONN_TIMEOUT\<rparr>"
  let ?w = "put_conn c ?p w"
  have nw: "c_status p \<noteq> CONN_WAITING" using inv_waiting_idle [OF assms(1,2)] assms(3) by blast
  have nclosed: "c_upc_status p \<noteq> CONN_CLOSE" using assms(3) by (simp add: upc_active_def)
  have inv1: "inv_ex {} ?w"
    by (rule inv_ex_quiet [OF assms(1,2), where p' = ?p])
      (use ok assms(3) shape_ok_refl [OF assms(1)] in
        \<open>auto simp: connect_failures_def shape_ok_def conn_open_def upc_active_def conn_ok_def
          client_ok_def upstream_ok_def phase_ok_def\<close>)
  have p1: "w_conns ?w c = Some ?p" by simp
  have act: "upc_active ?p" by (simp add: upc_active_def)
  note fin = final_conn_ok [OF inv_conn_ok [OF inv1 p1]]
  have off: "okR (inv_ex {}) (upd_conn c (\<lambda>p. p\<lparr>c_upc_e_timer := Timer_off\<rparr>) v)"
    if inv: "inv_ex {} v" and "frame (put_conn c (final_conn ?p) ?w) v" for v
  proof -
    have v: "w_conns v c = Some (final_conn ?p)"
      using frame_not_waiting [OF that(2)] nw fin(3) by simp
    have "final_conn ?p = (final_conn ?p)\<lparr>c_upc_e_timer := Timer_off\<rparr>"
      using act by (simp add: final_conn_def upc_stopped_def)
    then have "put_conn c ((final_conn ?p)\<lparr>c_upc_e_timer := Timer_off\<rparr>) v = v"
      using put_conn_same [OF v] by simp
    with inv v show ?thesis by simp
  qed
  show ?thesis
    using assms(2) nclosed okR_mono [OF x_upstream_final_inv [OF inv1 p1]] off
    by (simp add: x_upstream_timeout_cb_def Let_def)
qed

subsection \<open>Freeing and accepting\<close>

lemma drain_ok:
  assumes "pool_ok bp" and "pipe_ok bp pipe"
  shows "pool_ok (drain bp pipe)" and "same_shape bp (drain bp pipe)"
    and "bp_n (drain bp pipe) = bp_n bp + int (length pipe)"
proof -
  have "\<forall>b\<in>set pipe. block_ok bp b" using assms(2) by (simp add: pipe_ok_def buf_ok_block)
  then show "pool_ok (drain bp pipe)" and "bp_n (drain bp pipe) = bp_n bp + int (length pipe)"
    using bpool.put_all [OF assms(1)] by (simp_all add: drain_foldl)
  show "same_shape bp (drain bp pipe)" unfolding drain_foldl by (rule bpool.put_all_shape)
qed

lemma free_inv:
  assumes "inv_ex {} w" and "w_conns w c = Some p" and "c_status p = CONN_CLOSE"
    and "w_conns w' = (w_conns w)(c := None)" and "shape_ok w w'"
    and "ln_cq_waiting w' = ln_cq_waiting w" and "ln_cq_waiting_num w' = ln_cq_waiting_num w"
    and "ln_c_count w' = ln_c_count w" and "ln_working_num w' = ln_working_num w"
    and "connect_failures w' = connect_failures w"
  shows "inv_ex {} w'"
proof -
  have fin: "finite (dom (w_conns w))" and parts: "heap_ok w" "queue_ok w" "count_ok w" "waiting_idle {} w"
    using assms(1) by (simp_all add: inv_ex_def heap_ok_def)
  have na: "\<not> upc_active p" "\<not> conn_open p"
    using inv_conn_ok [OF assms(1,2)] assms(3) by (auto simp: conn_ok_def upstream_ok_def conn_open_def split: if_splits)
  have "heap_ok w'"
    using parts(1) assms(4,5) conn_ok_shape [of "ln_bp w" "ln_bp w'"]
    by (auto simp: heap_ok_def shape_ok_def split: if_splits)
  moreover have "queue_ok w'"
    using parts(2) assms(2-4,6,7) by (auto simp: queue_ok_def is_waiting_iff)
  moreover have "count_ok w'"
    using parts(3) assms(4,5,8-10) na cnt_delete [OF fin assms(2), of conn_open]
      cnt_delete [OF fin assms(2), of upc_active]
    by (simp add: count_ok_def shape_ok_def)
  moreover have "waiting_idle {} w'"
    using parts(4) assms(4) by (auto simp: waiting_idle_def)
  ultimately show ?thesis by (simp add: inv_ex_def)
qed

text \<open>The first phase of \<open>x_timeout_cb\<close>: the connection is marked; the last: it is freed.\<close>

abbreviation (input) timed_out :: "nat \<Rightarrow> xtp_conn \<Rightarrow> world \<Rightarrow> world" where
  "timed_out c p w \<equiv>
     if c_status p \<noteq> CONN_CLOSE then put_conn c (p\<lparr>c_status := CONN_TIMEOUT\<rparr>) w else w"

lemma timed_out_inv:
  assumes "inv_ex {} w" and "w_conns w c = Some p" and "c_status p \<noteq> CONN_WAITING"
  shows "inv_ex {} (timed_out c p w)"
proof (cases "c_status p = CONN_CLOSE")
  case True
  with assms(1) show ?thesis by simp
next
  case False
  let ?p = "p\<lparr>c_status := CONN_TIMEOUT\<rparr>"
  have "conn_ok (ln_bp w) (ln_timeout w) ?p"
    using inv_conn_ok [OF assms(1,2)] False
    by (auto simp: conn_ok_def client_ok_def upstream_ok_def phase_ok_def conn_open_def upc_active_def)
  then have "inv_ex {} (put_conn c ?p w)"
    by (intro inv_ex_quiet [OF assms(1,2), where p' = ?p])
      (use False assms(3) shape_ok_refl [OF assms(1)] in
        \<open>simp_all add: connect_failures_def shape_ok_def conn_open_def upc_active_def\<close>)
  with False show ?thesis by simp
qed

lemma timeout_free_inv:
  assumes "close_post c q w2"
  shows "okR (\<lambda>w'. inv_ex {} w' \<and> w_conns w' c = None) (bindR (get_conn c w2) (\<lambda>p2.
           zfree_conn c (put_conn c (p2\<lparr>c_e_timer := Timer_off, c_pipe1 := [], c_pipe2 := []\<rparr>)
                      (w2\<lparr>ln_bp := drain (drain (ln_bp w2) (c_pipe1 p2)) (c_pipe2 p2)\<rparr>))))"
proof -
  from assms obtain p2 where inv2: "inv_ex {} w2" and p2: "w_conns w2 c = Some p2"
    and cl: "c_status p2 = CONN_CLOSE" by (auto simp: close_post_def)
  note ok2 = inv_conn_ok [OF inv2 p2]
  have idle: "conn_idle (p2\<lparr>c_e_timer := Timer_off, c_pipe1 := [], c_pipe2 := []\<rparr>)"
    using ok2 cl
    by (auto simp: conn_ok_def client_ok_def upstream_ok_def conn_open_def upc_idle_def
        conn_idle_def split: if_split_asm)
  let ?bp1 = "drain (ln_bp w2) (c_pipe1 p2)"
  have d1: "pool_ok ?bp1" "same_shape (ln_bp w2) ?bp1"
    using drain_ok [OF inv_pool_ok [OF inv2]] ok2 by (simp_all add: conn_ok_def)
  have "pipe_ok ?bp1 (c_pipe2 p2)" using ok2 pipe_ok_shape [OF d1(2)] by (simp add: conn_ok_def)
  from drain_ok [OF d1(1) this] have d2: "pool_ok (drain ?bp1 (c_pipe2 p2))"
    "same_shape (ln_bp w2) (drain ?bp1 (c_pipe2 p2))"
    using same_shape_trans [OF d1(2)] by simp_all
  let ?w' = "(put_conn c (p2\<lparr>c_e_timer := Timer_off, c_pipe1 := [], c_pipe2 := []\<rparr>)
      (w2\<lparr>ln_bp := drain ?bp1 (c_pipe2 p2)\<rparr>))\<lparr>w_conns := (w_conns w2)(c := None)\<rparr>"
  have "inv_ex {} ?w'"
    by (rule free_inv [OF inv2 p2 cl])
      (use d2 inv_srv_ok [OF inv2] in \<open>simp_all add: shape_ok_def connect_failures_def\<close>)
  then show ?thesis using p2 idle by (simp add: okR_zfree_conn)
qed

lemma x_timeout_cb_inv:
  assumes "inv_ex {} w" and "w_conns w c = Some p" and "c_status p \<noteq> CONN_WAITING"
  shows "okR (\<lambda>w'. inv_ex {} w' \<and> w_conns w' c = None) (x_timeout_cb c w)"
proof -
  define q where "q = (if c_status p \<noteq> CONN_CLOSE then p\<lparr>c_status := CONN_TIMEOUT\<rparr> else p)"
  have vq: "w_conns (timed_out c p w) c = Some q" using assms(2) by (simp add: q_def)
  show ?thesis
    using assms(2) okR_mono [OF x_event_close_ok [OF timed_out_inv [OF assms] vq]] timeout_free_inv
    by (simp add: x_timeout_cb_def Let_def)
qed

lemma accept_loop_Inl: "accept_loop as = Inl e \<Longrightarrow> e = Script_end"
  by (induction as rule: accept_loop.induct) (auto split: if_splits)

lemma x_setNonBlock_okR: "(\<And>x. Q x) \<Longrightarrow> okR Q (x_setNonBlock fc)"
  by (simp add: x_setNonBlock_def Let_def)

lemma new_conn_ok: "conn_ok bp t (new_conn fd addr t)"
  by (simp add: conn_ok_def client_ok_def upstream_ok_def phase_ok_def conn_open_def upc_active_def
      upc_idle_def new_conn_def zero_conn_def)

lemma new_conn_phase [simp]:
  "c_status (new_conn fd addr t) = CONN_NONE" "c_upc_status (new_conn fd addr t) = CONN_NONE"
  by (simp_all add: new_conn_def)

lemma create_inv:
  assumes "inv_ex {} w" and "w_next w = c" and "w_conns w' = (w_conns w)(c \<mapsto> new_conn fd addr (ln_timeout w))"
    and "w_next w' = c + 1" and "ln_bp w' = ln_bp w" and "ln_timeout w' = ln_timeout w"
    and "ln_srvcf w' = ln_srvcf w"
    and "ln_cq_waiting w' = ln_cq_waiting w" and "ln_cq_waiting_num w' = ln_cq_waiting_num w"
    and "ln_c_count w' = ln_c_count w + 1" and "ln_working_num w' = ln_working_num w"
    and "connect_failures w' = connect_failures w"
    and "ln_c_count w < ac_max (sc_access (ln_srvcf w))"
  shows "inv_ex {} w'"
proof -
  let ?p = "new_conn fd addr (ln_timeout w)"
  have fin: "finite (dom (w_conns w))" and none: "w_conns w c = None"
    and parts: "heap_ok w" "queue_ok w" "count_ok w" "waiting_idle {} w"
    using assms(1,2) by (simp_all add: inv_ex_def heap_ok_def)
  have "heap_ok w'"
    using parts(1) assms(2-7) new_conn_ok by (auto simp: heap_ok_def split: if_splits)
  moreover have "queue_ok w'"
    using parts(2) assms(3,8,9) none by (auto simp: queue_ok_def is_waiting_iff)
  moreover have "count_ok w'"
    using parts(3) assms(3,5-) cnt_insert [OF fin none, of conn_open ?p]
      cnt_insert [OF fin none, of upc_active ?p]
    by (simp add: count_ok_def conn_open_def upc_active_def)
  moreover have "waiting_idle {} w'"
    using parts(4) assms(3) by (auto simp: waiting_idle_def)
  ultimately show ?thesis by (simp add: inv_ex_def)
qed

lemma x_accept_cb_inv:
  assumes "inv_ex {} w"
  shows "okE (\<lambda>f. f = Bad_watcher \<and> ((\<exists>fd addr as. accept_loop (o_accept w) = Inr (fd, addr, as) \<and> fd < 0)
      \<or> ln_timeout w < 0)) (inv_ex {}) (x_accept_cb w)" (is "okE ?E _ _")
proof (cases "accept_loop (o_accept w)")
  case (Inl e)
  then show ?thesis using accept_loop_Inl [OF Inl] by (simp add: x_accept_cb_def)
next
  case (Inr r)
  then obtain fd addr as where acc: "accept_loop (o_accept w) = Inr (fd, addr, as)" by (cases r) auto
  obtain a b c d where addr: "addr = (a, b, c, d)" by (cases addr)
  have full: "inv_ex {} (log_sys (Sys_close fd) (log_sys (Sys_accept fd) (w\<lparr>o_accept := as\<rparr>)))"
    using assms by (rule inv_answers) (simp_all add: connect_failures_def)
  show ?thesis
    unfolding x_accept_cb_def acc
    using full
    by (auto simp: Let_def acc addr intro!: okR_okE [OF x_setNonBlock_okR] create_inv [OF assms refl])
      (simp_all add: connect_failures_def)
qed

end
