(* ===== verification/Proxy.thy ===== *)
theory Proxy
  imports Handlers
begin

section \<open>The event loop of a proxy thread\<close>

text \<open>
  libev calls the callback of a watcher that is started; between two calls nothing changes.
  An event names the watcher, and comes with the answers the operating system gives to the
  system calls of its callback.  \<open>ev_reach\<close> is the set of states the loop can be in;
  \<open>run_events\<close> runs a given list of events and skips those whose watcher is stopped or
  that are not allowed.
\<close>

subsection \<open>The loop\<close>

inductive ev_reach ::
  "('s \<Rightarrow> 'e \<Rightarrow> bool) \<Rightarrow> ('e \<Rightarrow> 'a \<Rightarrow> 's \<Rightarrow> fault + 's) \<Rightarrow> ('s \<Rightarrow> 'e \<Rightarrow> bool) \<Rightarrow> 's \<Rightarrow> 's \<Rightarrow> bool"
  for started callback allowed s0 where
  start: "ev_reach started callback allowed s0 s0"
| event: "ev_reach started callback allowed s0 s'"
    if "ev_reach started callback allowed s0 s" "started s e" "allowed s e" "callback e a s = Inr s'"

inductive_cases ev_reachE: "ev_reach started callback allowed s0 s"

fun run_events ::
  "('s \<Rightarrow> 'e \<Rightarrow> bool) \<Rightarrow> ('e \<Rightarrow> 'a \<Rightarrow> 's \<Rightarrow> fault + 's) \<Rightarrow> ('s \<Rightarrow> 'e \<Rightarrow> bool)
    \<Rightarrow> ('e \<times> 'a) list \<Rightarrow> 's \<Rightarrow> fault + 's" where
  "run_events started callback allowed [] s = Inr s"
| "run_events started callback allowed ((e, a) # es) s =
     (if started s e \<and> allowed s e
      then bindR (callback e a s) (run_events started callback allowed es)
      else run_events started callback allowed es s)"

text \<open>
  What a set of callbacks owes to the loop: a callback of a started watcher, called in a state
  of the invariant, comes back in one, unless it stops for lack of memory or of answers, or
  with a fault that \<open>excused\<close> names for this event.
  The loop's side: the invariant holds in every state it reaches, and no callback has another
  fault there.
\<close>

locale event_loop =
  fixes started :: "'s \<Rightarrow> 'e \<Rightarrow> bool"
    and callback :: "'e \<Rightarrow> 'a \<Rightarrow> 's \<Rightarrow> fault + 's"
    and allowed :: "'s \<Rightarrow> 'e \<Rightarrow> bool"
    and excused :: "'s \<Rightarrow> 'e \<Rightarrow> 'a \<Rightarrow> fault \<Rightarrow> bool"
    and inv :: "'s \<Rightarrow> bool"
  assumes keeps: "inv s \<Longrightarrow> started s e \<Longrightarrow> allowed s e \<Longrightarrow> okE (excused s e a) inv (callback e a s)"
begin

lemma reach_inv: "ev_reach started callback allowed s0 s \<Longrightarrow> inv s0 \<Longrightarrow> inv s"
proof (induction rule: ev_reach.induct)
  case start
  then show ?case by simp
next
  case (event s e a s')
  with keeps [of s e a] show ?case by simp
qed

lemma reach_no_fault:
  "ev_reach started callback allowed s0 s \<Longrightarrow> inv s0 \<Longrightarrow> started s e \<Longrightarrow> allowed s e
    \<Longrightarrow> callback e a s = Inl f \<Longrightarrow> soft f \<or> excused s e a f"
  using keeps [of s e a] reach_inv [of s0 s] by simp

lemma reach_trans:
  "ev_reach started callback allowed s1 s2 \<Longrightarrow> ev_reach started callback allowed s0 s1
    \<Longrightarrow> ev_reach started callback allowed s0 s2"
  by (induction rule: ev_reach.induct) (auto intro: ev_reach.intros)

end

lemma run_events_reach:
  "run_events started callback allowed es s = Inr s'
    \<Longrightarrow> ev_reach started callback allowed s0 s \<Longrightarrow> ev_reach started callback allowed s0 s'"
proof (induction es arbitrary: s)
  case Nil
  then show ?case by simp
next
  case (Cons x es)
  obtain e a where x: "x = (e, a)" by (cases x)
  show ?case
  proof (cases "started s e \<and> allowed s e")
    case True
    with Cons.prems(1) x obtain s1 where s1: "callback e a s = Inr s1"
      and rest: "run_events started callback allowed es s1 = Inr s'" by auto
    have "ev_reach started callback allowed s0 s1"
      using Cons.prems(2) True s1 by (blast intro: ev_reach.event)
    with Cons.IH [OF rest] show ?thesis .
  next
    case False
    with Cons x show ?thesis by auto
  qed
qed

subsection \<open>The events of a proxy thread\<close>

datatype event =
    Ev_accept
  | Ev_recv nat
  | Ev_send nat
  | Ev_timer nat
  | Ev_upc_connected nat
  | Ev_upc_send nat
  | Ev_upc_recv nat
  | Ev_upc_timer nat

record answers =
  a_accept :: "accept_item list"
  a_zmalloc :: "bool list"
  a_fcntl :: "u32 list"
  a_socket :: "int list"
  a_connect :: "errno option list"
  a_sockopt :: "int option list"
  a_recv :: "recv_item list"
  a_send :: "send_item list"
  a_malloc :: "bool list"

definition load :: "answers \<Rightarrow> world \<Rightarrow> world" where
  "load a w = w\<lparr>o_accept := a_accept a, o_zmalloc := a_zmalloc a, o_fcntl := a_fcntl a,
     o_socket := a_socket a, o_connect := a_connect a, o_sockopt := a_sockopt a,
     o_recv := a_recv a, o_send := a_send a, o_malloc := a_malloc a\<rparr>"

definition on_conn :: "world \<Rightarrow> nat \<Rightarrow> (xtp_conn \<Rightarrow> bool) \<Rightarrow> bool" where
  "on_conn w c P = (case w_conns w c of None \<Rightarrow> False | Some p \<Rightarrow> P p)"

fun ev_started :: "world \<Rightarrow> event \<Rightarrow> bool" where
  "ev_started w Ev_accept = ln_e_listen w"
| "ev_started w (Ev_recv c) = on_conn w c c_e_recv"
| "ev_started w (Ev_send c) = on_conn w c c_e_send"
| "ev_started w (Ev_timer c) = on_conn w c (\<lambda>p. timer_active (c_e_timer p))"
| "ev_started w (Ev_upc_connected c) = on_conn w c c_upc_e_connected"
| "ev_started w (Ev_upc_send c) = on_conn w c c_upc_e_send"
| "ev_started w (Ev_upc_recv c) = on_conn w c c_upc_e_recv"
| "ev_started w (Ev_upc_timer c) = on_conn w c (\<lambda>p. timer_active (c_upc_e_timer p))"

fun callback :: "event \<Rightarrow> world \<Rightarrow> fault + world" where
  "callback Ev_accept w = x_accept_cb w"
| "callback (Ev_recv c) w = x_recv_cb c w"
| "callback (Ev_send c) w = x_send_cb c w"
| "callback (Ev_timer c) w = x_timeout_cb c w"
| "callback (Ev_upc_connected c) w = x_upstream_connected_cb c w"
| "callback (Ev_upc_send c) w = x_upstream_send_cb c w"
| "callback (Ev_upc_recv c) w = x_upstream_recv_cb c w"
| "callback (Ev_upc_timer c) w = x_upstream_timeout_cb c w"

definition dispatch :: "event \<Rightarrow> answers \<Rightarrow> world \<Rightarrow> fault + world" where
  "dispatch e a w = callback e (load a w)"

text \<open>
  The one event the code does not handle well: the timer of a connection that is still in the
  waiting queue.
\<close>

fun timely :: "world \<Rightarrow> event \<Rightarrow> bool" where
  "timely w (Ev_timer c) \<longleftrightarrow> \<not> is_waiting w c"
| "timely w _ \<longleftrightarrow> True"

text \<open>
  The events in which the code hands libev a watcher that it does not accept: \<open>accept\<close> has failed
  for good, so that the client's descriptor is -1, or the timeout configured for the clients or
  for the upstream server is negative.
\<close>

definition refused_watcher :: "world \<Rightarrow> event \<Rightarrow> answers \<Rightarrow> bool" where
  "refused_watcher w e a \<longleftrightarrow>
     (case e of
        Ev_accept \<Rightarrow> ln_timeout w < 0
          \<or> (case accept_loop (a_accept a) of Inl _ \<Rightarrow> False | Inr (fd, addr, as) \<Rightarrow> fd < 0)
      | Ev_upc_connected c \<Rightarrow> on_conn w c (\<lambda>p. case c_upcf p of None \<Rightarrow> False | Some u \<Rightarrow> uc_timeout u < 0)
      | _ \<Rightarrow> False)"

definition refuses :: "world \<Rightarrow> event \<Rightarrow> answers \<Rightarrow> fault \<Rightarrow> bool" where
  "refuses w e a f \<longleftrightarrow> f = Bad_watcher \<and> refused_watcher w e a"

subsection \<open>The invariant holds throughout\<close>

lemma load_fields [simp]:
  "w_conns (load a w) = w_conns w" "ln_bp (load a w) = ln_bp w" "ln_srvcf (load a w) = ln_srvcf w"
  "ln_timeout (load a w) = ln_timeout w" "w_next (load a w) = w_next w"
  "ln_cq_waiting (load a w) = ln_cq_waiting w" "ln_cq_waiting_num (load a w) = ln_cq_waiting_num w"
  "ln_c_count (load a w) = ln_c_count w" "ln_working_num (load a w) = ln_working_num w"
  "ln_e_listen (load a w) = ln_e_listen w" "w_trace (load a w) = w_trace w"
  by (simp_all add: load_def)

lemma load_inv: "inv_ex X w \<Longrightarrow> inv_ex X (load a w)"
  by (rule inv_answers) (simp_all add: connect_failures_def)

lemma upc_watcher_active:
  "conn_ok bp t p \<Longrightarrow> \<not> upc_idle p \<Longrightarrow> upc_active p"
  by (auto simp: conn_ok_def upstream_ok_def split: if_splits)

lemma callback_inv_plain:
  assumes "inv_ex {} w" and "ev_started w e" and "timely w e"
    and "e \<noteq> Ev_accept" and "\<forall>c. e \<noteq> Ev_upc_connected c"
  shows "okR (inv_ex {}) (callback e w)"
proof (cases e)
  case Ev_accept
  with assms(4) show ?thesis by simp
next
  case (Ev_recv c)
  with assms show ?thesis by (auto simp: on_conn_def x_recv_cb_inv split: option.splits)
next
  case (Ev_send c)
  with assms show ?thesis by (auto simp: on_conn_def x_send_cb_inv split: option.splits)
next
  case (Ev_timer c)
  with assms obtain p where p: "w_conns w c = Some p" by (auto simp: on_conn_def split: option.splits)
  have nw: "c_status p \<noteq> CONN_WAITING" using Ev_timer assms(3) p by (auto simp: is_waiting_iff)
  have "okR (inv_ex {}) (x_timeout_cb c w)"
    by (rule okR_mono [OF x_timeout_cb_inv [OF assms(1) p nw]]) simp
  with Ev_timer show ?thesis by simp
next
  case (Ev_upc_connected c)
  with assms(5) show ?thesis by simp
next
  case (Ev_upc_send c)
  with assms show ?thesis by (auto simp: on_conn_def x_upstream_send_cb_inv split: option.splits)
next
  case (Ev_upc_recv c)
  with assms obtain p where p: "w_conns w c = Some p" "c_upc_e_recv p"
    by (auto simp: on_conn_def split: option.splits)
  then have "upc_active p" using upc_watcher_active [OF inv_conn_ok [OF assms(1)]] by (auto simp: upc_idle_def)
  then have "conn_open p"
    using inv_conn_ok [OF assms(1) p(1)] by (simp add: conn_ok_def upstream_ok_def)
  with Ev_upc_recv p assms(1) show ?thesis by (simp add: x_upstream_recv_cb_inv)
next
  case (Ev_upc_timer c)
  with assms obtain p where p: "w_conns w c = Some p" "timer_active (c_upc_e_timer p)"
    by (auto simp: on_conn_def split: option.splits)
  then have "upc_active p" using upc_watcher_active [OF inv_conn_ok [OF assms(1)]] by (auto simp: upc_idle_def)
  with Ev_upc_timer p assms(1) show ?thesis by (simp add: x_upstream_timeout_cb_inv)
qed

lemma load_started [simp]: "ev_started (load a w) e = ev_started w e"
  by (cases e) (simp_all add: on_conn_def)

lemma load_timely [simp]: "timely (load a w) e = timely w e"
  by (cases e) (simp_all add: is_waiting_iff)

lemma load_answers [simp]: "o_accept (load a w) = a_accept a"
  by (simp add: load_def)

lemma callback_inv:
  assumes "inv_ex {} w" and "ev_started w e" and "timely w e"
  shows "okE (refuses w e a) (inv_ex {}) (callback e (load a w))"
proof (cases "e = Ev_accept \<or> (\<exists>c. e = Ev_upc_connected c)")
  case False
  then have "okR (inv_ex {}) (callback e (load a w))"
    by (intro callback_inv_plain load_inv) (use assms in auto)
  then show ?thesis by (rule okR_okE)
next
  case True
  note inv = load_inv [OF assms(1), of a]
  from True show ?thesis
  proof (elim disjE exE)
    assume e: "e = Ev_accept"
    from x_accept_cb_inv [OF inv] show ?thesis
      unfolding e callback.simps by (rule okE_weaken) (auto simp: refuses_def refused_watcher_def)
  next
    fix c
    assume e: "e = Ev_upc_connected c"
    with assms obtain p where p: "w_conns w c = Some p" "c_upc_e_connected p"
      by (auto simp: on_conn_def split: option.splits)
    then have "upc_active p" using upc_watcher_active [OF inv_conn_ok [OF assms(1)]] by (auto simp: upc_idle_def)
    with p(1) have "okE (\<lambda>f. f = Bad_watcher \<and> (\<exists>u. c_upcf p = Some u \<and> uc_timeout u < 0)) (inv_ex {})
        (callback e (load a w))"
      using x_upstream_connected_cb_inv [OF inv] by (simp add: e)
    then show ?thesis
      by (rule okE_weaken) (auto simp: refuses_def refused_watcher_def on_conn_def e p(1))
  qed
qed

lemma dispatch_inv:
  assumes "proxy_inv w" and "ev_started w e" and "timely w e"
  shows "okE (refuses w e a) proxy_inv (dispatch e a w)"
  using callback_inv assms by (simp add: dispatch_def proxy_inv_def [abs_def])

interpretation proxy: event_loop ev_started dispatch timely refuses proxy_inv
  by unfold_locales (rule dispatch_inv)

lemma x_access_listen_inv:
  assumes "x_access_listen conf sock fc bnd lst zs ms = Inr w" and "srv_ok conf"
  shows "proxy_inv w"
proof -
  obtain fd bp ms' zs2 where w: "w = \<lparr>ln_srvcf = conf, ln_bp = bp, ln_port = ac_port (sc_access conf),
                      ln_fd = fd, ln_c_count = 0, ln_cq_waiting = [], ln_cq_waiting_num = 0,
                      ln_working_num = 0, ln_e_listen = True,
                      ln_timeout = ac_timeout (sc_access conf),
                      w_conns = (\<lambda>_. None), w_next = 0, o_accept = [], o_zmalloc = zs2,
                      o_fcntl = [], o_socket = [], o_connect = [], o_sockopt = [], o_recv = [],
                      o_send = [], o_malloc = ms', w_trace = []\<rparr>"
    and bp: "x_buf_init 1 (int NODE_BUFSIZ) ms = Inr (bp, ms')"
    using assms(1) by (auto simp: x_access_listen_def split: if_splits)
  have "pool_ok bp"
    by (rule x_buf_init_ok [OF bp]) (simp_all add: NODE_BUFSIZ_def BUFSIZ_def sizeof_xtp_buf_def)
  with w assms(2) show ?thesis
    by (simp add: proxy_inv_def inv_ex_def heap_ok_def queue_ok_def is_waiting_iff count_ok_def
        waiting_idle_def connect_failures_def)
qed

subsection \<open>A small instance\<close>

text \<open>
  One upstream server, at most one upstream connection and two clients, and a pool of small
  buffers; the witnesses below run it.
\<close>

definition example_conf :: xtp_srvconf where
  "example_conf = plain_conf [\<lparr>uc_ip = ''10.0.0.1'', uc_port = 80, uc_timeout = 5\<rparr>]"

definition example_world :: world where
  "example_world = blank_world example_conf small_pool"

lemma example_world_inv: "proxy_inv example_world"
  by (simp add: example_world_def blank_world_def example_conf_def plain_conf_def proxy_inv_def inv_ex_def heap_ok_def queue_ok_def
      is_waiting_def count_ok_def waiting_idle_def connect_failures_def srv_ok_def small_pool_ok)

definition no_answers :: answers where
  "no_answers = \<lparr>a_accept = [], a_zmalloc = [], a_fcntl = [], a_socket = [], a_connect = [],
     a_sockopt = [], a_recv = [], a_send = [], a_malloc = []\<rparr>"

text \<open>A client connects; a client's socket becomes readable and holds nothing; a timer fires.\<close>

definition client_comes :: "int \<Rightarrow> event \<times> answers" where
  "client_comes fd = (Ev_accept, no_answers\<lparr>a_accept := [AcceptOk fd (127, 0, 0, 1)],
     a_zmalloc := [True], a_fcntl := [2, 0]\<rparr>)"

definition client_asks :: "nat \<Rightarrow> int list \<Rightarrow> errno option list \<Rightarrow> event \<times> answers" where
  "client_asks c so co = (Ev_recv c, no_answers\<lparr>a_recv := [RecvErr EAGAIN],
     a_malloc := [True, True, True], a_fcntl := [2, 0, 2, 0], a_socket := so, a_connect := co\<rparr>)"

definition timer_fires :: "nat \<Rightarrow> int list \<Rightarrow> errno option list \<Rightarrow> event \<times> answers" where
  "timer_fires c so co = (Ev_timer c, no_answers\<lparr>a_fcntl := [2, 0, 2, 0], a_socket := so,
     a_connect := co\<rparr>)"

definition two_clients :: "(event \<times> answers) list" where
  "two_clients = [client_comes 4, client_asks 0 [5] [Some EINPROGRESS], client_comes 6, client_asks 1 [] []]"

lemma run_returns:
  assumes "case run_events started cb allowed es s of Inl _ \<Rightarrow> False | Inr w \<Rightarrow> P w"
  obtains w where "run_events started cb allowed es s = Inr w" and "P w"
    and "ev_reach started cb allowed s w"
proof (cases "run_events started cb allowed es s")
  case (Inl f)
  with assms show ?thesis by simp
next
  case (Inr w)
  have "ev_reach started cb allowed s w" by (rule run_events_reach [OF Inr ev_reach.start])
  with Inr assms that show ?thesis by simp
qed

lemma two_clients_run:
  obtains w where "ev_reach ev_started dispatch timely example_world w" and "ln_cq_waiting w = [1]"
    and "ln_working_num w = 1" and "ln_c_count w = 2" and "connect_failures w = 0"
    and "ev_started w (Ev_timer 0)" and "timely w (Ev_timer 0)"
proof (rule run_returns)
  show "case run_events ev_started dispatch timely two_clients example_world of Inl _ \<Rightarrow> False
    | Inr w \<Rightarrow> ln_cq_waiting w = [1] \<and> ln_working_num w = 1 \<and> ln_c_count w = 2
        \<and> connect_failures w = 0 \<and> ev_started w (Ev_timer 0) \<and> timely w (Ev_timer 0)"
    by code_simp
qed (use that in blast)

subsection \<open>Properties\<close>

text \<open>The thread function brings the listener up in a state that satisfies the invariant, with
  the configured port and timeout, no connection, and a pool of one buffer if there is
  memory for it, for every configuration with at least one upstream server.\<close>

theorem x_access_listen_start:
  assumes "x_access_listen conf sock fc bnd lst zs ms = Inr w" and "srv_ok conf"
  shows "proxy_inv w \<and> ln_timeout w = ac_timeout (sc_access conf) \<and> w_conns w = (\<lambda>_. None)
    \<and> ln_fd w = sock \<and> ln_e_listen w"
  using x_access_listen_inv [OF assms] assms(1)
  by (auto simp: x_access_listen_def x_socket_bind_def Let_def split: if_splits)

theorem x_access_listen_start_witness:
  "\<exists>w. x_access_listen example_conf 3 [2, 0] 0 0 [True, True] [True] = Inr w \<and> proxy_inv w"
proof -
  obtain w where w: "x_access_listen example_conf 3 [2, 0] 0 0 [True, True] [True] = Inr w"
    by (simp add: x_access_listen_def x_socket_bind_def x_setNonBlock_def x_buf_init_def Let_def)
  from x_access_listen_start [OF w] w show ?thesis by (simp add: example_conf_def plain_conf_def srv_ok_def)
qed

text \<open>C1: No callback of a reachable state touches freed memory or a started watcher it must not
  touch, dereferences NULL, leaves an array or corrupts the waiting queue: whatever the
  system calls answer, it returns; or it aborts, or calls itself for ever, for lack of memory; or it
  uses up the answers given (a \<open>connect\<close> that always fails is called again for ever); or it hands
  libev a watcher that libev does not accept, and that only for one of three reasons: \<open>accept\<close> has just failed
  for good (the code goes on with the descriptor -1), the timeout for clients is negative, or the
  connect of a connection to a server whose configured timeout is negative has just finished.
  This is for runs in which no timer fires for a connection that is still in the waiting
  queue.\<close>

theorem proxy_memory_safe:
  assumes "proxy_inv w0" and "ev_reach ev_started dispatch timely w0 w"
    and "ev_started w e" and "timely w e" and "dispatch e a w = Inl f"
  shows "f = Aborted \<or> f = No_return \<or> f = Script_end
    \<or> f = Bad_watcher
      \<and> (e = Ev_accept \<and> (ln_timeout w < 0
            \<or> (\<exists>fd addr as. accept_loop (a_accept a) = Inr (fd, addr, as) \<and> fd < 0))
        \<or> (\<exists>c p u. e = Ev_upc_connected c \<and> w_conns w c = Some p \<and> c_upcf p = Some u \<and> uc_timeout u < 0))"
  using proxy.reach_no_fault [OF assms(2,1,3,4,5)]
  by (auto simp: soft_def refuses_def refused_watcher_def on_conn_def
      split: event.splits option.splits sum.splits)

theorem proxy_memory_safe_witness:
  "\<exists>w. ev_reach ev_started dispatch timely example_world w
    \<and> (\<forall>a f. dispatch (Ev_timer 0) a w = Inl f \<longrightarrow> f = Aborted \<or> f = No_return \<or> f = Script_end)"
proof -
  obtain w where "ev_reach ev_started dispatch timely example_world w"
    and "ev_started w (Ev_timer 0)" and "timely w (Ev_timer 0)"
    using two_clients_run by metis
  with proxy_memory_safe [OF example_world_inv] show ?thesis by blast
qed

text \<open>C11: In every reachable state the waiting queue holds each connection in phase
  \<open>CONN_WAITING\<close> exactly once and nothing else, \<open>cq_waiting_num\<close> is its length, and none of
  its connections has an open upstream socket.\<close>

theorem waiting_queue_exact:
  assumes "proxy_inv w0" and "ev_reach ev_started dispatch timely w0 w"
  shows "distinct (ln_cq_waiting w) \<and> ln_cq_waiting_num w = int (length (ln_cq_waiting w))
    \<and> set (ln_cq_waiting w) = {c. \<exists>p. w_conns w c = Some p \<and> c_status p = CONN_WAITING \<and> \<not> upc_active p}"
proof -
  have "inv_ex {} w" using proxy.reach_inv [OF assms(2,1)] by (simp add: proxy_inv_def)
  then show ?thesis
    by (auto simp: inv_ex_def queue_ok_def is_waiting_iff waiting_idle_def)
qed

theorem waiting_queue_exact_witness:
  "\<exists>w p. ev_reach ev_started dispatch timely example_world w \<and> ln_cq_waiting w = [1]
    \<and> w_conns w 1 = Some p \<and> c_status p = CONN_WAITING"
proof -
  obtain w where w: "ev_reach ev_started dispatch timely example_world w" "ln_cq_waiting w = [1]"
    using two_clients_run by metis
  have "1 \<in> set (ln_cq_waiting w)" using w(2) by simp
  with waiting_queue_exact [OF example_world_inv w(1)] w show ?thesis by blast
qed

text \<open>C8: The proxy never serves more clients than \<open>access.max\<close>: in every reachable state the
  counter \<open>c_count\<close> is the number of connections that are not closed, and it does not exceed
  the limit.\<close>

theorem accept_limit:
  assumes "proxy_inv w0" and "ev_reach ev_started dispatch timely w0 w"
  shows "ln_c_count w = int (card {c. \<exists>p. w_conns w c = Some p \<and> c_status p \<noteq> CONN_CLOSE})
    \<and> ln_c_count w \<le> max 0 (ac_max (sc_access (ln_srvcf w)))"
proof -
  have "inv_ex {} w" using proxy.reach_inv [OF assms(2,1)] by (simp add: proxy_inv_def)
  then show ?thesis by (simp add: inv_ex_def count_ok_def cnt_def conn_open_def)
qed

theorem accept_limit_witness:
  "\<exists>w. ev_reach ev_started dispatch timely example_world w
    \<and> card {c. \<exists>p. w_conns w c = Some p \<and> c_status p \<noteq> CONN_CLOSE} = 2"
proof -
  obtain w where w: "ev_reach ev_started dispatch timely example_world w" "ln_c_count w = 2"
    using two_clients_run by metis
  with accept_limit [OF example_world_inv w(1)] show ?thesis by auto
qed

text \<open>C12: No connection is forgotten: in every reachable state an open connection has its read
  watcher and its timer started, and its write watcher too once the upstream side is closed; a
  closed one has nothing started but the timer that frees it after \<open>CONN_FREE_TIMEOUT\<close>.  An
  upstream socket that is open is being read, and is waiting for its connect to finish as long as it
  has not.\<close>

theorem connection_watchers:
  assumes "proxy_inv w0" and "ev_reach ev_started dispatch timely w0 w" and "w_conns w c = Some p"
  shows "(if c_status p \<noteq> CONN_CLOSE
      then c_e_recv p \<and> timer_active (c_e_timer p) \<and> (c_upc_status p = CONN_CLOSE \<longrightarrow> c_e_send p)
      else \<not> c_e_recv p \<and> \<not> c_e_send p \<and> upc_idle p \<and> c_e_timer p = Timer_again CONN_FREE_TIMEOUT
        \<and> timer_active (c_e_timer p))
    \<and> (if c_upc_status p \<in> {CONN_NONE, CONN_CLOSE} then upc_idle p
       else c_upc_e_recv p \<and> (c_upc_status p = CONN_CONNECT \<longrightarrow> c_upc_e_connected p))"
proof -
  have "inv_ex {} w" using proxy.reach_inv [OF assms(2,1)] by (simp add: proxy_inv_def)
  from inv_conn_ok [OF this assms(3)] show ?thesis
    by (auto simp: conn_ok_def client_ok_def upstream_ok_def conn_open_def upc_active_def
        CONN_FREE_TIMEOUT_def split: if_split_asm)
qed

theorem connection_watchers_witness:
  "\<exists>w p. ev_reach ev_started dispatch timely example_world w \<and> w_conns w 1 = Some p
    \<and> c_e_recv p \<and> timer_active (c_e_timer p)"
proof -
  obtain w where w: "ev_reach ev_started dispatch timely example_world w" "ln_cq_waiting w = [1]"
    using two_clients_run by metis
  have "inv_ex {} w" using proxy.reach_inv [OF w(1) example_world_inv] by (simp add: proxy_inv_def)
  with w(2) obtain p where "w_conns w 1 = Some p" "c_status p = CONN_WAITING"
    using queue_head by blast
  with connection_watchers [OF example_world_inv w(1)] w(1) show ?thesis by force
qed

text \<open>C13: In every reachable state the buffers of every connection lie inside their blocks and only
  the last buffer of a chain has room.\<close>

theorem connection_buffers:
  assumes "proxy_inv w0" and "ev_reach ev_started dispatch timely w0 w" and "w_conns w c = Some p"
    and "pipe = c_pipe1 p \<or> pipe = c_pipe2 p" and "b \<in> set pipe"
  shows "b_start b \<le> b_pos b \<and> b_pos b \<le> b_last b \<and> b_last b \<le> b_end b \<and> b_end b < length (b_mem b)
    \<and> (b \<in> set (butlast pipe) \<longrightarrow> b_last b = b_end b)"
proof -
  have inv: "inv_ex {} w" using proxy.reach_inv [OF assms(2,1)] by (simp add: proxy_inv_def)
  from inv_conn_ok [OF this assms(3)] assms(4) have pipe: "pipe_ok (ln_bp w) pipe"
    by (auto simp: conn_ok_def)
  with assms(5) have "buf_ok (ln_bp w) b" by (simp add: pipe_ok_def)
  from buf_ok_bounds [OF inv_pool_ok [OF inv] this] pipe show ?thesis by (simp add: pipe_ok_def)
qed

theorem connection_buffers_witness:
  "\<exists>w p b. ev_reach ev_started dispatch timely example_world w \<and> w_conns w 0 = Some p
    \<and> c_pipe1 p = [b] \<and> b_last b \<le> b_end b \<and> b_end b < length (b_mem b)"
proof -
  have "case run_events ev_started dispatch timely two_clients example_world of Inl _ \<Rightarrow> False
    | Inr w \<Rightarrow> on_conn w 0 (\<lambda>p. length (c_pipe1 p) = 1)"
    by code_simp
  then obtain w where w: "ev_reach ev_started dispatch timely example_world w"
      "on_conn w 0 (\<lambda>p. length (c_pipe1 p) = 1)"
    by (rule run_returns) auto
  then obtain p b where p: "w_conns w 0 = Some p" "c_pipe1 p = [b]"
    by (auto simp: on_conn_def length_Suc_conv split: option.splits)
  from connection_buffers [OF example_world_inv w(1) p(1), of "c_pipe1 p" b] p w(1) show ?thesis by auto
qed

subsection \<open>The timer of a waiting connection\<close>

text \<open>
  \<open>x_timeout_cb\<close> overwrites the phase with \<open>CONN_TIMEOUT\<close> before it calls \<open>x_event_close\<close>, which
  takes the connection from the queue only in phase \<open>CONN_WAITING\<close>.
\<close>

lemma timeout_close:
  assumes "inv_ex {} w" and "w_conns w c = Some p" and "c_status p = CONN_WAITING"
  shows "x_event_close c (put_conn c (p\<lparr>c_status := CONN_TIMEOUT\<rparr>) w)
    = Inr ((log_sys (Sys_close (c_fd p)) (put_conn c (closed_conn p) w))
        \<lparr>ln_c_count := ln_c_count w - 1\<rparr>)"
proof -
  let ?p = "p\<lparr>c_status := CONN_TIMEOUT\<rparr>"
  have na: "\<not> upc_active ?p" and upcf: "\<not> (c_upc_status ?p \<noteq> CONN_NONE \<and> c_upcf ?p = None)"
    using inv_waiting_idle [OF assms] inv_conn_ok [OF assms(1,2)]
    unfolding conn_ok_def upstream_ok_def upc_active_def by auto
  have fin: "x_upstream_final c (put_conn c ?p w) = Inr (put_conn c ?p w)"
    by (rule x_upstream_final_inactive) (use na in simp_all)
  have get: "get_conn c (put_conn c q w) = Inr q" for q by (simp add: get_conn_def)
  show ?thesis
    unfolding x_event_close_def get bindR_simps if_not_P [OF upcf]
    using fin by (simp add: get Let_def upd_conn_def put_conn_log put_conn_twice closed_conn_def get_conn_def
        del: bindR_Inr_iff)
qed

text \<open>C14: When the timer of a waiting connection fires, the connection is freed and stays in the
  waiting queue: the queue, and its length counter, are unchanged, and the address in it is no
  longer allocated.\<close>

theorem waiting_timeout_dangles:
  assumes "proxy_inv w" and "w_conns w c = Some p" and "c_status p = CONN_WAITING"
  shows "\<exists>w'. x_timeout_cb c w = Inr w' \<and> w_conns w' c = None \<and> c \<in> set (ln_cq_waiting w')
    \<and> ln_cq_waiting w' = ln_cq_waiting w \<and> ln_cq_waiting_num w' = ln_cq_waiting_num w"
proof -
  have inv: "inv_ex {} w" using assms(1) by (simp add: proxy_inv_def)
  have idle: "upc_idle p"
    using inv_waiting_idle [OF inv assms(2,3)] inv_conn_ok [OF inv assms(2)]
    by (simp add: conn_ok_def upstream_ok_def)
  have inq: "c \<in> set (ln_cq_waiting w)" using in_queue_iff [OF inv assms(2)] assms(3) by simp
  show ?thesis
    using assms(2,3) idle inq timeout_close [OF inv assms(2,3)]
    by (simp add: x_timeout_cb_def get_conn_def Let_def zfree_conn_def conn_idle_def upc_idle_def
        closed_conn_def)
qed

theorem waiting_timeout_dangles_witness:
  "\<exists>w w'. ev_reach ev_started dispatch timely example_world w \<and> x_timeout_cb 1 w = Inr w'
    \<and> ln_cq_waiting w' = [1] \<and> w_conns w' 1 = None"
proof -
  obtain w where w: "ev_reach ev_started dispatch timely example_world w" "ln_cq_waiting w = [1]"
    using two_clients_run by metis
  have inv: "proxy_inv w" using proxy.reach_inv [OF w(1) example_world_inv] .
  with w(2) obtain p where "w_conns w 1 = Some p" "c_status p = CONN_WAITING"
    using queue_head by (metis proxy_inv_def)
  from waiting_timeout_dangles [OF inv this] w show ?thesis by auto
qed

text \<open>C15: The free place that comes up next is then offered to the freed connection: with a place
  free and a freed connection at the head of the queue, \<open>x_upstream_handle\<close> uses freed memory,
  whatever \<open>socket\<close> and \<open>connect\<close> answer.\<close>

theorem dangling_head_faults:
  assumes "ln_cq_waiting w = c # q" and "w_conns w c = None" and "srv_ok (ln_srvcf w)"
    and "ln_working_num w < sc_working_num_max (ln_srvcf w)"
    and "o_socket w \<noteq> []" and "2 \<le> length (o_fcntl w)"
  shows "x_upstream_handle w = Inl Use_after_free"
proof -
  obtain fd so where so: "o_socket w = fd # so" using assms(5) by (cases "o_socket w") auto
  obtain f1 f2 fc where fc: "o_fcntl w = f1 # f2 # fc"
    using assms(6) by (auto simp: numeral_2_eq_2 Suc_le_length_iff)
  obtain peer where ch: "x_upstream_choose_peer (Some (ln_srvcf w)) = Inr (Some peer,
      Some ((ln_srvcf w)\<lparr>sc_upstream_index :=
        sc_upstream_index (ln_srvcf w) mod sc_upstream_num (ln_srvcf w) + 1\<rparr>))"
    using choose_peer_ok [OF assms(3)] by blast
  have "x_upstream_init c w = Inl Use_after_free"
    using assms(2) so fc
    by (simp add: x_upstream_init_def ch x_upstream_connection_new_def x_setNonBlock_def Let_def
        get_conn_def upd_conn_def)
  then show ?thesis using assms(1,4) by (simp add: x_upstream_handle.simps [of w])
qed

text \<open>
  The witness is the whole story: the second client waits, its timer fires, the first client
  leaves, and the proxy crashes.
\<close>

definition crash :: "(event \<times> answers) list" where
  "crash = two_clients @ [timer_fires 1 [] [], timer_fires 0 [7] [None]]"

theorem dangling_head_faults_witness:
  "x_upstream_handle (example_world\<lparr>ln_cq_waiting := [1], o_socket := [7], o_fcntl := [2, 0]\<rparr>)
      = Inl Use_after_free
    \<and> (case run_events ev_started dispatch (\<lambda>_ _. True) crash example_world of
         Inl f \<Rightarrow> f = Use_after_free | Inr _ \<Rightarrow> False)"
proof
  show "x_upstream_handle (example_world\<lparr>ln_cq_waiting := [1], o_socket := [7], o_fcntl := [2, 0]\<rparr>)
      = Inl Use_after_free"
    by (rule dangling_head_faults [of _ 1 "[]"])
      (simp_all add: example_world_def blank_world_def example_conf_def plain_conf_def srv_ok_def)
  show "case run_events ev_started dispatch (\<lambda>_ _. True) crash example_world of
         Inl f \<Rightarrow> f = Use_after_free | Inr _ \<Rightarrow> False"
    by code_simp
qed

end
