(* ===== verification/Server.thy ===== *)
theory Server
  imports Conf_Load Proxy
begin

section \<open>The server and its thread (src/xtp\_server.c, src/xtp\_thread.c)\<close>

text \<open>
  The server's two blocks come from \<open>zmalloc\<close> (its answers are the list \<open>oks\<close>) and are left
  uninitialised; the model keeps their addresses and the fields the program sets.  The
  function a thread runs is a value of its record, its argument the server.
\<close>

definition sizeof_server :: size_t where "sizeof_server = 24"
definition sizeof_thread :: size_t where "sizeof_thread = 56"

datatype thread_fun = X_access_in

record xtp_server =
  sv_self :: nat
  sv_thr :: nat
  sv_srvconf :: "conf_mem option"

record xtp_thread =
  th_pid :: "nat option"
  th_arg :: "xtp_server option"
  th_func :: "thread_fun option"
  th_detached :: bool

definition x_server_new :: "bool list \<Rightarrow> zstate \<Rightarrow> fault + (xtp_server \<times> bool list \<times> zstate)" where
  "x_server_new oks z =
     bindR (zalloc sizeof_server oks z) (\<lambda>(srv, oks1, z1).
       bindR (zalloc sizeof_thread oks1 z1) (\<lambda>(thr, oks2, z2).
         Inr (\<lparr>sv_self = srv, sv_thr = thr, sv_srvconf = None\<rparr>, oks2, z2)))"

definition x_server_destroy :: "xtp_server option \<Rightarrow> zstate \<Rightarrow> fault + zstate" where
  "x_server_destroy srv z =
     (case srv of
        None \<Rightarrow> Inr z
      | Some s \<Rightarrow> bindR (zfree (Some (sv_thr s)) z) (zfree (Some (sv_self s))))"

definition blank_thread :: xtp_thread where
  "blank_thread = \<lparr>th_pid = None, th_arg = None, th_func = None, th_detached = False\<rparr>"

text \<open>
  \<open>x_thread_fork\<close>: \<open>create\<close> is the answer of \<open>pthread_create\<close>, an error or the thread's id, and
  \<open>detach\<close> that of \<open>pthread_detach\<close>.
\<close>

definition x_thread_fork ::
  "int + nat \<Rightarrow> int \<Rightarrow> xtp_server \<Rightarrow> xtp_thread \<Rightarrow> int \<times> xtp_thread" where
  "x_thread_fork create detach arg t =
     (let t1 = t\<lparr>th_arg := Some arg\<rparr> in
      case create of
        Inl e \<Rightarrow> (e, t1)
      | Inr pid \<Rightarrow> (detach, t1\<lparr>th_pid := Some pid, th_detached := detach = 0\<rparr>))"

text \<open>\<open>x_access_new\<close> does not look at what \<open>x_thread_fork\<close> returns.\<close>

definition x_access_new :: "int + nat \<Rightarrow> int \<Rightarrow> xtp_server \<Rightarrow> xtp_thread \<Rightarrow> xtp_thread" where
  "x_access_new create detach srv thr =
     snd (x_thread_fork create detach srv (thr\<lparr>th_func := Some X_access_in\<rparr>))"

text \<open>
  The thread: its function called with its argument, up to the start of the event loop.  The
  thread of a server without a configuration would read through a NULL pointer.
\<close>

definition x_thread_func ::
  "int \<Rightarrow> u32 list \<Rightarrow> int \<Rightarrow> int \<Rightarrow> bool list \<Rightarrow> bool list \<Rightarrow> xtp_thread \<Rightarrow> fault + world option" where
  "x_thread_func sock fc bnd lst zs ms t =
     (case th_func t of
        None \<Rightarrow> Inl Null_deref
      | Some X_access_in \<Rightarrow>
          (case th_arg t of
             None \<Rightarrow> Inr None
           | Some srv \<Rightarrow>
               (case sv_srvconf srv of
                  None \<Rightarrow> Inl Null_deref
                | Some cm \<Rightarrow>
                    bindR (x_access_listen (cm_conf cm) sock fc bnd lst zs ms) (\<lambda>w. Inr (Some w)))))"

subsection \<open>Memory\<close>

lemma x_server_new_grown:
  assumes "x_server_new oks z = Inr (srv, oks', z')" and "z_ok z"
  shows "zgrown z [sv_self srv, sv_thr srv] z'" and "sv_srvconf srv = None"
proof -
  from assms(1) obtain s t oks1 z1 where
    a: "zalloc sizeof_server oks z = Inr (s, oks1, z1)" "zalloc sizeof_thread oks1 z1 = Inr (t, oks', z')"
    and srv: "srv = \<lparr>sv_self = s, sv_thr = t, sv_srvconf = None\<rparr>"
    by (auto simp: x_server_new_def)
  show "zgrown z [sv_self srv, sv_thr srv] z'"
    using zalloc_grown [OF zgrown_single [OF assms(2) a(1)] a(2)] by (simp add: srv)
  show "sv_srvconf srv = None" by (simp add: srv)
qed

lemma x_server_destroy_spec:
  assumes "zgrown z [sv_self srv, sv_thr srv] z'" and "z_ok z"
  shows "\<exists>z''. x_server_destroy (Some srv) z' = Inr z'' \<and> z_ok z'' \<and> z_blocks z'' = z_blocks z
    \<and> z_used z'' = z_used z"
proof -
  have "distinct [sv_thr srv, sv_self srv]" using assms(1) by (auto simp: zgrown_def)
  from zgrown_give_back [OF assms this] obtain z''
    where "give_all zgive [sv_thr srv, sv_self srv] z' = Some z''" "z_ok z''"
      "z_blocks z'' = z_blocks z" "z_used z'' = z_used z" by auto
  then show ?thesis
    by (auto simp: x_server_destroy_def zgive_zfree split: option.split_asm)
qed

subsection \<open>Properties\<close>

text \<open>\<open>x_server_destroy\<close> undoes \<open>x_server_new\<close>: it frees the server and its thread record and
  leaves the heap and the count of used memory as they were; freeing the server twice is a
  use of freed memory.\<close>

theorem server_new_destroy:
  assumes "x_server_new oks z = Inr (srv, oks', z')" and "z_ok z"
  shows "\<exists>z''. x_server_destroy (Some srv) z' = Inr z'' \<and> z_ok z'' \<and> z_blocks z'' = z_blocks z
    \<and> zmalloc_used_memory z'' = zmalloc_used_memory z
    \<and> x_server_destroy (Some srv) z'' = Inl Use_after_free"
proof -
  note grow = x_server_new_grown(1) [OF assms]
  have "z_blocks z (sv_thr srv) = None" using grow by (auto simp: zgrown_def)
  with x_server_destroy_spec [OF grow assms(2)] show ?thesis
    by (fastforce simp: zmalloc_used_memory_def x_server_destroy_def zfree_def)
qed

theorem server_new_destroy_witness:
  "\<exists>srv z z''. x_server_new [True, True] z_start = Inr (srv, [], z)
    \<and> x_server_destroy (Some srv) z = Inr z'' \<and> zmalloc_used_memory z'' = 0"
proof -
  have "case x_server_new [True, True] z_start of Inl _ \<Rightarrow> False | Inr (srv, oks, z) \<Rightarrow> oks = []"
    by code_simp
  then obtain srv z where "x_server_new [True, True] z_start = Inr (srv, [], z)"
    by (auto split: sum.splits prod.splits)
  with server_new_destroy [OF this z_start_ok] show ?thesis
    by (auto simp: zmalloc_used_memory_def z_start_def)
qed

text \<open>\<open>x_access_new\<close> gives the thread the function \<open>x_access_in\<close> and the server as its argument,
  so that the thread, once created, starts the listener with the server's configuration: it
  brings up a state satisfying the invariant when the configuration has an upstream server.\<close>

theorem access_new_starts_listener:
  assumes "sv_srvconf srv = Some cm" and "srv_ok (cm_conf cm)"
    and "x_thread_func sock fc bnd lst zs ms (x_access_new (Inr pid) detach srv thr) = Inr r"
  shows "\<exists>w. r = Some w \<and> proxy_inv w \<and> ln_srvcf w = cm_conf cm \<and> ln_fd w = sock"
proof -
  from assms(1,3) obtain w where w: "r = Some w" "x_access_listen (cm_conf cm) sock fc bnd lst zs ms = Inr w"
    by (auto simp: x_thread_func_def x_access_new_def x_thread_fork_def)
  moreover have "ln_srvcf w = cm_conf cm" "ln_fd w = sock"
    using w(2) by (auto simp: x_access_listen_def x_socket_bind_def Let_def split: if_splits)
  ultimately show ?thesis using x_access_listen_inv [OF w(2) assms(2)] by blast
qed

theorem access_new_starts_listener_witness:
  "\<exists>w. x_thread_func 3 [2, 0] 0 0 [True, True] [True]
      (x_access_new (Inr 7) 0 \<lparr>sv_self = 0, sv_thr = 1, sv_srvconf = Some \<lparr>cm_conf = example_conf,
         cm_self = 2, cm_table = 3, cm_entries = [4]\<rparr>\<rparr> blank_thread) = Inr (Some w)
    \<and> proxy_inv w"
proof -
  let ?srv = "\<lparr>sv_self = 0, sv_thr = 1, sv_srvconf = Some \<lparr>cm_conf = example_conf,
         cm_self = 2, cm_table = 3, cm_entries = [4]\<rparr>\<rparr>"
  obtain w where w: "x_access_listen example_conf 3 [2, 0] 0 0 [True, True] [True] = Inr w"
    by (simp add: x_access_listen_def x_socket_bind_def x_setNonBlock_def x_buf_init_def Let_def)
  then have run: "x_thread_func 3 [2, 0] 0 0 [True, True] [True] (x_access_new (Inr 7) 0 ?srv blank_thread)
      = Inr (Some w)"
    by (simp add: x_thread_func_def x_access_new_def x_thread_fork_def)
  have "srv_ok example_conf" by (simp add: example_conf_def plain_conf_def srv_ok_def)
  with access_new_starts_listener [of ?srv, OF _ _ run] run show ?thesis by auto
qed

end
