(* ===== verification/Log.thy ===== *)
theory Log
  imports Prelude "HOL-Library.Sublist" "HOL-Library.Word"
begin

section \<open>The logger (src/log.c, src/log.h)\<close>

text \<open>
  Five levels share an array of handlers; a handler is a heap object with the name of its
  file, whether that file is open, and how much has been written to it.  What the logger does
  to the outside is recorded: the lines appended to each file, the lines on standard error,
  and the hard links it makes.  The formatted message and the answers of the system (time,
  process id, sizes of files, success of \<open>fopen\<close>) are arguments.  A call is one
  step here; \<open>Log_Threads\<close> has the mutex of each handler, and calls that interleave.
\<close>

abbreviation (input) LOG_LEVEL_NORMAL :: int where "LOG_LEVEL_NORMAL \<equiv> 0"
abbreviation (input) LOG_LEVEL_DEBUG :: int where "LOG_LEVEL_DEBUG \<equiv> 1"
abbreviation (input) LOG_LEVEL_INFO :: int where "LOG_LEVEL_INFO \<equiv> 2"
abbreviation (input) LOG_LEVEL_WARN :: int where "LOG_LEVEL_WARN \<equiv> 3"
abbreviation (input) LOG_LEVEL_ERR :: int where "LOG_LEVEL_ERR \<equiv> 4"
abbreviation (input) LOG_LEVEL_NONE :: int where "LOG_LEVEL_NONE \<equiv> 5"

definition XNET_PATH_LEN :: nat where "XNET_PATH_LEN = 1024"
definition XNET_LOGNAME_LEN :: nat where "XNET_LOGNAME_LEN = 512"

record log_handler =
  h_type :: int
  h_filename :: string
  h_fp :: bool
  h_count :: nat
  h_cursize :: int

record logger =
  lg_maxsize :: int
  lg_max_level :: int
  lg_is_debug :: int
  lg_is_inited :: bool
  lg_handler :: "nat option list"
  lg_heap :: "nat \<rightharpoonup> log_handler"
  lg_next :: nat
  g_log_level :: int
  g_path_buf :: string
  g_err_link_path :: string
  g_nor_link_path :: string
  lg_files :: "(string \<times> string) list"
  lg_stderr :: "string list"
  lg_links :: "(string \<times> string) list"

text \<open>The static variables at the start of the program.\<close>

definition logger_static :: logger where
  "logger_static = \<lparr>lg_maxsize = 0, lg_max_level = 0, lg_is_debug = 0, lg_is_inited = False,
     lg_handler = [None, None, None, None, None], lg_heap = (\<lambda>_. None), lg_next = 0,
     g_log_level = LOG_LEVEL_NORMAL, g_path_buf = [], g_err_link_path = [], g_nor_link_path = [],
     lg_files = [], lg_stderr = [], lg_links = []\<rparr>"

record tm =
  tm_year :: int
  tm_mon :: nat
  tm_mday :: nat
  tm_hour :: nat
  tm_min :: nat
  tm_sec :: nat

subsection \<open>File names\<close>

definition printf_d :: "int \<Rightarrow> string" where
  "printf_d i = (if i < 0 then ''-'' @ dec (nat (- i)) else dec (nat i))"

definition printf_02d :: "int \<Rightarrow> string" where
  "printf_02d i = (if i < 0 then printf_d i else dec02 (nat i))"

definition snprintf :: "nat \<Rightarrow> string \<Rightarrow> string" where
  "snprintf n s = take (n - 1) s"

definition error_name :: "string \<Rightarrow> tm \<Rightarrow> string" where
  "error_name path t = snprintf XNET_LOGNAME_LEN
     (path @ ''/error/'' @ printf_d (tm_year t + 1900) @ dec02 (tm_mon t + 1) @ dec02 (tm_mday t) @ ''.log'')"

definition hour_stamp :: "tm \<Rightarrow> string" where
  "hour_stamp t = printf_02d (tm_year t + 1900 - 2000) @ dec02 (tm_mon t + 1) @ dec02 (tm_mday t)
     @ dec02 (tm_hour t)"

definition log_name :: "string \<Rightarrow> int \<Rightarrow> tm \<Rightarrow> string" where
  "log_name path ty t = snprintf XNET_LOGNAME_LEN
     (path @ ''/log/'' @ printf_d ty @ ''_'' @ hour_stamp t @ ''.log'')"

definition numbered_name :: "string \<Rightarrow> int \<Rightarrow> tm \<Rightarrow> nat \<Rightarrow> string" where
  "numbered_name path ty t k = snprintf XNET_LOGNAME_LEN
     (path @ ''/log/'' @ printf_d ty @ ''_'' @ hour_stamp t @ ''.log_'' @ dec k)"

subsection \<open>Start-up\<close>

text \<open>A handler's first file name; the file of a fresh handler is not open.\<close>

definition name_handler :: "string \<Rightarrow> log_handler \<Rightarrow> log_handler" where
  "name_handler nm h =
     (if h_filename h \<noteq> nm then h\<lparr>h_filename := nm, h_fp := False\<rparr> else h)"

definition calloc_handler :: "int \<Rightarrow> log_handler" where
  "calloc_handler ty = \<lparr>h_type = ty, h_filename = [], h_fp = False, h_count = 0, h_cursize = 0\<rparr>"

text \<open>
  \<open>cwd\<close> is what \<open>getcwd\<close> finds, which must fit into its buffer.  \<open>dirs\<close> tells of the directories \<open>log\<close> and \<open>error\<close> whether they exist or can be made, \<open>mem\<close> of
  the two \<open>calloc\<close> calls whether they succeed.  A path that fills \<open>g_path_buf\<close> leaves it without
  the terminating NUL that the next \<open>snprintf\<close> looks for.  The limit is computed in an \<open>int\<close>.
\<close>

definition logger_init ::
  "string option \<Rightarrow> bool \<times> bool \<Rightarrow> bool \<times> bool \<Rightarrow> tm option \<Rightarrow> int \<Rightarrow> int \<Rightarrow> string option \<Rightarrow> logger
    \<Rightarrow> fault + logger" where
  "logger_init cwd dirs mem now filesize is_debug root st =
     (let path = (case root of
            None \<Rightarrow> (case cwd of None \<Rightarrow> [] | Some d \<Rightarrow> if length d < XNET_PATH_LEN - 1 then d else [])
          | Some r \<Rightarrow> take XNET_PATH_LEN r);
          st1 = st\<lparr>g_path_buf := path, g_err_link_path := [], g_nor_link_path := []\<rparr>
      in
      if XNET_PATH_LEN \<le> length path then Inl Out_of_bounds
      else if \<not> fst dirs then Inr st1
      else if \<not> snd dirs then Inr st1
      else if \<not> fst mem \<or> \<not> snd mem then Inl Null_deref
      else
        let p0 = lg_next st1; p4 = lg_next st1 + 1;
            h0 = calloc_handler 0; h4 = calloc_handler 4;
            h0' = (case now of None \<Rightarrow> h0 | Some t \<Rightarrow> name_handler (log_name path (h_type h0) t) h0);
            h4' = (case now of None \<Rightarrow> h4 | Some t \<Rightarrow> name_handler (error_name path t) h4)
        in Inr (st1\<lparr>lg_is_inited := True, lg_max_level := 5, lg_is_debug := is_debug,
             lg_maxsize := sint (word_of_int filesize * 1024 * 1024 :: 32 word),
             lg_handler := [Some p0, Some p0, Some p0, Some p0, Some p4],
             lg_heap := (lg_heap st1)(p0 \<mapsto> h0', p4 \<mapsto> h4'), lg_next := lg_next st1 + 2\<rparr>))"

definition set_log_level :: "int \<Rightarrow> logger \<Rightarrow> logger" where
  "set_log_level level st = st\<lparr>lg_is_debug := level\<rparr>"

definition change_log_path :: "tm option \<Rightarrow> bool \<Rightarrow> int \<Rightarrow> logger \<Rightarrow> fault + logger" where
  "change_log_path now mem level st =
     (if level \<le> 0 \<or> level = 4 \<or> 5 \<le> level then Inr st
      else if \<not> mem then Inl Null_deref
      else
        let p = lg_next st; h = calloc_handler level;
            h' = (case now of None \<Rightarrow> h
                  | Some t \<Rightarrow> name_handler (log_name (g_path_buf st) (h_type h) t) h)
        in Inr (st\<lparr>lg_handler := (lg_handler st)[nat level := Some p],
                   lg_heap := (lg_heap st)(p \<mapsto> h'), lg_next := p + 1\<rparr>))"

subsection \<open>Choosing the file\<close>

text \<open>\<open>sizes\<close> is what \<open>stat\<close> says of a file: its size, or that there is none.\<close>

definition check_file_size :: "(string \<Rightarrow> int option) \<Rightarrow> int \<Rightarrow> string \<Rightarrow> bool" where
  "check_file_size sizes maxsize filename =
     (case sizes filename of None \<Rightarrow> False | Some sz \<Rightarrow> maxsize < sz)"

text \<open>The \<open>do\<close> loop over the numbered names; \<open>None\<close> says that it does not end.\<close>

partial_function (option) next_free :: "(nat \<Rightarrow> bool) \<Rightarrow> nat \<Rightarrow> nat option" where
  "next_free full n = (if full (n + 1) then next_free full (n + 1) else Some (n + 1))"

declare next_free.simps [code]

text \<open>
  \<open>fix_log_filename\<close>: the handler afterwards and the link path it prepares (\<open>Inl\<close> the error
  log's, \<open>Inr\<close> the other's).
\<close>

definition fix_log_filename ::
  "string \<Rightarrow> int \<Rightarrow> (string \<Rightarrow> int option) \<Rightarrow> tm option \<Rightarrow> log_handler \<Rightarrow> int
    \<Rightarrow> (log_handler \<times> (string + string) option) option" where
  "fix_log_filename path maxsize sizes now h msg_size =
     (case now of
        None \<Rightarrow> Some (h, None)
      | Some t \<Rightarrow>
          let nm = (if h_type h = LOG_LEVEL_ERR then error_name path t else log_name path (h_type h) t);
              link = (if h_type h = LOG_LEVEL_ERR then Inl (snprintf XNET_PATH_LEN (path @ ''/error/error.log''))
                      else Inr (snprintf XNET_PATH_LEN (path @ ''/log/Disp.log'')))
          in
          if take (length nm) (h_filename h) \<noteq> nm then
            Some (h\<lparr>h_filename := nm, h_fp := False\<rparr>, Some link)
          else if 0 < maxsize \<and> maxsize \<le> h_cursize h + msg_size then
            map_option (\<lambda>k. (h\<lparr>h_fp := False, h_count := k,
                 h_filename := numbered_name path (h_type h) t k, h_cursize := 0\<rparr>, Some link))
              (next_free (\<lambda>k. check_file_size sizes maxsize (numbered_name path (h_type h) t k)) (h_count h))
          else Some (h, Some link))"

subsection \<open>Writing\<close>

definition write_log :: "bool \<Rightarrow> nat \<Rightarrow> string \<Rightarrow> string \<Rightarrow> logger \<Rightarrow> fault + logger" where
  "write_log fopen p date msg st =
     (case lg_heap st p of
        None \<Rightarrow> Inl Use_after_free
      | Some h \<Rightarrow>
          if \<not> h_fp h \<and> \<not> fopen then Inr st
          else
            let st1 = (if h_fp h then st
                       else if sublist ''error'' (h_filename h)
                       then st\<lparr>lg_links := lg_links st @ [(h_filename h, g_err_link_path st)]\<rparr>
                       else st\<lparr>lg_links := lg_links st @ [(h_filename h, g_nor_link_path st)]\<rparr>);
                line = date @ '': '' @ msg @ [CHR 0x0A]
            in Inr (st1\<lparr>lg_heap := (lg_heap st1)(p \<mapsto> h\<lparr>h_fp := True,
                           h_cursize := h_cursize h + int (length line)\<rparr>),
                        lg_files := lg_files st1 @ [(h_filename h, line)]\<rparr>))"

definition level_tag :: "int \<Rightarrow> string" where
  "level_tag level = (if level = LOG_LEVEL_INFO then '' [INFO]''
     else if level = LOG_LEVEL_DEBUG then '' [DEBUG]''
     else if level = LOG_LEVEL_WARN then '' [WARN]'' else '' [ERROR]'')"

definition log_date :: "tm \<Rightarrow> int \<Rightarrow> int \<Rightarrow> string" where
  "log_date t pid level = snprintf 256
     (printf_d (1900 + tm_year t) @ ''-'' @ dec02 (tm_mon t + 1) @ ''-'' @ dec02 (tm_mday t) @ '' ''
       @ dec02 (tm_hour t) @ '':'' @ dec02 (tm_min t) @ '':'' @ dec02 (tm_sec t)
       @ '' PID:'' @ printf_d pid @ level_tag level)"

record log_env =
  env_tv :: tm
  env_now :: "tm option"
  env_pid :: int
  env_sizes :: "string \<Rightarrow> int option"
  env_fopen :: bool

definition logger_log :: "log_env \<Rightarrow> int \<Rightarrow> string \<Rightarrow> logger \<Rightarrow> fault + logger" where
  "logger_log env level msg st =
     (if level < 0 \<or> int (length (lg_handler st)) \<le> level then Inl Out_of_bounds
      else case lg_handler st ! nat level of
        None \<Rightarrow> Inr st
      | Some p \<Rightarrow>
          if level \<noteq> LOG_LEVEL_ERR \<and> level < g_log_level st then Inr st
          else (case lg_heap st p of
            None \<Rightarrow> Inl Use_after_free
          | Some h \<Rightarrow>
              let date = log_date (env_tv env) (env_pid env) level in
              (case fix_log_filename (g_path_buf st) (lg_maxsize st) (env_sizes env) (env_now env) h
                      (256 + int (length msg)) of
                 None \<Rightarrow> Inl No_return
               | Some (h', link) \<Rightarrow>
                   let st1 = st\<lparr>lg_heap := (lg_heap st)(p \<mapsto> h'),
                               g_err_link_path := (case link of Some (Inl l) \<Rightarrow> l | _ \<Rightarrow> g_err_link_path st),
                               g_nor_link_path := (case link of Some (Inr l) \<Rightarrow> l | _ \<Rightarrow> g_nor_link_path st)\<rparr>
                   in bindR (write_log (env_fopen env) p date msg st1) (\<lambda>st2.
                        Inr (if lg_is_debug st2 = LOG_LEVEL_DEBUG
                             then st2\<lparr>lg_stderr := lg_stderr st2 @ [date @ '': '' @ msg @ [CHR 0x0A]]\<rparr>
                             else st2)))))"

definition x_log_info :: "log_env \<Rightarrow> string \<Rightarrow> logger \<Rightarrow> fault + logger" where
  "x_log_info env msg st =
     (if \<not> lg_is_inited st then Inr st
      else if LOG_LEVEL_INFO < lg_is_debug st then Inr st
      else logger_log env LOG_LEVEL_INFO msg st)"

definition x_log_warn :: "log_env \<Rightarrow> string \<Rightarrow> logger \<Rightarrow> fault + logger" where
  "x_log_warn env msg st =
     (if \<not> lg_is_inited st then Inr st
      else if LOG_LEVEL_WARN < lg_is_debug st then Inr st
      else logger_log env LOG_LEVEL_WARN msg st)"

definition x_log_err :: "log_env \<Rightarrow> string \<Rightarrow> logger \<Rightarrow> fault + logger" where
  "x_log_err env msg st =
     (if \<not> lg_is_inited st then Inr st
      else if LOG_LEVEL_NONE < lg_is_debug st then Inr st
      else logger_log env LOG_LEVEL_ERR msg st)"

definition x_log_debug :: "log_env \<Rightarrow> string \<Rightarrow> logger \<Rightarrow> fault + logger" where
  "x_log_debug env msg st =
     (if \<not> lg_is_inited st then Inr st
      else if LOG_LEVEL_DEBUG < lg_is_debug st then Inr st
      else if lg_is_debug st \<noteq> 0 then logger_log env LOG_LEVEL_DEBUG msg st
      else Inr st)"

text \<open>\<open>x_log_free\<close> with the handlers it frees, in order; the array itself is left as it is.\<close>

fun log_free_loop :: "nat \<Rightarrow> logger \<Rightarrow> nat list \<Rightarrow> fault + (nat list \<times> logger)" where
  "log_free_loop 0 st freed = Inr (freed, st)"
| "log_free_loop (Suc i) st freed =
     (case lg_handler st ! i of
        None \<Rightarrow> log_free_loop i st freed
      | Some p \<Rightarrow>
          (case lg_heap st p of
             None \<Rightarrow> Inl Use_after_free
           | Some h \<Rightarrow>
               if h_type h = int i
               then log_free_loop i (st\<lparr>lg_heap := (lg_heap st)(p := None)\<rparr>) (freed @ [p])
               else log_free_loop i st freed))"

definition x_log_free :: "logger \<Rightarrow> fault + (nat list \<times> logger)" where
  "x_log_free st = log_free_loop 5 st []"

subsection \<open>The array of handlers\<close>

text \<open>
  An entry of the array is the handler made for its level, or the handler of level 0, which
  the levels share until they get a file of their own.
\<close>

definition handler_ok :: "logger \<Rightarrow> nat \<Rightarrow> nat \<Rightarrow> bool" where
  "handler_ok st i p \<longleftrightarrow> (\<exists>h. lg_heap st p = Some h
     \<and> (h_type h = int i \<or> h_type h = 0 \<and> lg_handler st ! 0 = Some p))"

definition log_ok :: "logger \<Rightarrow> bool" where
  "log_ok st \<longleftrightarrow> length (lg_handler st) = 5 \<and> (\<forall>p\<ge>lg_next st. lg_heap st p = None)
     \<and> (\<forall>i<5. \<exists>p. lg_handler st ! i = Some p \<and> handler_ok st i p)"

lemma less_5_cases: "(i :: nat) < 5 \<Longrightarrow> i = 0 \<or> i = 1 \<or> i = 2 \<or> i = 3 \<or> i = 4"
  by linarith

lemma name_handler_type [simp]: "h_type (name_handler nm h) = h_type h"
  by (simp add: name_handler_def)

lemma calloc_handler_type [simp]: "h_type (calloc_handler ty) = ty"
  by (simp add: calloc_handler_def)

lemma logger_init_ok:
  assumes "logger_init cwd dirs mem now filesize is_debug root logger_static = Inr st"
    and "lg_is_inited st"
  shows "log_ok st"
proof -
  obtain p0 p4 h0 h4 where st: "lg_handler st = [Some p0, Some p0, Some p0, Some p0, Some p4]"
    "lg_heap st = [p0 \<mapsto> h0, p4 \<mapsto> h4]" "p0 \<noteq> p4" "p0 < lg_next st" "p4 < lg_next st"
    "h_type h0 = 0" "h_type h4 = 4"
    using assms
    by (auto simp: logger_init_def logger_static_def Let_def
        split: if_split_asm option.splits)
  have "\<exists>p. lg_handler st ! i = Some p \<and> handler_ok st i p" if "i < 5" for i
    using less_5_cases [OF that] st by (elim disjE) (auto simp: handler_ok_def)
  then show ?thesis using st by (simp add: log_ok_def)
qed

lemma change_log_path_ok:
  assumes "change_log_path now mem level st = Inr st'" and "log_ok st"
  shows "log_ok st' \<and> lg_is_inited st' = lg_is_inited st"
proof (cases "level \<le> 0 \<or> level = 4 \<or> 5 \<le> level")
  case True
  with assms show ?thesis by (auto simp: change_log_path_def)
next
  case False
  define p where "p = lg_next st"
  define h where "h = (case now of None \<Rightarrow> calloc_handler level
      | Some t \<Rightarrow> name_handler (log_name (g_path_buf st) level t) (calloc_handler level))"
  have h: "h_type h = level" by (simp add: h_def split: option.split)
  have st': "st' = st\<lparr>lg_handler := (lg_handler st)[nat level := Some p],
        lg_heap := (lg_heap st)(p \<mapsto> h), lg_next := p + 1\<rparr>"
    using assms(1) False
    by (auto simp: change_log_path_def p_def h_def Let_def split: if_split_asm option.splits)
  have len: "length (lg_handler st) = 5" and fresh: "lg_heap st p = None"
    using assms(2) by (simp_all add: log_ok_def p_def)
  have lv: "nat level < 5" "0 < nat level" using False by auto
  have "\<exists>q. lg_handler st' ! i = Some q \<and> handler_ok st' i q" if i: "i < 5" for i
  proof (cases "i = nat level")
    case True
    then show ?thesis using h lv len by (auto simp: st' handler_ok_def)
  next
    case False
    from assms(2) i obtain q where q: "lg_handler st ! i = Some q" "handler_ok st i q"
      by (auto simp: log_ok_def)
    then have "q \<noteq> p" using fresh by (auto simp: handler_ok_def)
    with q False lv show ?thesis by (auto simp: st' handler_ok_def)
  qed
  then show ?thesis using assms(2) len by (auto simp: log_ok_def st' p_def)
qed

lemma log_free_loop_spec:
  assumes "\<forall>i<n. \<exists>p. lg_handler st ! i = Some p \<and> handler_ok st i p"
  shows "\<exists>qs st'. log_free_loop n st freed = Inr (freed @ qs, st') \<and> distinct qs
    \<and> set qs = {p. \<exists>i<n. lg_handler st ! i = Some p}
    \<and> st' = st\<lparr>lg_heap := lg_heap st |` (- set qs)\<rparr>"
  using assms
proof (induction n arbitrary: st freed)
  case 0
  then show ?case by (simp add: restrict_map_def)
next
  case (Suc n)
  from Suc.prems obtain p where p: "lg_handler st ! n = Some p" "handler_ok st n p" by blast
  then obtain h where h: "lg_heap st p = Some h"
    "h_type h = int n \<or> h_type h = 0 \<and> lg_handler st ! 0 = Some p" by (auto simp: handler_ok_def)
  show ?case
  proof (cases "h_type h = int n")
    case True
    let ?st = "st\<lparr>lg_heap := (lg_heap st)(p := None)\<rparr>"
    have other: "q \<noteq> p" if "i < n" "lg_handler st ! i = Some q" for i q
      using Suc.prems [rule_format, of i] that True h by (auto simp: handler_ok_def)
    have "\<forall>i<n. \<exists>q. lg_handler ?st ! i = Some q \<and> handler_ok ?st i q"
    proof (intro allI impI)
      fix i
      assume i: "i < n"
      then obtain q where q: "lg_handler st ! i = Some q" "handler_ok st i q"
        using Suc.prems [rule_format, of i] by auto
      with other [OF i] show "\<exists>q. lg_handler ?st ! i = Some q \<and> handler_ok ?st i q"
        by (auto simp: handler_ok_def)
    qed
    from Suc.IH [OF this, of "freed @ [p]"] obtain qs st' where
      qs: "log_free_loop n ?st (freed @ [p]) = Inr ((freed @ [p]) @ qs, st')" "distinct qs"
      "set qs = {p. \<exists>i<n. lg_handler ?st ! i = Some p}"
      "st' = ?st\<lparr>lg_heap := lg_heap ?st |` (- set qs)\<rparr>" by blast
    have "p \<notin> set qs" using qs(3) other by auto
    moreover have "st' = st\<lparr>lg_heap := lg_heap st |` (- set (p # qs))\<rparr>"
      by (simp add: qs(4)) (auto simp: restrict_map_def fun_eq_iff)
    moreover have "set (p # qs) = {p. \<exists>i<Suc n. lg_handler st ! i = Some p}"
      using qs(3) p(1) by (auto simp: less_Suc_eq)
    ultimately show ?thesis using p(1) h True qs(1,2) by (intro exI [of _ "p # qs"]) auto
  next
    case False
    with h have zero: "lg_handler st ! 0 = Some p" "n \<noteq> 0" by auto
    from Suc.IH [of st freed] Suc.prems obtain qs st' where
      qs: "log_free_loop n st freed = Inr (freed @ qs, st')" "distinct qs"
      "set qs = {p. \<exists>i<n. lg_handler st ! i = Some p}"
      "st' = st\<lparr>lg_heap := lg_heap st |` (- set qs)\<rparr>" by auto
    have "set qs = {p. \<exists>i<Suc n. lg_handler st ! i = Some p}"
      using qs(3) p(1) zero by (auto simp: less_Suc_eq)
    with p(1) h False qs show ?thesis by (intro exI [of _ qs]) auto
  qed
qed

subsection \<open>Choosing the file\<close>

lemma next_free_returns:
  "\<not> full (n + d + 1) \<Longrightarrow> \<exists>k. next_free full n = Some k \<and> n < k \<and> k \<le> n + d + 1 \<and> \<not> full k
    \<and> (\<forall>j. n < j \<longrightarrow> j < k \<longrightarrow> full j)"
proof (induction d arbitrary: n)
  case 0
  then show ?case by (intro exI [of _ "n + 1"]) (simp add: next_free.simps)
next
  case (Suc d)
  show ?case
  proof (cases "full (n + 1)")
    case False
    then show ?thesis by (intro exI [of _ "n + 1"]) (simp add: next_free.simps)
  next
    case True
    from Suc.IH [of "n + 1"] Suc.prems obtain k where
      k: "next_free full (n + 1) = Some k" "n + 1 < k" "k \<le> n + 1 + d + 1" "\<not> full k"
      "\<forall>j. n + 1 < j \<longrightarrow> j < k \<longrightarrow> full j" by auto
    have "next_free full n = Some k" using True k(1) by (simp add: next_free.simps [of full n])
    moreover have "\<forall>j. n < j \<longrightarrow> j < k \<longrightarrow> full j"
      using k(5) True by (metis Suc_eq_plus1 less_antisym not_less_eq)
    ultimately show ?thesis using k by auto
  qed
qed

lemma prefix_error_log:
  assumes "length path < 500"
  shows "take (length (error_name path t)) (numbered_name path ty t k) \<noteq> error_name path t"
proof
  assume eq: "take (length (error_name path t)) (numbered_name path ty t k) = error_name path t"
  let ?n = "length path + 1"
  have lt: "?n < length (error_name path t)" and short: "?n < 511"
    using assms by (auto simp: error_name_def snprintf_def XNET_LOGNAME_LEN_def)
  have e: "error_name path t ! ?n = CHR ''e''" and l: "numbered_name path ty t k ! ?n = CHR ''l''"
    using short by (simp_all add: error_name_def numbered_name_def snprintf_def XNET_LOGNAME_LEN_def nth_append)
  have "take (length (error_name path t)) (numbered_name path ty t k) ! ?n
      = numbered_name path ty t k ! ?n" by (rule nth_take [OF lt])
  with eq e l show False by simp
qed

lemma fix_log_filename_type:
  "fix_log_filename path maxsize sizes now h n = Some (h', link) \<Longrightarrow> h_type h' = h_type h"
  by (auto simp: fix_log_filename_def Let_def split: option.split_asm if_split_asm)

text \<open>\<open>fix_log_filename\<close> returns when some further number has no full file.\<close>

definition room :: "string \<Rightarrow> int \<Rightarrow> (string \<Rightarrow> int option) \<Rightarrow> tm option \<Rightarrow> log_handler \<Rightarrow> bool" where
  "room path maxsize sizes now h =
     (0 < maxsize \<longrightarrow> (case now of None \<Rightarrow> True | Some t \<Rightarrow>
        \<exists>k>h_count h. \<not> check_file_size sizes maxsize (numbered_name path (h_type h) t k)))"

lemma fix_log_filename_returns:
  assumes "room path maxsize sizes now h"
  shows "\<exists>h' link. fix_log_filename path maxsize sizes now h n = Some (h', link)"
proof (cases now)
  case None
  then show ?thesis by (simp add: fix_log_filename_def)
next
  case (Some t)
  let ?full = "\<lambda>k. check_file_size sizes maxsize (numbered_name path (h_type h) t k)"
  have "\<exists>k. next_free ?full (h_count h) = Some k" if "0 < maxsize"
  proof -
    from assms Some that obtain k where k: "h_count h < k" "\<not> ?full k" by (auto simp: room_def)
    then have "\<not> ?full (h_count h + (k - h_count h - 1) + 1)" by simp
    from next_free_returns [of ?full, OF this] show ?thesis by blast
  qed
  with Some show ?thesis by (auto simp: fix_log_filename_def Let_def)
qed

subsection \<open>One message\<close>

definition log_line :: "log_env \<Rightarrow> int \<Rightarrow> string \<Rightarrow> string" where
  "log_line env level msg = log_date (env_tv env) (env_pid env) level @ '': '' @ msg @ [CHR 0x0A]"

text \<open>
  What writing a message does: one line in one file, which is open afterwards; an echo on
  standard error when the level is \<open>DEBUG\<close>; nothing else of the logger but its handler, its
  link paths and its links changes.
\<close>

definition emitted :: "log_env \<Rightarrow> int \<Rightarrow> string \<Rightarrow> logger \<Rightarrow> logger \<Rightarrow> bool" where
  "emitted env level msg st st' \<longleftrightarrow>
     (\<exists>p h. lg_handler st ! nat level = Some p \<and> lg_heap st' p = Some h \<and> h_fp h
        \<and> lg_files st' = lg_files st @ [(h_filename h, log_line env level msg)])
     \<and> lg_stderr st' = lg_stderr st
         @ (if lg_is_debug st = LOG_LEVEL_DEBUG then [log_line env level msg] else [])
     \<and> lg_handler st' = lg_handler st \<and> lg_is_debug st' = lg_is_debug st
     \<and> lg_is_inited st' = lg_is_inited st \<and> log_ok st'"

lemma log_ok_heap_upd:
  assumes "log_ok st" "lg_heap st p = Some h" "h_type h' = h_type h"
    "lg_handler st' = lg_handler st" "lg_next st' = lg_next st" "lg_heap st' = (lg_heap st)(p \<mapsto> h')"
  shows "log_ok st'"
proof -
  have "handler_ok st' i q" if "handler_ok st i q" for i q
    using that assms by (auto simp: handler_ok_def)
  moreover have "p < lg_next st"
    using assms(1,2) by (cases "p < lg_next st") (auto simp: log_ok_def)
  ultimately show ?thesis using assms unfolding log_ok_def by fastforce
qed

lemma write_log_spec:
  assumes "lg_heap st p = Some h" and "fopen"
  shows "\<exists>st' h'. write_log fopen p date msg st = Inr st' \<and> h_type h' = h_type h \<and> h_fp h'
    \<and> h_filename h' = h_filename h \<and> lg_heap st' = (lg_heap st)(p \<mapsto> h')
    \<and> lg_files st' = lg_files st @ [(h_filename h, date @ '': '' @ msg @ [CHR 0x0A])]
    \<and> lg_stderr st' = lg_stderr st \<and> lg_handler st' = lg_handler st \<and> lg_next st' = lg_next st
    \<and> lg_is_debug st' = lg_is_debug st \<and> lg_is_inited st' = lg_is_inited st"
  using assms by (auto simp: write_log_def Let_def intro!: exI [of _ "h\<lparr>h_fp := True,
      h_cursize := h_cursize h + int (length (date @ '': '' @ msg @ [CHR 0x0A]))\<rparr>"])

lemma logger_log_emits:
  assumes ok: "log_ok st" and level: "0 \<le> level" "level \<le> 4" and g: "g_log_level st = LOG_LEVEL_NORMAL"
    and fopen: "env_fopen env"
    and room: "\<And>p h. lg_handler st ! nat level = Some p \<Longrightarrow> lg_heap st p = Some h \<Longrightarrow>
      room (g_path_buf st) (lg_maxsize st) (env_sizes env) (env_now env) h"
  shows "\<exists>st'. logger_log env level msg st = Inr st' \<and> emitted env level msg st st'"
proof -
  from ok level have len: "length (lg_handler st) = 5" "nat level < 5" by (auto simp: log_ok_def)
  with ok obtain p h where p: "lg_handler st ! nat level = Some p" "lg_heap st p = Some h"
    unfolding log_ok_def handler_ok_def by blast
  let ?n = "256 + int (length msg)"
  from fix_log_filename_returns [OF room [OF p]] obtain h1 link where
    fx: "fix_log_filename (g_path_buf st) (lg_maxsize st) (env_sizes env) (env_now env) h ?n
      = Some (h1, link)" by blast
  define st1 where "st1 = st\<lparr>lg_heap := (lg_heap st)(p \<mapsto> h1),
      g_err_link_path := (case link of Some (Inl l) \<Rightarrow> l | _ \<Rightarrow> g_err_link_path st),
      g_nor_link_path := (case link of Some (Inr l) \<Rightarrow> l | _ \<Rightarrow> g_nor_link_path st)\<rparr>"
  let ?date = "log_date (env_tv env) (env_pid env) level"
  have "lg_heap st1 p = Some h1" by (simp add: st1_def)
  from write_log_spec [OF this fopen, of ?date msg] obtain st2 h2 where
    w: "write_log (env_fopen env) p ?date msg st1 = Inr st2" "h_type h2 = h_type h1" "h_fp h2"
      "h_filename h2 = h_filename h1" "lg_heap st2 = (lg_heap st1)(p \<mapsto> h2)"
      "lg_files st2 = lg_files st1 @ [(h_filename h1, ?date @ '': '' @ msg @ [CHR 0x0A])]"
      "lg_stderr st2 = lg_stderr st1" "lg_handler st2 = lg_handler st1" "lg_next st2 = lg_next st1"
      "lg_is_debug st2 = lg_is_debug st1" "lg_is_inited st2 = lg_is_inited st1" by blast
  define st3 where "st3 = (if lg_is_debug st2 = LOG_LEVEL_DEBUG
      then st2\<lparr>lg_stderr := lg_stderr st2 @ [?date @ '': '' @ msg @ [CHR 0x0A]]\<rparr> else st2)"
  have run: "logger_log env level msg st = Inr st3"
    using len level p g fx w(1) by (simp add: logger_log_def Let_def st1_def st3_def)
  have "log_ok st3"
    using log_ok_heap_upd [OF ok p(2), of h2 st3] w fix_log_filename_type [OF fx]
    by (simp add: st3_def st1_def)
  then have "emitted env level msg st st3"
    using p(1) w unfolding emitted_def log_line_def st3_def st1_def by simp
  with run show ?thesis by blast
qed

lemma write_log_keeps:
  assumes "write_log fo p date msg st = Inr st'" and "log_ok st"
  shows "log_ok st' \<and> lg_handler st' = lg_handler st"
proof (cases "lg_heap st p")
  case None
  with assms show ?thesis by (simp add: write_log_def)
next
  case (Some h)
  let ?h = "h\<lparr>h_fp := True, h_cursize := h_cursize h + int (length (date @ '': '' @ msg @ [CHR 0x0A]))\<rparr>"
  have "st' = st \<or> lg_handler st' = lg_handler st \<and> lg_next st' = lg_next st
      \<and> lg_heap st' = (lg_heap st)(p \<mapsto> ?h)"
    using assms(1) Some by (auto simp: write_log_def Let_def split: if_split_asm)
  with log_ok_heap_upd [OF assms(2) Some, of ?h st'] assms(2) show ?thesis by auto
qed

lemma logger_log_keeps:
  assumes run: "logger_log env level msg st = Inr st'" and ok: "log_ok st"
  shows "log_ok st' \<and> lg_handler st' = lg_handler st"
proof (cases "lg_handler st ! nat level = None \<or> level \<noteq> LOG_LEVEL_ERR \<and> level < g_log_level st")
  case True
  with run ok show ?thesis by (auto simp: logger_log_def split: if_split_asm option.splits)
next
  case False
  then obtain p where p: "lg_handler st ! nat level = Some p" by auto
  with run False obtain h h1 link where h: "lg_heap st p = Some h"
    and fx: "fix_log_filename (g_path_buf st) (lg_maxsize st) (env_sizes env) (env_now env) h
      (256 + int (length msg)) = Some (h1, link)"
    by (cases "lg_heap st p"; cases "fix_log_filename (g_path_buf st) (lg_maxsize st) (env_sizes env)
        (env_now env) (the (lg_heap st p)) (256 + int (length msg))")
      (auto simp: logger_log_def Let_def split: if_split_asm)
  define st1 where "st1 = st\<lparr>lg_heap := (lg_heap st)(p \<mapsto> h1),
      g_err_link_path := (case link of Some (Inl l) \<Rightarrow> l | _ \<Rightarrow> g_err_link_path st),
      g_nor_link_path := (case link of Some (Inr l) \<Rightarrow> l | _ \<Rightarrow> g_nor_link_path st)\<rparr>"
  let ?date = "log_date (env_tv env) (env_pid env) level"
  let ?echo = "\<lambda>st2. if lg_is_debug st2 = LOG_LEVEL_DEBUG
      then st2\<lparr>lg_stderr := lg_stderr st2 @ [?date @ '': '' @ msg @ [CHR 0x0A]]\<rparr> else st2"
  have rng: "\<not> (level < 0 \<or> int (length (lg_handler st)) \<le> level)"
    using run by (auto simp: logger_log_def)
  have "logger_log env level msg st
      = bindR (write_log (env_fopen env) p ?date msg st1) (\<lambda>st2. Inr (?echo st2))"
    using False p h fx rng by (simp add: logger_log_def Let_def st1_def) blast
  with run obtain st2 where w: "write_log (env_fopen env) p ?date msg st1 = Inr st2"
    and st': "st' = ?echo st2" by auto
  have "log_ok st1"
    by (rule log_ok_heap_upd [OF ok h fix_log_filename_type [OF fx]]) (simp_all add: st1_def)
  from write_log_keeps [OF w this] have "log_ok st2" "lg_handler st2 = lg_handler st"
    by (simp_all add: st1_def)
  then show ?thesis by (auto simp: st' log_ok_def handler_ok_def)
qed

lemma x_log_err_keeps:
  "x_log_err env msg st = Inr st' \<Longrightarrow> log_ok st \<Longrightarrow> log_ok st' \<and> lg_handler st' = lg_handler st"
  by (auto simp: x_log_err_def dest: logger_log_keeps split: if_split_asm)

lemma x_log_err_emits:
  assumes "log_ok st" and "lg_is_inited st" and "g_log_level st = LOG_LEVEL_NORMAL"
    and "lg_is_debug st \<le> LOG_LEVEL_NONE" and "env_fopen env"
    and "\<And>p h. lg_heap st p = Some h \<Longrightarrow>
      room (g_path_buf st) (lg_maxsize st) (env_sizes env) (env_now env) h"
  shows "\<exists>st'. x_log_err env msg st = Inr st' \<and> emitted env LOG_LEVEL_ERR msg st st'"
  using logger_log_emits [OF assms(1) _ _ assms(3,5), of LOG_LEVEL_ERR msg] assms(2,4,6)
  by (auto simp: x_log_err_def)

lemma x_log_free_spec:
  assumes "log_ok st"
  shows "\<exists>freed st'. x_log_free st = Inr (freed, st') \<and> distinct freed
    \<and> set freed = {p. Some p \<in> set (lg_handler st)}
    \<and> st' = st\<lparr>lg_heap := lg_heap st |` (- set freed)\<rparr>"
proof -
  from assms have len: "length (lg_handler st) = 5"
    and hs: "\<forall>i<5. \<exists>p. lg_handler st ! i = Some p \<and> handler_ok st i p" by (simp_all add: log_ok_def)
  from log_free_loop_spec [OF hs, of "[]"] obtain qs st' where
    q: "log_free_loop 5 st [] = Inr (qs, st')" "distinct qs"
      "set qs = {p. \<exists>i<5. lg_handler st ! i = Some p}"
      "st' = st\<lparr>lg_heap := lg_heap st |` (- set qs)\<rparr>" by auto
  have "set qs = {p. Some p \<in> set (lg_handler st)}" using q(3) len by (auto simp: in_set_conv_nth)
  with q show ?thesis by (auto simp: x_log_free_def)
qed

subsection \<open>Properties\<close>

fun change_paths :: "(tm option \<times> int) list \<Rightarrow> logger \<Rightarrow> fault + logger" where
  "change_paths [] st = Inr st"
| "change_paths ((now, level) # cs) st =
     bindR (change_log_path now True level st) (change_paths cs)"

lemma change_paths_ok: "change_paths cs st = Inr st' \<Longrightarrow> log_ok st \<Longrightarrow> log_ok st'"
  by (induction cs st rule: change_paths.induct) (auto dest: change_log_path_ok)

definition some_time :: tm where
  "some_time = \<lparr>tm_year = 119, tm_mon = 4, tm_mday = 7, tm_hour = 9, tm_min = 30, tm_sec = 0\<rparr>"

definition example_logger :: "fault + logger" where
  "example_logger =
     logger_init (Some ''/w'') (True, True) (True, True) (Some some_time) 100 LOG_LEVEL_DEBUG None
       logger_static"

text \<open>C39: after \<open>logger_init\<close> and any number of \<open>change_log_path\<close> calls, \<open>x_log_free\<close> frees every
  handler of the array exactly once, whether or not levels share it, and no other; the array
  keeps its pointers, so that calling it again uses freed memory.\<close>

theorem log_free_all:
  assumes "logger_init cwd dirs mem now filesize is_debug root logger_static = Inr st0"
    and "lg_is_inited st0" and "change_paths cs st0 = Inr st"
  shows "\<exists>freed st'. x_log_free st = Inr (freed, st') \<and> distinct freed
    \<and> set freed = {p. Some p \<in> set (lg_handler st)}
    \<and> (\<forall>p. lg_heap st' p = (if Some p \<in> set (lg_handler st) then None else lg_heap st p))
    \<and> x_log_free st' = Inl Use_after_free"
proof -
  have ok: "log_ok st" using change_paths_ok [OF assms(3)] logger_init_ok [OF assms(1,2)] by blast
  from x_log_free_spec [OF this] obtain qs st' where
    q: "x_log_free st = Inr (qs, st')" "distinct qs" "set qs = {p. Some p \<in> set (lg_handler st)}"
      "st' = st\<lparr>lg_heap := lg_heap st |` (- set qs)\<rparr>" by blast
  from ok have len: "4 < length (lg_handler st)"
    and hs: "\<forall>i<5. \<exists>p. lg_handler st ! i = Some p \<and> handler_ok st i p"
    by (simp_all add: log_ok_def)
  from hs [rule_format, of 4] obtain p4 where p4: "lg_handler st ! 4 = Some p4" by auto
  from nth_mem [OF len] have "Some p4 \<in> set (lg_handler st)" by (simp add: p4)
  then have "p4 \<in> set qs" by (simp add: q(3))
  then have "x_log_free st' = Inl Use_after_free"
    using p4 by (simp add: x_log_free_def q(4) eval_nat_numeral)
  moreover have "lg_heap st' p = (if Some p \<in> set (lg_handler st) then None else lg_heap st p)" for p
    unfolding q(4) by (simp add: restrict_map_def q(3))
  ultimately show ?thesis using q(1-3) by (auto simp only:)
qed

theorem log_free_all_witness:
  "\<exists>st0 st freed st'. example_logger = Inr st0
     \<and> change_paths [(Some some_time, 2), (None, 3), (None, 0)] st0 = Inr st
     \<and> lg_handler st = [Some 0, Some 0, Some 2, Some 3, Some 1]
     \<and> x_log_free st = Inr (freed, st') \<and> distinct freed \<and> set freed = {0, 1, 2, 3}
     \<and> x_log_free st' = Inl Use_after_free"
proof -
  have "case example_logger of Inl _ \<Rightarrow> False | Inr st0 \<Rightarrow> lg_is_inited st0
      \<and> (case change_paths [(Some some_time, 2), (None, 3), (None, 0)] st0 of Inl _ \<Rightarrow> False
         | Inr st \<Rightarrow> lg_handler st = [Some 0, Some 0, Some 2, Some 3, Some 1])" by code_simp
  then obtain st0 st where st: "example_logger = Inr st0" "lg_is_inited st0"
    "change_paths [(Some some_time, 2), (None, 3), (None, 0)] st0 = Inr st"
    "lg_handler st = [Some 0, Some 0, Some 2, Some 3, Some 1]"
    by (auto split: sum.split_asm)
  have "{p :: nat. Some p \<in> set (lg_handler st)} = {0, 1, 2, 3}" using st(4) by auto
  with log_free_all [OF st(1) [unfolded example_logger_def] st(2,3)] st show ?thesis by auto
qed

text \<open>With the logger set up and a file that can be written, \<open>x_log_debug\<close> writes its message
  exactly when the level is \<open>DEBUG\<close>, \<open>x_log_info\<close> up to \<open>INFO\<close>, \<open>x_log_warn\<close> up to \<open>WARN\<close>, and
  \<open>x_log_err\<close> at every level there is, \<open>NONE\<close> included; each writes one line with its date, and
  changes nothing when it does not write.\<close>

theorem log_levels:
  assumes "log_ok st" and "lg_is_inited st" and "g_log_level st = LOG_LEVEL_NORMAL"
    and "0 \<le> lg_is_debug st" and "lg_is_debug st \<le> LOG_LEVEL_NONE" and "env_fopen env"
    and "\<And>p h. lg_heap st p = Some h \<Longrightarrow>
      room (g_path_buf st) (lg_maxsize st) (env_sizes env) (env_now env) h"
  shows "(\<exists>st'. x_log_debug env msg st = Inr st' \<and>
        (if lg_is_debug st = LOG_LEVEL_DEBUG then emitted env LOG_LEVEL_DEBUG msg st st' else st' = st))
    \<and> (\<exists>st'. x_log_info env msg st = Inr st' \<and>
        (if lg_is_debug st \<le> LOG_LEVEL_INFO then emitted env LOG_LEVEL_INFO msg st st' else st' = st))
    \<and> (\<exists>st'. x_log_warn env msg st = Inr st' \<and>
        (if lg_is_debug st \<le> LOG_LEVEL_WARN then emitted env LOG_LEVEL_WARN msg st st' else st' = st))
    \<and> (\<exists>st'. x_log_err env msg st = Inr st' \<and> emitted env LOG_LEVEL_ERR msg st st')"
proof -
  have log: "\<exists>st'. logger_log env level msg st = Inr st' \<and> emitted env level msg st st'"
    if "0 \<le> level" "level \<le> 4" for level
    using logger_log_emits [OF assms(1) that assms(3,6), of msg] assms(7) by blast
  show ?thesis
    using log [of 1] log [of 2] log [of 3] log [of 4] assms(2,4,5)
    by (auto simp: x_log_debug_def x_log_info_def x_log_warn_def x_log_err_def)
qed

definition example_env :: log_env where
  "example_env = \<lparr>env_tv = some_time, env_now = Some some_time, env_pid = 7, env_sizes = (\<lambda>_. None),
     env_fopen = True\<rparr>"

theorem log_levels_witness:
  "\<exists>st st'. map_sum id (set_log_level LOG_LEVEL_NONE) example_logger = Inr st
     \<and> x_log_debug example_env ''m'' st = Inr st \<and> x_log_info example_env ''m'' st = Inr st
     \<and> x_log_warn example_env ''m'' st = Inr st
     \<and> x_log_err example_env ''m'' st = Inr st' \<and> emitted example_env LOG_LEVEL_ERR ''m'' st st'"
proof -
  have "case example_logger of Inl _ \<Rightarrow> False | Inr st0 \<Rightarrow> lg_is_inited st0
      \<and> g_log_level st0 = LOG_LEVEL_NORMAL" by code_simp
  then obtain st0 where st0: "example_logger = Inr st0" "lg_is_inited st0" "g_log_level st0 = LOG_LEVEL_NORMAL"
    by (auto split: sum.split_asm)
  define st where "st = set_log_level LOG_LEVEL_NONE st0"
  have "log_ok st0" using logger_init_ok [OF st0(1) [unfolded example_logger_def] st0(2)] .
  then have "log_ok st" by (simp add: st_def set_log_level_def log_ok_def handler_ok_def)
  moreover have "room (g_path_buf st) (lg_maxsize st) (env_sizes example_env) (env_now example_env) h" for h
    by (simp add: room_def example_env_def check_file_size_def) blast
  moreover have "lg_is_debug st = LOG_LEVEL_NONE" "lg_is_inited st" "g_log_level st = LOG_LEVEL_NORMAL"
    using st0 by (simp_all add: st_def set_log_level_def)
  moreover have "map_sum id (set_log_level LOG_LEVEL_NONE) example_logger = Inr st"
    unfolding st0(1) st_def by simp
  moreover have "env_fopen example_env" by (simp add: example_env_def)
  ultimately show ?thesis
    using log_levels [of st example_env "''m''"] by simp
qed

text \<open>C40: \<open>fix_log_filename\<close> at a known time: a file of another hour (or day) is replaced by the
  current one, and the count of bytes written is kept; a full file is replaced by the file
  of the first number above the handler's that has no full file yet, and the count starts
  again; otherwise the handler stays as it is.\<close>

theorem log_rotation:
  fixes path :: string and h :: log_handler and t :: tm and n maxsize :: int
    and sizes :: "string \<Rightarrow> int option"
  defines "nm \<equiv> (if h_type h = LOG_LEVEL_ERR then error_name path t else log_name path (h_type h) t)"
    and "full k \<equiv> check_file_size sizes maxsize (numbered_name path (h_type h) t k)"
  assumes "h_count h < k0" and "\<not> full k0"
  shows "\<exists>h' link. fix_log_filename path maxsize sizes (Some t) h n = Some (h', link) \<and>
    (if \<not> prefix nm (h_filename h)
     then h' = h\<lparr>h_filename := nm, h_fp := False\<rparr>
     else if 0 < maxsize \<and> maxsize \<le> h_cursize h + n
     then \<exists>k>h_count h. k \<le> k0 \<and> \<not> full k \<and> (\<forall>j. h_count h < j \<longrightarrow> j < k \<longrightarrow> full j)
        \<and> h' = h\<lparr>h_fp := False, h_count := k, h_filename := numbered_name path (h_type h) t k,
                 h_cursize := 0\<rparr>
     else h' = h)"
proof -
  have pre: "take (length nm) (h_filename h) \<noteq> nm \<longleftrightarrow> \<not> prefix nm (h_filename h)"
    by (auto simp: prefix_def) (metis append_take_drop_id)
  have "\<not> full (h_count h + (k0 - h_count h - 1) + 1)" using assms(3,4) by simp
  from next_free_returns [of full, OF this] assms(3) obtain k where
    k: "next_free full (h_count h) = Some k" "h_count h < k" "k \<le> k0" "\<not> full k"
      "\<forall>j. h_count h < j \<longrightarrow> j < k \<longrightarrow> full j" by auto
  have full: "full = (\<lambda>k. check_file_size sizes maxsize (numbered_name path (h_type h) t k))"
    by (simp add: full_def fun_eq_iff)
  show ?thesis
    using k unfolding fix_log_filename_def Let_def pre [symmetric]
    by (auto simp: nm_def [symmetric] full [symmetric])
qed

definition full_handler :: "int \<Rightarrow> string \<Rightarrow> log_handler" where
  "full_handler ty nm = \<lparr>h_type = ty, h_filename = nm, h_fp = True, h_count = 1, h_cursize = 1000\<rparr>"

theorem log_rotation_witness:
  "\<exists>link. fix_log_filename ''/w'' 1024 (\<lambda>f. if f = ''/w/log/0_19050709.log_2'' then Some 2000 else None)
     (Some some_time) (full_handler 0 ''/w/log/0_19050709.log'') 300
   = Some ((full_handler 0 ''/w/log/0_19050709.log_3'')\<lparr>h_fp := False, h_count := 3, h_cursize := 0\<rparr>, link)"
proof -
  let ?sizes = "\<lambda>f. if f = ''/w/log/0_19050709.log_2'' then Some 2000 else None"
  have nm: "log_name ''/w'' 0 some_time = ''/w/log/0_19050709.log''"
    "numbered_name ''/w'' 0 some_time 2 = ''/w/log/0_19050709.log_2''"
    "numbered_name ''/w'' 0 some_time 3 = ''/w/log/0_19050709.log_3''" by code_simp+
  have full: "check_file_size ?sizes 1024 (numbered_name ''/w'' 0 some_time 2)"
    "\<not> check_file_size ?sizes 1024 (numbered_name ''/w'' 0 some_time 3)"
    by (simp_all add: nm check_file_size_def)
  have h: "h_type (full_handler 0 nm) = 0" "h_count (full_handler 0 nm) = 1"
    "h_filename (full_handler 0 nm) = nm" "h_cursize (full_handler 0 nm) = 1000" for nm
    by (simp_all add: full_handler_def)
  have two: "k = 3" if "Suc 0 < k" "k \<le> 3" "\<not> check_file_size ?sizes 1024 (numbered_name ''/w'' 0 some_time k)"
    for k :: nat using that full(1) by (cases "k = 2") auto
  show ?thesis
    using log_rotation [of "full_handler 0 ''/w/log/0_19050709.log''" 3 ?sizes 1024 "''/w''" some_time 300] full(2)
    by (auto simp: h nm full_handler_def dest!: two)
qed

text \<open>The error log leaves the limit on its size unobserved: when its file is full, the number
  file chosen is one under \<open>log\<close>, whose name the next message takes for the name of another
  day, and goes back to the full file.\<close>

theorem error_log_rotation_reverts:
  assumes "h_type h = LOG_LEVEL_ERR" and "length path < 500" and "h_filename h = error_name path t"
    and "0 < maxsize" and "maxsize \<le> h_cursize h + n"
    and "h_count h < k0" and "\<not> check_file_size sizes maxsize (numbered_name path LOG_LEVEL_ERR t k0)"
  shows "\<exists>h1 link1. fix_log_filename path maxsize sizes (Some t) h n = Some (h1, link1)
    \<and> h_filename h1 = numbered_name path LOG_LEVEL_ERR t (h_count h1)
    \<and> (\<forall>fp cs m. \<exists>link2. fix_log_filename path maxsize sizes (Some t) (h1\<lparr>h_fp := fp, h_cursize := cs\<rparr>) m
         = Some (h1\<lparr>h_fp := False, h_cursize := cs, h_filename := error_name path t\<rparr>, link2))"
proof -
  let ?full = "\<lambda>k. check_file_size sizes maxsize (numbered_name path LOG_LEVEL_ERR t k)"
  have "\<not> ?full (h_count h + (k0 - h_count h - 1) + 1)" using assms(6,7) by simp
  from next_free_returns [of ?full, OF this] obtain k where
    k: "next_free ?full (h_count h) = Some k" by blast
  let ?h1 = "h\<lparr>h_fp := False, h_count := k, h_filename := numbered_name path LOG_LEVEL_ERR t k, h_cursize := 0\<rparr>"
  have "\<exists>link1. fix_log_filename path maxsize sizes (Some t) h n = Some (?h1, link1)"
    using assms(1,3-5) k by (simp add: fix_log_filename_def Let_def)
  moreover have "\<exists>link2. fix_log_filename path maxsize sizes (Some t) (?h1\<lparr>h_fp := fp, h_cursize := cs\<rparr>) m
      = Some (?h1\<lparr>h_fp := False, h_cursize := cs, h_filename := error_name path t\<rparr>, link2)" for fp cs m
    using assms(1) prefix_error_log [OF assms(2), of t LOG_LEVEL_ERR k]
    by (simp add: fix_log_filename_def Let_def)
  ultimately show ?thesis by fastforce
qed

theorem error_log_rotation_reverts_witness:
  "\<exists>h1 link1 link2. fix_log_filename ''/w'' 1024 (\<lambda>_. None) (Some some_time)
       (full_handler LOG_LEVEL_ERR ''/w/error/20190507.log'') 300 = Some (h1, link1)
     \<and> fix_log_filename ''/w'' 1024 (\<lambda>_. None) (Some some_time) (h1\<lparr>h_fp := True, h_cursize := 300\<rparr>) 300
       = Some (h1\<lparr>h_fp := False, h_cursize := 300, h_filename := ''/w/error/20190507.log''\<rparr>, link2)"
proof -
  have nm: "error_name ''/w'' some_time = ''/w/error/20190507.log''" by code_simp
  show ?thesis
    using error_log_rotation_reverts [of "full_handler LOG_LEVEL_ERR ''/w/error/20190507.log''" "''/w''"
        some_time 1024 300 2 "\<lambda>_. None"]
    by (auto simp: nm full_handler_def check_file_size_def)
qed

end
