(* ===== verification/Program.thy ===== *)
theory Program
  imports Server Log
begin

section \<open>The main program (src/xtp.c)\<close>

text \<open>
  Options, start-up and signals.  What the program asks the system is the record \<open>program_env\<close>;
  the XML parser is an argument, as in \<open>Conf_Load\<close>.  \<open>main\<close> ends by sleeping for ever, so that
  its result is either a return code or the state it leaves to the thread it has started.
\<close>

subsection \<open>getopt\<close>

text \<open>
  \<open>getopt\<close> of the C library with the option string of the program, as the list of the options
  it returns, each with its argument: a cluster of letters after one dash, an argument in the
  same word or in the next one, \<open>?\<close> for an unknown letter or a missing argument, words
  without a dash passed over, \<open>--\<close> the end.  The first argument is the rest of a cluster.
\<close>

function (sequential) getopt :: "string \<Rightarrow> string list \<Rightarrow> (char \<times> string option) list" where
  "getopt [] [] = []"
| "getopt [] (a # as) =
     (if a = ''--'' then []
      else case a of
        CHR ''-'' # x # xs \<Rightarrow> getopt (x # xs) as
      | _ \<Rightarrow> getopt [] as)"
| "getopt (x # xs) as =
     (if x \<in> {CHR ''c'', CHR ''L'', CHR ''l''} then
        (if xs \<noteq> [] then (x, Some xs) # getopt [] as
         else (case as of [] \<Rightarrow> [(CHR ''?'', None)] | b # bs \<Rightarrow> (x, Some b) # getopt [] bs))
      else if x \<in> {CHR ''d'', CHR ''h''} then (x, None) # getopt xs as
      else (CHR ''?'', None) # getopt xs as)"
  by pat_completeness auto

termination
  by (relation "measure (\<lambda>(cl, as). length cl + sum_list (map (\<lambda>a. Suc (length a)) as))") auto

subsection \<open>Options\<close>

record options =
  op_conf :: "string option"
  op_log :: "string option"
  op_daemon :: int
  op_level :: int

definition default_options :: options where
  "default_options = \<lparr>op_conf = None, op_log = None, op_daemon = 0, op_level = LOG_LEVEL_DEBUG\<rparr>"

definition DEFAULT_CONF_FILE :: string where "DEFAULT_CONF_FILE = ''etc/conf.xml''"

text \<open>The option \<open>-l\<close>: \<open>strncmp\<close> compares the first letters.\<close>

definition log_level_of :: "string \<Rightarrow> int" where
  "log_level_of optarg =
     (if take 5 optarg = ''DEBUG'' then LOG_LEVEL_DEBUG
      else if take 4 optarg = ''WARN'' then LOG_LEVEL_WARN
      else if take 4 optarg = ''INFO'' then LOG_LEVEL_INFO
      else if take 3 optarg = ''ERR'' then LOG_LEVEL_ERR
      else if take 4 optarg = ''NONE'' then LOG_LEVEL_NONE
      else LOG_LEVEL_NONE)"

fun parse_options ::
  "(string \<Rightarrow> bool option) \<Rightarrow> (char \<times> string option) list \<Rightarrow> options \<Rightarrow> fault + options" where
  "parse_options stat [] o1 = Inr o1"
| "parse_options stat ((c, optarg) # rest) o1 =
     (if c = CHR ''c'' then parse_options stat rest (o1\<lparr>op_conf := optarg\<rparr>)
      else if c = CHR ''L'' then
        (if x_file_isdir stat optarg \<noteq> 0 then parse_options stat rest (o1\<lparr>op_log := optarg\<rparr>)
         else Inl (Exited (-1)))
      else if c = CHR ''l'' then
        (case optarg of
           None \<Rightarrow> Inl Null_deref
         | Some s \<Rightarrow> parse_options stat rest (o1\<lparr>op_level := log_level_of s\<rparr>))
      else if c = CHR ''d'' then parse_options stat rest (o1\<lparr>op_daemon := 1\<rparr>)
      else Inl (Exited 0))"

subsection \<open>Start-up\<close>

record program_env =
  pe_access :: "string \<Rightarrow> int"
  pe_stat :: "string \<Rightarrow> bool option"
  pe_fork :: int
  pe_cwd :: "string option"
  pe_dirs :: "bool \<times> bool"
  pe_mem :: "bool \<times> bool"
  pe_log :: log_env
  pe_create :: "int + nat"
  pe_detach :: int

definition daemonize :: "int \<Rightarrow> options \<Rightarrow> fault + unit" where
  "daemonize pid o1 =
     (if op_daemon o1 \<noteq> 0 then
        (if pid < 0 then Inl (Exited (-1))
         else if 0 < pid then Inl (Exited 0)
         else Inr ())
      else Inr ())"

datatype outcome =
    Returned int logger zstate
  | Serving xtp_server xtp_thread logger zstate

definition conf_path :: "options \<Rightarrow> string" where
  "conf_path o1 = (case op_conf o1 of None \<Rightarrow> DEFAULT_CONF_FILE | Some p \<Rightarrow> p)"

text \<open>
  \<open>main\<close>.  \<open>x_server_new\<close> does not return without memory, so the branch for a NULL server is
  not reached; the thread's record is the one \<open>x_server_new\<close> has allocated.
\<close>

definition program_main ::
  "program_env \<Rightarrow> 'n iks_api \<Rightarrow> bool list \<Rightarrow> string list \<Rightarrow> logger \<Rightarrow> zstate \<Rightarrow> fault + outcome" where
  "program_main env api oks argv lg z =
     bindR (parse_options (pe_stat env) (getopt [] argv) default_options) (\<lambda>o1.
       if x_file_exists (pe_access env) (Some (conf_path o1)) = 0 then Inl (Exited (-1))
       else
         bindR (daemonize (pe_fork env) o1) (\<lambda>_.
         bindR (logger_init (pe_cwd env) (pe_dirs env) (pe_mem env) (env_now (pe_log env)) 100
                  LOG_LEVEL_DEBUG (op_log o1) lg) (\<lambda>lg1.
         bindR (x_server_new oks z) (\<lambda>(srv, oks1, z1).
         bindR (x_server_conf_new api (Some (conf_path o1)) oks1 z1) (\<lambda>(srvconf, oks2, z2).
           case srvconf of
             None \<Rightarrow>
               bindR (x_log_err (pe_log env) ''Server configure init failed!'' lg1) (\<lambda>lg2.
               bindR (x_server_destroy (Some srv) z2) (\<lambda>z3.
               bindR (x_log_free lg2) (\<lambda>(_, lg3).
                 Inr (Returned (-1) lg3 z3))))
           | Some cm \<Rightarrow>
               let srv1 = srv\<lparr>sv_srvconf := Some cm\<rparr>;
                   lg2 = set_log_level (op_level o1) lg1
               in Inr (Serving srv1 (x_access_new (pe_create env) (pe_detach env) srv1 blank_thread)
                         lg2 z2))))))"

subsection \<open>Signals\<close>

abbreviation (input) SIGHUP :: int where "SIGHUP \<equiv> 1"
abbreviation (input) SIGINT :: int where "SIGINT \<equiv> 2"
abbreviation (input) SIGQUIT :: int where "SIGQUIT \<equiv> 3"
abbreviation (input) SIGALRM :: int where "SIGALRM \<equiv> 14"
abbreviation (input) SIGTERM :: int where "SIGTERM \<equiv> 15"

text \<open>
  The handler: the status the program exits with, or \<open>None\<close> when it returns.  The last
  message has two conversions and one argument; what the second prints is \<open>vararg\<close>.
\<close>

definition signal_handler ::
  "log_env \<Rightarrow> int \<Rightarrow> int \<Rightarrow> logger \<Rightarrow> fault + (int option \<times> logger)" where
  "signal_handler env vararg sig lg =
     (let pid = printf_d (env_pid env);
          quit = (\<lambda>nm. bindR (x_log_err env (nm @ '', quit! pid='' @ pid) lg) (\<lambda>lg1. Inr (Some 0, lg1)))
      in
      if sig = SIGINT then quit ''SIGINT''
      else if sig = SIGQUIT then quit ''SIGQUIT''
      else if sig = SIGTERM then quit ''SIGTERM''
      else if sig = SIGHUP then quit ''SIGHUP''
      else if sig = SIGALRM then
        bindR (x_log_debug env (''xtp: recv SIGALRM signal(pid='' @ pid @ '')'') lg) (\<lambda>lg1. Inr (Some 0, lg1))
      else
        bindR (x_log_err env (''xtp recv '' @ pid @ '' signal! pid='' @ printf_d vararg) lg)
          (\<lambda>lg1. Inr (None, lg1)))"

subsection \<open>What the options mean\<close>

definition option_words :: "char \<times> string option \<Rightarrow> string list" where
  "option_words ca = (case ca of (c, a) \<Rightarrow> [CHR ''-'', c] # (case a of None \<Rightarrow> [] | Some s \<Rightarrow> [s]))"

definition option_ok :: "(string \<Rightarrow> bool option) \<Rightarrow> char \<times> string option \<Rightarrow> bool" where
  "option_ok stat ca \<longleftrightarrow> (case ca of (c, a) \<Rightarrow>
     c \<in> {CHR ''c'', CHR ''l''} \<and> a \<noteq> None \<or> c = CHR ''L'' \<and> a \<noteq> None \<and> x_file_isdir stat a \<noteq> 0
     \<or> c = CHR ''d'' \<and> a = None)"

fun last_arg :: "char \<Rightarrow> (char \<times> string option) list \<Rightarrow> string option" where
  "last_arg ch [] = None"
| "last_arg ch ((c, a) # os) =
     (case last_arg ch os of Some s \<Rightarrow> Some s | None \<Rightarrow> if c = ch then a else None)"

definition or_else :: "'a option \<Rightarrow> 'a option \<Rightarrow> 'a option" where
  "or_else a b = (case a of None \<Rightarrow> b | Some x \<Rightarrow> Some x)"

definition with_options :: "(char \<times> string option) list \<Rightarrow> options \<Rightarrow> options" where
  "with_options os o1 =
     \<lparr>op_conf = or_else (last_arg (CHR ''c'') os) (op_conf o1),
      op_log = or_else (last_arg (CHR ''L'') os) (op_log o1),
      op_daemon = (if CHR ''d'' \<in> fst ` set os then 1 else op_daemon o1),
      op_level = (case last_arg (CHR ''l'') os of None \<Rightarrow> op_level o1 | Some s \<Rightarrow> log_level_of s)\<rparr>"

lemma getopt_option_words:
  "option_ok stat ca \<Longrightarrow> getopt [] (option_words ca @ as) = ca # getopt [] as"
  by (cases ca) (auto simp: option_ok_def option_words_def)

lemma getopt_words:
  "\<forall>ca\<in>set os. option_ok stat ca \<Longrightarrow>
     getopt [] (concat (map option_words os) @ as) = os @ getopt [] as"
  by (induction os) (auto simp: getopt_option_words)

lemma parse_options_ok:
  "\<forall>ca\<in>set os. option_ok stat ca \<Longrightarrow>
     parse_options stat (os @ rest) o1 = parse_options stat rest (with_options os o1)"
proof (induction os arbitrary: o1)
  case Nil
  then show ?case by (cases o1) (simp add: with_options_def or_else_def)
next
  case (Cons ca os)
  obtain c a where ca: "ca = (c, a)" by force
  have ok: "option_ok stat (c, a)" using Cons.prems ca by simp
  have step: "parse_options stat ((c, a) # os @ rest) o1
      = parse_options stat (os @ rest) (with_options [(c, a)] o1)"
    using ok by (cases o1; cases a) (auto simp: option_ok_def with_options_def or_else_def)
  have "with_options os (with_options [(c, a)] o1) = with_options ((c, a) # os) o1"
    using ok by (auto simp: with_options_def or_else_def option_ok_def split: option.split)
  with Cons step ca show ?case by simp
qed

subsection \<open>The pieces of start-up\<close>

lemma logger_init_cases:
  assumes "logger_init cwd dirs mem now filesize is_debug dir logger_static = Inr st"
  shows "log_ok st \<and> lg_is_inited st
    \<or> \<not> lg_is_inited st \<and> lg_handler st = [None, None, None, None, None]"
  using logger_init_ok [OF assms] assms
  by (auto simp: logger_init_def logger_static_def Let_def split: if_split_asm)

lemma x_log_free_empty:
  "lg_handler st = [None, None, None, None, None] \<Longrightarrow> x_log_free st = Inr ([], st)"
  by (simp add: x_log_free_def eval_nat_numeral)

lemma failure_report:
  assumes "logger_init cwd dirs mem now filesize is_debug dir logger_static = Inr lg1"
    and "x_log_err env msg lg1 = Inr lg2" and "x_log_free lg2 = Inr (freed, lg3)"
  shows "\<forall>p. Some p \<in> set (lg_handler lg3) \<longrightarrow> lg_heap lg3 p = None"
  using logger_init_cases [OF assms(1)]
proof
  assume "log_ok lg1 \<and> lg_is_inited lg1"
  then have "log_ok lg2" using x_log_err_keeps [OF assms(2)] by simp
  from x_log_free_spec [OF this] assms(3) show ?thesis by (auto simp: restrict_map_def)
next
  assume no: "\<not> lg_is_inited lg1 \<and> lg_handler lg1 = [None, None, None, None, None]"
  then have "lg2 = lg1" using assms(2) by (simp add: x_log_err_def)
  with no x_log_free_empty [of lg1] assms(3) show ?thesis by auto
qed

lemma zfree_heap:
  "z_ok z \<Longrightarrow> z_blocks z p \<noteq> None \<Longrightarrow> zfree (Some p) z = Inr z'
    \<Longrightarrow> z_ok z' \<and> z_blocks z' = (z_blocks z)(p := None)"
  using zfree_spec by fastforce

lemma x_server_destroy_heap:
  assumes "x_server_destroy (Some srv) z = Inr z'" and "z_ok z"
  shows "z_ok z' \<and> z_blocks z' = z_blocks z |` (- {sv_thr srv, sv_self srv})"
proof -
  from assms(1) obtain z1 where z1: "zfree (Some (sv_thr srv)) z = Inr z1" "zfree (Some (sv_self srv)) z1 = Inr z'"
    by (auto simp: x_server_destroy_def)
  then have "z_blocks z (sv_thr srv) \<noteq> None" "z_blocks z1 (sv_self srv) \<noteq> None"
    by (auto simp: zfree_def split: option.splits)
  with z1 zfree_heap assms(2) have "z_ok z' \<and> z_blocks z' = (z_blocks z)(sv_thr srv := None, sv_self srv := None)"
    by metis
  then show ?thesis by (auto simp: restrict_map_def fun_eq_iff)
qed

text \<open>What remains of the memory once a start-up has failed.\<close>

lemma failed_start_heap:
  assumes new: "x_server_new oks z = Inr (srv, oks1, z1)" and ok: "z_ok z"
    and conf: "x_server_conf_new api (Some f) oks1 z1 = Inr (None, oks2, z2)"
    and destroy: "x_server_destroy (Some srv) z2 = Inr z3"
  shows "z_ok z3 \<and> z_blocks z \<subseteq>\<^sub>m z_blocks z3 \<and> (z_blocks z3 = z_blocks z \<longleftrightarrow> ik_load api f = None)"
proof -
  note grow = x_server_new_grown(1) [OF new ok]
  have srv: "sv_self srv \<notin> dom (z_blocks z)" "sv_thr srv \<notin> dom (z_blocks z)"
    "dom (z_blocks z1) = dom (z_blocks z) \<union> {sv_self srv, sv_thr srv}"
    using grow by (auto simp: zgrown_def map_le_def dom_def)
  have z1: "z_ok z1" "z_blocks z \<subseteq>\<^sub>m z_blocks z1" using grow by (auto simp: zgrown_def)
  have le: "z_ok z2 \<and> z_blocks z1 \<subseteq>\<^sub>m z_blocks z2 \<and> (ik_load api f = None \<longleftrightarrow> dom (z_blocks z2) = dom (z_blocks z1))
      \<and> dom (z_blocks z1) \<subseteq> dom (z_blocks z2)"
  proof (cases "ik_load api f")
    case None
    with conf z1 show ?thesis by (auto simp: x_server_conf_new_def)
  next
    case (Some conf')
    from conf_refused [OF conf z1(1) Some] Some show ?thesis by auto
  qed
  have z3: "z_ok z3" "z_blocks z3 = z_blocks z2 |` (- {sv_thr srv, sv_self srv})"
    using x_server_destroy_heap [OF destroy] le by auto
  have sub: "z_blocks z \<subseteq>\<^sub>m z_blocks z3"
  proof -
    have "z_blocks z3 p = Some b" if "z_blocks z p = Some b" for p b
    proof -
      have p: "p \<in> dom (z_blocks z)" using that by auto
      then have b: "z_blocks z1 p = Some b" using z1(2) that by (simp add: map_le_def)
      then have "p \<in> dom (z_blocks z1)" by auto
      with le have "z_blocks z1 p = z_blocks z2 p" unfolding map_le_def by blast
      moreover have "p \<noteq> sv_self srv" "p \<noteq> sv_thr srv" using p srv(1,2) by auto
      ultimately show ?thesis using b by (simp add: z3(2))
    qed
    then show ?thesis by (auto simp: map_le_def)
  qed
  have "dom (z_blocks z3) = dom (z_blocks z2) - {sv_thr srv, sv_self srv}" by (simp add: z3(2) Diff_eq)
  moreover have "(E - {t, s} = D) = (E = D \<union> {s, t})" if "s \<notin> D" "t \<notin> D" "D \<union> {s, t} \<subseteq> E"
    for s t :: nat and D E using that by auto
  ultimately have "ik_load api f = None \<longleftrightarrow> dom (z_blocks z3) = dom (z_blocks z)"
    using le srv by simp
  moreover have "dom (z_blocks z3) = dom (z_blocks z) \<longleftrightarrow> z_blocks z3 = z_blocks z"
    using sub map_le_antisym [of "z_blocks z" "z_blocks z3"]
    by (metis map_le_def)
  ultimately show ?thesis using z3(1) sub by simp
qed

subsection \<open>Properties\<close>

text \<open>The options are what the command line says, each given as \<open>-x arg\<close>: the last one of a kind
  wins, \<open>-L\<close> counts if it names a directory and otherwise ends the program with status -1, and
  any other option letter ends it with status 0.\<close>

theorem options_last_wins:
  assumes "\<forall>ca\<in>set os. option_ok stat ca"
  shows "parse_options stat (getopt [] (concat (map option_words os))) default_options
      = Inr (with_options os default_options)
    \<and> (x_file_isdir stat (Some d) = 0 \<longrightarrow>
        parse_options stat (getopt [] (concat (map option_words os) @ [''-L'', d] @ rest)) default_options
        = Inl (Exited (-1)))
    \<and> (c \<notin> {CHR ''c'', CHR ''L'', CHR ''l'', CHR ''d'', CHR ''-''} \<longrightarrow>
        parse_options stat (getopt [] (concat (map option_words os) @ [[CHR ''-'', c]] @ rest)) default_options
        = Inl (Exited 0))"
  using getopt_words [OF assms, of "[]"] getopt_words [OF assms] parse_options_ok [OF assms]
    parse_options_ok [OF assms, of "[]"]
  by auto

theorem options_last_wins_witness:
  "parse_options (\<lambda>f. if f = ''/var/log'' then Some True else None)
      (getopt [] [''-c'', ''a.xml'', ''-l'', ''WARNING'', ''-L'', ''/var/log'', ''-c'', ''b.xml'', ''-d''])
      default_options
   = Inr \<lparr>op_conf = Some ''b.xml'', op_log = Some ''/var/log'', op_daemon = 1, op_level = LOG_LEVEL_WARN\<rparr>"
  using options_last_wins [of "[(CHR ''c'', Some ''a.xml''), (CHR ''l'', Some ''WARNING''),
      (CHR ''L'', Some ''/var/log''), (CHR ''c'', Some ''b.xml''), (CHR ''d'', None)]"
      "\<lambda>f. if f = ''/var/log'' then Some True else None"]
  by (simp add: option_ok_def option_words_def with_options_def or_else_def default_options_def
      x_file_isdir_def log_level_of_def)

text \<open>When the configuration cannot be read, \<open>main\<close> returns -1 after giving back the server's memory and
  freeing every log handler; all that was allocated is given back exactly when the file
  could not be loaded, and when it was loaded and refused some of it is not.\<close>

theorem main_conf_failure:
  assumes "program_main env api oks argv logger_static z = Inr (Returned rc lg' z')" and "z_ok z"
  shows "rc = -1 \<and> (\<forall>p. Some p \<in> set (lg_handler lg') \<longrightarrow> lg_heap lg' p = None)
    \<and> z_ok z' \<and> z_blocks z \<subseteq>\<^sub>m z_blocks z'
    \<and> (\<exists>o1. parse_options (pe_stat env) (getopt [] argv) default_options = Inr o1
         \<and> (z_blocks z' = z_blocks z \<longleftrightarrow> ik_load api (conf_path o1) = None))"
proof -
  from assms(1) obtain o1 lg1 srv oks1 z1 oks2 z2 lg2 freed
    where o1: "parse_options (pe_stat env) (getopt [] argv) default_options = Inr o1"
      and lg1: "logger_init (pe_cwd env) (pe_dirs env) (pe_mem env) (env_now (pe_log env)) 100
        LOG_LEVEL_DEBUG (op_log o1) logger_static = Inr lg1"
      and new: "x_server_new oks z = Inr (srv, oks1, z1)"
      and conf: "x_server_conf_new api (Some (conf_path o1)) oks1 z1 = Inr (None, oks2, z2)"
      and lg2: "x_log_err (pe_log env) ''Server configure init failed!'' lg1 = Inr lg2"
      and destroy: "x_server_destroy (Some srv) z2 = Inr z'"
      and free: "x_log_free lg2 = Inr (freed, lg')" and rc: "rc = -1"
    by (auto simp: program_main_def Let_def split: if_split_asm option.split_asm)
  from failed_start_heap [OF new assms(2) conf destroy] failure_report [OF lg1 lg2 free] o1 rc
  show ?thesis by (intro conjI exI [of _ o1]) simp_all
qed

definition example_penv :: program_env where
  "example_penv = \<lparr>pe_access = (\<lambda>_. 0), pe_stat = (\<lambda>_. None), pe_fork = 0, pe_cwd = Some ''/w'',
     pe_dirs = (True, True), pe_mem = (True, True), pe_log = example_env, pe_create = Inr 7,
     pe_detach = 0\<rparr>"

theorem main_conf_failure_witness:
  "\<exists>lg z. program_main example_penv (tree_api (sample_doc [])) [True, True, True, True, True] []
      logger_static z_start = Inr (Returned (-1) lg z)
    \<and> (\<forall>p. Some p \<in> set (lg_handler lg) \<longrightarrow> lg_heap lg p = None) \<and> z_blocks z \<noteq> z_blocks z_start"
proof -
  let ?main = "program_main example_penv (tree_api (sample_doc [])) [True, True, True, True, True] []
      logger_static z_start"
  have "case ?main of Inl _ \<Rightarrow> False
      | Inr r \<Rightarrow> (case r of Returned rc lg z \<Rightarrow> True | Serving srv thr lg z \<Rightarrow> False)"
    by code_simp
  then obtain rc lg z where run: "?main = Inr (Returned rc lg z)"
    by (auto split: sum.split_asm outcome.split_asm)
  note failure = main_conf_failure [OF run z_start_ok]
  then have rest: "rc = -1" "\<forall>p. Some p \<in> set (lg_handler lg) \<longrightarrow> lg_heap lg p = None" by simp_all
  from failure obtain o1
    where o1: "parse_options (pe_stat example_penv) (getopt [] []) default_options = Inr o1"
      and eq: "z_blocks z = z_blocks z_start \<longleftrightarrow> ik_load (tree_api (sample_doc [])) (conf_path o1) = None"
    by (elim conjE exE)
  have "conf_path o1 = ''etc/conf.xml''"
    using o1 by (auto simp: conf_path_def default_options_def DEFAULT_CONF_FILE_def)
  then have "ik_load (tree_api (sample_doc [])) (conf_path o1) \<noteq> None" by (simp add: tree_api_def)
  with eq rest run show ?thesis by auto
qed

text \<open>The five signals end the program with status 0, and each but \<open>SIGALRM\<close> writes one line to the
  error log first, whatever the log level is; \<open>SIGALRM\<close> writes to the log at level \<open>DEBUG\<close> only.
  Any other signal leaves the program running.\<close>

theorem signal_exits:
  assumes "log_ok lg" and "lg_is_inited lg" and "g_log_level lg = LOG_LEVEL_NORMAL"
    and "0 \<le> lg_is_debug lg" and "lg_is_debug lg \<le> LOG_LEVEL_NONE" and "env_fopen env"
    and "\<And>p h. lg_heap lg p = Some h \<Longrightarrow>
      room (g_path_buf lg) (lg_maxsize lg) (env_sizes env) (env_now env) h"
  shows "\<exists>status lg'. signal_handler env v sig lg = Inr (status, lg')
    \<and> (status = Some 0 \<longleftrightarrow> sig \<in> {SIGHUP, SIGINT, SIGQUIT, SIGALRM, SIGTERM})
    \<and> (status = None \<longleftrightarrow> sig \<notin> {SIGHUP, SIGINT, SIGQUIT, SIGALRM, SIGTERM})
    \<and> (if sig = SIGALRM \<and> lg_is_debug lg \<noteq> LOG_LEVEL_DEBUG then lg' = lg
       else \<exists>msg. emitted env (if sig = SIGALRM then LOG_LEVEL_DEBUG else LOG_LEVEL_ERR) msg lg lg')"
proof -
  have err: "\<exists>lg'. x_log_err env msg lg = Inr lg' \<and> emitted env LOG_LEVEL_ERR msg lg lg'" for msg
    using x_log_err_emits [OF assms(1-3,5,6), of msg] assms(7) by blast
  have dbg: "\<exists>lg'. x_log_debug env msg lg = Inr lg' \<and>
      (if lg_is_debug lg \<noteq> LOG_LEVEL_DEBUG then lg' = lg else emitted env LOG_LEVEL_DEBUG msg lg lg')" for msg
    using logger_log_emits [OF assms(1) _ _ assms(3,6), of LOG_LEVEL_DEBUG msg] assms(2,4,7)
    by (auto simp: x_log_debug_def)
  show ?thesis
  proof (cases "sig = SIGALRM")
    case True
    from dbg [of "''xtp: recv SIGALRM signal(pid='' @ printf_d (env_pid env) @ '')''"] True
    show ?thesis by (auto simp: signal_handler_def Let_def split: if_split_asm)
  next
    case False
    have "\<exists>msg st. signal_handler env v sig lg
        = bindR (x_log_err env msg lg) (\<lambda>lg'. Inr (st, lg'))
      \<and> (st = Some 0 \<longleftrightarrow> sig \<in> {SIGHUP, SIGINT, SIGQUIT, SIGTERM}) \<and> (st = None \<longleftrightarrow> st \<noteq> Some 0)"
      using False unfolding signal_handler_def Let_def by auto
    then obtain msg st where st: "signal_handler env v sig lg = bindR (x_log_err env msg lg) (\<lambda>lg'. Inr (st, lg'))"
      "st = Some 0 \<longleftrightarrow> sig \<in> {SIGHUP, SIGINT, SIGQUIT, SIGTERM}" "st = None \<longleftrightarrow> st \<noteq> Some 0" by blast
    from err [of msg] obtain lg' where "x_log_err env msg lg = Inr lg'"
      "emitted env LOG_LEVEL_ERR msg lg lg'" by blast
    with st False show ?thesis by (intro exI [of _ st] exI [of _ lg']) auto
  qed
qed

theorem signal_exits_witness:
  "\<exists>lg lg' msg. example_logger = Inr lg \<and> signal_handler example_env 0 SIGTERM lg = Inr (Some 0, lg')
     \<and> emitted example_env LOG_LEVEL_ERR msg lg lg'"
proof -
  have "case example_logger of Inl _ \<Rightarrow> False | Inr lg \<Rightarrow> lg_is_inited lg
      \<and> g_log_level lg = LOG_LEVEL_NORMAL \<and> lg_is_debug lg = LOG_LEVEL_DEBUG" by code_simp
  then obtain lg where lg: "example_logger = Inr lg" "lg_is_inited lg" "g_log_level lg = LOG_LEVEL_NORMAL"
    "lg_is_debug lg = LOG_LEVEL_DEBUG" by (auto split: sum.split_asm)
  have "log_ok lg" using logger_init_ok [OF lg(1) [unfolded example_logger_def] lg(2)] .
  moreover have "room (g_path_buf lg) (lg_maxsize lg) (env_sizes example_env) (env_now example_env) h" for h
    by (simp add: room_def example_env_def check_file_size_def) blast
  moreover have "env_fopen example_env" by (simp add: example_env_def)
  ultimately show ?thesis
    using signal_exits [of lg example_env 0 SIGTERM] lg by auto
qed

end
