(* ===== verification/Progress.thy ===== *)
theory Progress
  imports Proxy
begin

section \<open>Progress of waiting clients\<close>

text \<open>
  What becomes of the client at the head of the queue when a place is free: it gets an upstream
  connection if the system provides one, and if every attempt to connect fails at once the
  two functions of admission call each other without end.
\<close>

text \<open>A state in which the head \<open>c\<close> of the queue can be offered a place, with the next answers of the system.\<close>

definition can_try :: "nat \<Rightarrow> nat list \<Rightarrow> world \<Rightarrow> bool" where
  "can_try c q w \<longleftrightarrow> ln_cq_waiting w = c # q \<and> srv_ok (ln_srvcf w)
     \<and> ln_working_num w < sc_working_num_max (ln_srvcf w)
     \<and> (\<exists>p. w_conns w c = Some p \<and> upc_idle p \<and> c_status p = CONN_WAITING)"

lemma can_try_inv:
  assumes "proxy_inv w" and "ln_cq_waiting w = c # q"
    and "ln_working_num w < sc_working_num_max (ln_srvcf w)"
  shows "can_try c q w"
proof -
  have inv: "inv_ex {} w" using assms(1) by (simp add: proxy_inv_def)
  obtain p where p: "w_conns w c = Some p" "c_status p = CONN_WAITING"
    using queue_head [OF inv assms(2)] by blast
  have "\<not> upc_active p" using inv p by (auto simp: inv_ex_def waiting_idle_def)
  then have "upc_idle p" using inv_conn_ok [OF inv p(1)] by (simp add: conn_ok_def upstream_ok_def)
  with p assms(2,3) inv_srv_ok [OF inv] show ?thesis by (auto simp: can_try_def)
qed

text \<open>One round in which \<open>connect\<close> fails at once.\<close>

lemma failing_round:
  assumes "can_try c q w" and "o_socket w = fd # so" and "fd \<noteq> -1"
    and "o_fcntl w = fl # 0 # fc" and "fl \<noteq> -1" and "o_connect w = Some e # co" and "e \<noteq> EINPROGRESS"
  obtains w' where "x_upstream_handle w = bindR (x_upstream_handle w') (\<lambda>(rc, w''). Inr (XNET_ERR, w''))"
    and "can_try c q w'" and "o_socket w' = so" and "o_fcntl w' = fc" and "o_connect w' = co"
proof -
  from assms(1) obtain p where q: "ln_cq_waiting w = c # q" and srv: "srv_ok (ln_srvcf w)"
    and room: "ln_working_num w < sc_working_num_max (ln_srvcf w)"
    and p: "w_conns w c = Some p" "upc_idle p" "c_status p = CONN_WAITING"
    by (auto simp: can_try_def)
  define s where "s = (ln_srvcf w)\<lparr>sc_upstream_index :=
      sc_upstream_index (ln_srvcf w) mod sc_upstream_num (ln_srvcf w) + 1\<rparr>"
  obtain peer where ch: "x_upstream_choose_peer (Some (ln_srvcf w)) = Inr (Some peer, Some s)"
    and srv': "srv_ok s"
    using choose_peer_ok [OF srv] unfolding s_def by blast
  define p1 where "p1 = (upc_connecting fd p)\<lparr>c_upcf := Some peer\<rparr>"
  define w1 where "w1 = put_conn c p1 (log_sys (Sys_connect fd peer (Some e))
      (log_sys (Sys_socket fd) (w\<lparr>ln_srvcf := s, o_socket := so, o_fcntl := fc, o_connect := co\<rparr>)))"
  have init: "x_upstream_init c w = Inr (XNET_ERR, w1)"
    using assms(2-7) p ch
    by (simp add: x_upstream_init_def x_upstream_connection_new_def x_setNonBlock_def Let_def w1_def p1_def
        put_conn_def log_sys_def)
  define w2 where "w2 = (put_conn c ((upc_stopped p1)\<lparr>c_upc_status := CONN_CLOSE, c_e_send := True\<rparr>)
      (log_sys (Sys_close fd) w1))\<lparr>ln_working_num := ln_working_num w - 1\<rparr>"
  have "x_upstream_final c w1 = bindR (x_upstream_handle w2) (\<lambda>(rc, w3). Inr w3)"
  proof -
    have c1: "get_conn c w1 = Inr p1" "c_upc_status p1 = CONN_CONNECT" "c_status p1 = CONN_WAITING" "c_upc_fd p1 = fd"
      "ln_working_num w1 = ln_working_num w"
      using p(3) by (simp_all add: w1_def p1_def upc_connecting_def)
    have "x_access_send_to_client c (log_sys (Sys_close fd) (put_conn c ((upc_stopped p1)\<lparr>c_upc_status := CONN_CLOSE\<rparr>) w1))
        = Inr (put_conn c ((upc_stopped p1)\<lparr>c_upc_status := CONN_CLOSE, c_e_send := True\<rparr>) (log_sys (Sys_close fd) w1))"
      by (simp add: x_access_send_to_client_def upd_conn_def get_conn_def put_conn_def log_sys_def)
    then show ?thesis
      by (subst x_upstream_final.simps) (simp add: c1 w2_def Let_def)
  qed
  then have run: "x_upstream_handle w = bindR (x_upstream_handle w2) (\<lambda>(rc, w''). Inr (XNET_ERR, w''))"
    using q room init by (simp add: x_upstream_handle.simps [of w] bindR_def split: sum.split prod.split)
  have "can_try c q w2"
    using q p srv' room
    by (simp add: can_try_def w2_def w1_def p1_def s_def upc_idle_def upc_stopped_def upc_connecting_def)
  from that [OF run this] show ?thesis by (simp add: w2_def w1_def)
qed

subsection \<open>Properties\<close>

text \<open>C16: The head of the waiting queue is served when a place is free and the system gives it a socket whose
  connect succeeds or is under way: \<open>x_upstream_handle\<close> takes it from the queue and it works.\<close>

theorem head_admitted:
  assumes "proxy_inv w" and "ln_cq_waiting w = c # q"
    and "ln_working_num w < sc_working_num_max (ln_srvcf w)"
    and "o_socket w = fd # so" and "fd \<noteq> -1" and "o_fcntl w = fl # 0 # fc" and "fl \<noteq> -1"
    and "o_connect w = rc # co" and "rc = None \<or> rc = Some EINPROGRESS"
  shows "\<exists>w' p. x_upstream_handle w = Inr (XNET_OK, w') \<and> proxy_inv w' \<and> ln_cq_waiting w' = q
    \<and> w_conns w' c = Some p \<and> c_status p = CONN_WORKING \<and> c_upc_status p = CONN_CONNECT \<and> c_upc_fd p = fd
    \<and> ln_working_num w' = ln_working_num w + 1"
proof -
  have inv: "inv_ex {} w" using assms(1) by (simp add: proxy_inv_def)
  from can_try_inv [OF assms(1-3)] obtain p where p: "w_conns w c = Some p" "upc_idle p" "c_status p = CONN_WAITING"
    and srv: "srv_ok (ln_srvcf w)" by (auto simp: can_try_def)
  obtain peer s where ch: "x_upstream_choose_peer (Some (ln_srvcf w)) = Inr (Some peer, Some s)"
    using choose_peer_ok [OF srv] by blast
  define p1 where "p1 = (upc_connecting fd p)\<lparr>c_upcf := Some peer\<rparr>"
  define w1 where "w1 = put_conn c p1 (log_sys (Sys_connect fd peer rc)
      (log_sys (Sys_socket fd) (w\<lparr>ln_srvcf := s, o_socket := so, o_fcntl := fc, o_connect := co\<rparr>)))"
  have init: "x_upstream_init c w = Inr (XNET_OK, w1)"
    using assms(4-9) p ch
    by (auto simp: x_upstream_init_def x_upstream_connection_new_def x_setNonBlock_def Let_def w1_def p1_def
        put_conn_def log_sys_def)
  have live: "\<forall>d\<in>set (ln_cq_waiting w1). conn_live w1 d"
    using queue_live [OF inv] by (auto simp: w1_def conn_live_def)
  have "cq_remove c w1 = Inr (w1\<lparr>ln_cq_waiting := q\<rparr>)"
    using okR_cq_remove [OF _ live, of c] assms(2) by (simp add: w1_def)
  then obtain w' where w': "x_upstream_handle w = Inr (XNET_OK, w')"
    "w' = (put_conn c (p1\<lparr>c_status := CONN_WORKING\<rparr>)
        (w1\<lparr>ln_cq_waiting := q, ln_cq_waiting_num := ln_cq_waiting_num w1 - 1\<rparr>))
        \<lparr>ln_working_num := ln_working_num w1 + 1\<rparr>"
    using assms(2,3) init
    by (simp add: x_upstream_handle.simps [of w] upd_conn_def get_conn_def w1_def)
  moreover have "inv_ex {} w'" using x_upstream_handle_ok [OF inv] w'(1) by simp
  ultimately show ?thesis
    by (auto simp: proxy_inv_def w1_def p1_def upc_connecting_def)
qed

text \<open>A client waits although there is a place: there was no socket when it asked.\<close>

lemma stranded_run:
  obtains w where "ev_reach ev_started dispatch timely example_world w" and "ln_cq_waiting w = [0]"
    and "ln_working_num w = 0" and "sc_working_num_max (ln_srvcf w) = 1"
proof (rule run_returns)
  show "case run_events ev_started dispatch timely [client_comes 4, client_asks 0 [-1] []] example_world of
      Inl _ \<Rightarrow> False
    | Inr w \<Rightarrow> ln_cq_waiting w = [0] \<and> ln_working_num w = 0 \<and> sc_working_num_max (ln_srvcf w) = 1"
    by code_simp
qed (use that in blast)

lemma stranded_world:
  obtains w where "proxy_inv (load a w)" and "ln_cq_waiting (load a w) = 0 # []"
    and "ln_working_num (load a w) < sc_working_num_max (ln_srvcf (load a w))"
proof -
  obtain w where w: "ev_reach ev_started dispatch timely example_world w" "ln_cq_waiting w = [0]"
    "ln_working_num w = 0" "sc_working_num_max (ln_srvcf w) = 1" by (rule stranded_run)
  have "proxy_inv (load a w)"
    using proxy.reach_inv [OF w(1) example_world_inv] load_inv by (simp add: proxy_inv_def)
  with w that show ?thesis by simp
qed

theorem head_admitted_witness:
  "\<exists>w w' p. x_upstream_handle w = Inr (XNET_OK, w') \<and> ln_cq_waiting w = [0] \<and> ln_cq_waiting w' = []
    \<and> w_conns w' 0 = Some p \<and> c_status p = CONN_WORKING"
proof -
  let ?a = "no_answers\<lparr>a_socket := [9], a_fcntl := [2, 0], a_connect := [Some EINPROGRESS]\<rparr>"
  obtain w where w: "proxy_inv (load ?a w)" "ln_cq_waiting (load ?a w) = 0 # []"
    "ln_working_num (load ?a w) < sc_working_num_max (ln_srvcf (load ?a w))" by (rule stranded_world)
  have "o_socket (load ?a w) = 9 # []" "o_fcntl (load ?a w) = 2 # 0 # []"
    "o_connect (load ?a w) = Some EINPROGRESS # []" by (simp_all add: load_def)
  from head_admitted [OF w this(1) _ this(2) _ this(3)] w(2) show ?thesis by fastforce
qed

text \<open>C17: When \<open>connect\<close> fails at once, as it does without a route to the servers, \<open>x_upstream_handle\<close> and
  \<open>x_upstream_final\<close> call each other again for the same client; as long as sockets are to be
  had there is no end to it: however many answers the system gives, they ask for another.\<close>

theorem connect_failure_recursion:
  assumes "proxy_inv w" and "ln_cq_waiting w = c # q"
    and "ln_working_num w < sc_working_num_max (ln_srvcf w)"
    and "o_socket w = replicate n fd" and "fd \<noteq> -1"
    and "o_fcntl w = concat (replicate n [fl, 0])" and "fl \<noteq> -1"
    and "o_connect w = replicate n (Some e)" and "e \<noteq> EINPROGRESS"
  shows "x_upstream_handle w = Inl Script_end"
  using can_try_inv [OF assms(1-3)] assms(4,6,8)
proof (induction n arbitrary: w)
  case 0
  then have w: "ln_cq_waiting w = c # q" "srv_ok (ln_srvcf w)"
    "ln_working_num w < sc_working_num_max (ln_srvcf w)" "o_socket w = []" by (auto simp: can_try_def)
  obtain peer s where "x_upstream_choose_peer (Some (ln_srvcf w)) = Inr (Some peer, Some s)"
    using choose_peer_ok [OF w(2)] by blast
  then have "x_upstream_init c w = Inl Script_end"
    using w(4) by (simp add: x_upstream_init_def x_upstream_connection_new_def)
  with w show ?case by (simp add: x_upstream_handle.simps [of w])
next
  case (Suc n)
  obtain w' where "x_upstream_handle w = bindR (x_upstream_handle w') (\<lambda>(rc, w''). Inr (XNET_ERR, w''))"
    "can_try c q w'" "o_socket w' = replicate n fd" "o_fcntl w' = concat (replicate n [fl, 0])"
    "o_connect w' = replicate n (Some e)"
    using failing_round [OF Suc.prems(1), of fd "replicate n fd" fl "concat (replicate n [fl, 0])" e "replicate n (Some e)"]
      Suc.prems assms(5,7,9) by auto
  with Suc.IH [of w'] show ?case by simp
qed

theorem connect_failure_recursion_witness:
  "\<exists>w. ln_cq_waiting w = [0] \<and> length (o_socket w) = 50 \<and> x_upstream_handle w = Inl Script_end"
proof -
  let ?a = "no_answers\<lparr>a_socket := replicate 50 9, a_fcntl := concat (replicate 50 [2, 0]),
      a_connect := replicate 50 (Some EOTHER)\<rparr>"
  obtain w where w: "proxy_inv (load ?a w)" "ln_cq_waiting (load ?a w) = 0 # []"
    "ln_working_num (load ?a w) < sc_working_num_max (ln_srvcf (load ?a w))" by (rule stranded_world)
  have a: "o_socket (load ?a w) = replicate 50 9" "o_fcntl (load ?a w) = concat (replicate 50 [2, 0])"
    "o_connect (load ?a w) = replicate 50 (Some EOTHER)" by (simp_all only: load_def) simp_all
  have "x_upstream_handle (load ?a w) = Inl Script_end"
    by (rule connect_failure_recursion [OF w a(1) _ a(2) _ a(3)]) simp_all
  moreover have "length (o_socket (load ?a w)) = 50" unfolding a(1) by simp
  ultimately show ?thesis using w(2) by blast
qed

end
