(* ===== verification/Delivery.thy ===== *)
theory Delivery
  imports Proxy "HOL-Library.Sublist"
begin

section \<open>What is delivered to whom\<close>

text \<open>
  The byte streams of the proxy seen from outside, over whole runs of the event loop: what
  each callback took from its socket and what it wrote to its socket is recorded next to the
  event (\<open>history\<close>), and for every connection the four streams are compared: from the client,
  to the upstream server, from the upstream server, to the client.  The two chains of the
  connection are all that lies between them, until one of the ends is closed.
\<close>

subsection \<open>Recording a run\<close>

fun sent_bytes :: "sys \<Rightarrow> byte list" where
  "sent_bytes (Sys_send fd bs) = bs"
| "sent_bytes _ = []"

definition sends :: "sys list \<Rightarrow> byte list" where
  "sends tr = concat (map sent_bytes tr)"

text \<open>What one callback wrote to sockets, and what it took from the answers of \<open>recv\<close>.\<close>

definition sent :: "world \<Rightarrow> world \<Rightarrow> byte list" where
  "sent w w' = drop (length (sends (w_trace w))) (sends (w_trace w'))"

definition received :: "world \<Rightarrow> world \<Rightarrow> byte list" where
  "received w w' = take (length (recv_bytes (o_recv w)) - length (recv_bytes (o_recv w')))
     (recv_bytes (o_recv w))"

type_synonym entry = "event \<times> byte list \<times> byte list"

inductive history :: "world \<Rightarrow> entry list \<Rightarrow> world \<Rightarrow> bool" for w0 where
  history_start: "history w0 [] w0"
| history_event: "history w0 (h @ [(e, received (load a w) w', sent (load a w) w')]) w'"
    if "history w0 h w" "ev_started w e" "timely w e" "dispatch e a w = Inr w'"

definition from_client :: "nat \<Rightarrow> entry list \<Rightarrow> byte list" where
  "from_client c h = concat (map (\<lambda>(e, r, s). if e = Ev_recv c then r else []) h)"

definition to_server :: "nat \<Rightarrow> entry list \<Rightarrow> byte list" where
  "to_server c h = concat (map (\<lambda>(e, r, s). if e = Ev_upc_send c then s else []) h)"

definition from_server :: "nat \<Rightarrow> entry list \<Rightarrow> byte list" where
  "from_server c h = concat (map (\<lambda>(e, r, s). if e = Ev_upc_recv c then r else []) h)"

definition to_client :: "nat \<Rightarrow> entry list \<Rightarrow> byte list" where
  "to_client c h = concat (map (\<lambda>(e, r, s). if e = Ev_send c then s else []) h)"

lemmas stream_defs = from_client_def to_server_def from_server_def to_client_def

lemma history_reach: "history w0 h w \<Longrightarrow> ev_reach ev_started dispatch timely w0 w"
  by (induction rule: history.induct) (auto intro: ev_reach.intros)

fun run_history :: "(event \<times> answers) list \<Rightarrow> world \<Rightarrow> fault + (entry list \<times> world)" where
  "run_history [] w = Inr ([], w)"
| "run_history ((e, a) # es) w =
     (if ev_started w e \<and> timely w e
      then bindR (dispatch e a w) (\<lambda>w1. bindR (run_history es w1) (\<lambda>(h, w').
        Inr ((e, received (load a w) w1, sent (load a w) w1) # h, w')))
      else run_history es w)"

lemma run_history_extends:
  "run_history es w = Inr (h, w') \<Longrightarrow> history w0 h0 w \<Longrightarrow> history w0 (h0 @ h) w'"
proof (induction es arbitrary: w h h0)
  case Nil
  then show ?case by simp
next
  case (Cons x es)
  obtain e a where x: "x = (e, a)" by (cases x)
  show ?case
  proof (cases "ev_started w e \<and> timely w e")
    case True
    with Cons.prems(1) x obtain w1 h1 where w1: "dispatch e a w = Inr w1"
      and rest: "run_history es w1 = Inr (h1, w')"
      and h: "h = (e, received (load a w) w1, sent (load a w) w1) # h1" by auto
    have "history w0 (h0 @ [(e, received (load a w) w1, sent (load a w) w1)]) w1"
      using Cons.prems(2) True w1 by (blast intro: history_event)
    from Cons.IH [OF rest this] h show ?thesis by simp
  next
    case False
    with Cons x show ?thesis by auto
  qed
qed

subsection \<open>What does not move bytes\<close>

text \<open>
  A connection is \<open>over\<close> when bytes may have been dropped on their way: it is closed, or its
  upstream side is, after having been open.
\<close>

definition over :: "xtp_conn \<Rightarrow> bool" where
  "over p \<longleftrightarrow> c_status p = CONN_CLOSE
     \<or> c_upc_status p = CONN_CLOSE \<and> c_status p \<noteq> CONN_NONE \<and> c_status p \<noteq> CONN_WAITING"

definition kept :: "xtp_conn \<Rightarrow> xtp_conn \<Rightarrow> bool" where
  "kept p p' \<longleftrightarrow> c_pipe1 p' = c_pipe1 p \<and> c_pipe2 p' = c_pipe2 p \<and> (over p \<longrightarrow> over p')
     \<and> (c_status p = CONN_CLOSE \<longrightarrow> c_status p' = CONN_CLOSE)"

definition kept_all :: "world \<Rightarrow> world \<Rightarrow> bool" where
  "kept_all w w' \<longleftrightarrow> sends (w_trace w') = sends (w_trace w) \<and> o_recv w' = o_recv w \<and> w_next w' = w_next w
     \<and> (\<forall>d. rel_option kept (w_conns w d) (w_conns w' d))"

definition heads_wait :: "world \<Rightarrow> bool" where
  "heads_wait w \<longleftrightarrow> (\<forall>c\<in>set (ln_cq_waiting w). is_waiting w c)"

lemma sends_simps [simp]:
  "sends [] = []" "sends (s # tr) = sent_bytes s @ sends tr" "sends (xs @ ys) = sends xs @ sends ys"
  by (simp_all add: sends_def)

lemma kept_refl [simp]: "kept p p"
  by (simp add: kept_def)

lemma rel_option_kept_refl [simp]: "rel_option kept x x"
  by (cases x) simp_all

lemma kept_all_refl [simp]: "kept_all w w"
  by (simp add: kept_all_def)

lemma kept_trans: "kept p q \<Longrightarrow> kept q r \<Longrightarrow> kept p r"
  by (simp add: kept_def)

lemma rel_option_kept_trans: "rel_option kept x y \<Longrightarrow> rel_option kept y z \<Longrightarrow> rel_option kept x z"
  by (cases x; cases y; cases z) (auto intro: kept_trans)

lemma kept_all_trans: "kept_all w v \<Longrightarrow> kept_all v w' \<Longrightarrow> kept_all w w'"
  unfolding kept_all_def by (metis rel_option_kept_trans)

lemma kept_allE:
  assumes "kept_all w w'" and "w_conns w' c = Some p'"
  obtains p where "w_conns w c = Some p" and "kept p p'"
proof -
  have "rel_option kept (w_conns w c) (Some p')" using assms unfolding kept_all_def by metis
  then show ?thesis using that by (cases "w_conns w c") simp_all
qed

lemma kept_allD: "kept_all w w' \<Longrightarrow> w_conns w c = Some p \<Longrightarrow> w_conns w' c = Some p' \<Longrightarrow> kept p p'"
  by (auto elim: kept_allE)

lemma kept_all_live: "kept_all w w' \<Longrightarrow> w_conns w' c = None \<longleftrightarrow> w_conns w c = None"
  unfolding kept_all_def by (metis option.rel_distinct(1,2) option.exhaust)

text \<open>One connection changed, nothing sent or read.\<close>

lemma kept_all_put:
  assumes "w_conns w c = Some p" and "w_conns w' = (w_conns w)(c \<mapsto> p')" and "kept p p'"
    and "sends (w_trace w') = sends (w_trace w)" and "o_recv w' = o_recv w" and "w_next w' = w_next w"
  shows "kept_all w w'"
  using assms by (auto simp: kept_all_def)

lemma kept_all_same:
  assumes "w_conns w' = w_conns w" and "sends (w_trace w') = sends (w_trace w)" and "o_recv w' = o_recv w"
    and "w_next w' = w_next w"
  shows "kept_all w w'"
  using assms by (simp add: kept_all_def)

definition attempt_kept :: "nat \<Rightarrow> xtp_conn \<Rightarrow> world \<Rightarrow> int \<Rightarrow> world \<Rightarrow> bool" where
  "attempt_kept c p w rc w' \<longleftrightarrow> sends (w_trace w') = sends (w_trace w) \<and> o_recv w' = o_recv w
     \<and> ln_cq_waiting w' = ln_cq_waiting w \<and> w_next w' = w_next w
     \<and> (\<exists>p'. w_conns w' = (w_conns w)(c \<mapsto> p') \<and> same_client p p' \<and> c_status p' = c_status p
         \<and> (rc = XNET_OK \<longrightarrow> c_upc_status p' = CONN_CONNECT))"

lemma connection_new_kept:
  assumes "x_upstream_connection_new c upcf w = Inr (rc, w')" and "w_conns w c = Some p"
  shows "attempt_kept c p w rc w'"
proof -
  from assms obtain fd so where so: "o_socket w = fd # so"
    by (auto simp: x_upstream_connection_new_def)
  define w1 where "w1 = log_sys (Sys_socket fd) (w\<lparr>o_socket := so\<rparr>)"
  have same: "attempt_kept c p w XNET_ERR w1" "attempt_kept c p w XNET_ERR (w1\<lparr>o_fcntl := fc\<rparr>)" for fc
    using assms(2) by (auto simp: attempt_kept_def w1_def same_client_def intro!: exI [of _ p])
  show ?thesis
  proof (cases "fd = -1")
    case True
    with assms same(1) so show ?thesis
      by (auto simp: x_upstream_connection_new_def w1_def Let_def)
  next
    case False
    with assms(1) so obtain r opts fc where nb: "x_setNonBlock (o_fcntl w) = Inr (r, opts, fc)"
      by (auto simp: x_upstream_connection_new_def Let_def)
    show ?thesis
    proof (cases "r = -1")
      case True
      with assms(1) so nb \<open>fd \<noteq> -1\<close> same(2) [of fc] show ?thesis
        by (simp add: x_upstream_connection_new_def w1_def Let_def)
    next
      case False
      with assms so nb \<open>fd \<noteq> -1\<close> show ?thesis
        by (auto simp: x_upstream_connection_new_def Let_def attempt_kept_def same_client_def
            upc_connecting_def split: if_split_asm option.split_asm)
    qed
  qed
qed

lemma x_upstream_init_kept:
  assumes "x_upstream_init c w = Inr (rc, w')" and "w_conns w c = Some p"
  shows "attempt_kept c p w rc w'"
proof -
  from assms(1) obtain upcf srvcf w1 w2 where w1: "w1 = (case srvcf of None \<Rightarrow> w | Some s \<Rightarrow> w\<lparr>ln_srvcf := s\<rparr>)"
    and run: "x_upstream_connection_new c upcf w1 = Inr (rc, w2)"
    and w': "upd_conn c (\<lambda>p. p\<lparr>c_upcf := upcf\<rparr>) w2 = Inr w'"
    by (auto simp: x_upstream_init_def Let_def simp del: upd_conn_Inr)
  have "w_conns w1 c = Some p" using w1 assms(2) by (simp split: option.split)
  from connection_new_kept [OF run this] w1 w' show ?thesis
    by (auto simp: attempt_kept_def same_client_def split: option.splits)
qed

lemma heads_wait_put:
  assumes "heads_wait w" and "w_conns w' = (w_conns w)(c \<mapsto> p')" and "ln_cq_waiting w' = ln_cq_waiting w"
    and "w_conns w c = Some p" and "c_status p' = c_status p"
  shows "heads_wait w'"
  using assms by (auto simp: heads_wait_def is_waiting_iff)

lemma attempt_kept_all:
  assumes "attempt_kept c p w rc w'" and "w_conns w c = Some p" and "c_status p = CONN_WAITING" and "heads_wait w"
  shows "kept_all w w'" and "heads_wait w'"
proof -
  from assms(1) obtain p' where p': "w_conns w' = (w_conns w)(c \<mapsto> p')" "same_client p p'"
      "c_status p' = c_status p"
    and rest: "sends (w_trace w') = sends (w_trace w)" "o_recv w' = o_recv w" "w_next w' = w_next w"
      "ln_cq_waiting w' = ln_cq_waiting w"
    by (auto simp: attempt_kept_def)
  have "kept p p'" using p' assms(3) by (simp add: kept_def over_def same_client_def)
  from kept_all_put [OF assms(2) p'(1) this rest(1-3)] show "kept_all w w'" .
  from heads_wait_put [OF assms(4) p'(1) rest(4) assms(2) p'(3)] show "heads_wait w'" .
qed

lemma cq_remove_kept:
  assumes "cq_remove c w = Inr w'"
  shows "w_conns w' = w_conns w" and "w_trace w' = w_trace w" and "o_recv w' = o_recv w"
    and "w_next w' = w_next w" and "set (ln_cq_waiting w') \<subseteq> set (ln_cq_waiting w)"
    and "distinct (ln_cq_waiting w) \<Longrightarrow> c \<notin> set (ln_cq_waiting w')"
  using assms set_remove1_subset [of c "ln_cq_waiting w"]
  by (auto simp: cq_remove_def Let_def split: if_split_asm)

text \<open>Finalising an open upstream connection closes it and goes on to admission.\<close>

definition upc_closed :: "xtp_conn \<Rightarrow> xtp_conn" where
  "upc_closed p = (upc_stopped p)\<lparr>c_upc_status := CONN_CLOSE, c_e_send := c_e_send p \<or> c_status p \<noteq> CONN_CLOSE\<rparr>"

definition final_world :: "nat \<Rightarrow> xtp_conn \<Rightarrow> world \<Rightarrow> world" where
  "final_world c p v = (log_sys (Sys_close (c_upc_fd p)) (put_conn c (upc_closed p) v))
     \<lparr>ln_working_num := ln_working_num v - 1\<rparr>"

lemma final_run:
  assumes "w_conns v c = Some p"
  shows "x_upstream_final c v =
    (if c_upc_status p = CONN_NONE \<or> c_upc_status p = CONN_CLOSE then Inr v
     else bindR (x_upstream_handle (final_world c p v)) (\<lambda>(rc, w). Inr w))"
  using assms
  by (simp add: x_upstream_final.simps [of c v] get_conn_def final_world_def upc_closed_def upc_stopped_def
      x_access_send_to_client_def upd_conn_def put_conn_log put_conn_twice Let_def)

lemma final_world_kept:
  assumes "w_conns v c = Some p" and "heads_wait v" and "c_upc_status p \<noteq> CONN_CLOSE"
  shows "kept_all v (final_world c p v)" and "heads_wait (final_world c p v)"
proof -
  have "kept p (upc_closed p)" using assms(3) by (simp add: kept_def over_def upc_closed_def upc_stopped_def)
  then show "kept_all v (final_world c p v)"
    by (intro kept_all_put [OF assms(1), where p' = "upc_closed p"]) (simp_all add: final_world_def)
  show "heads_wait (final_world c p v)"
    by (rule heads_wait_put [OF assms(2) _ _ assms(1), where p' = "upc_closed p"])
      (simp_all add: final_world_def, simp add: upc_closed_def upc_stopped_def)
qed

text \<open>
  Induction on the calls of \<open>x_upstream_handle\<close>: it has nothing to do; it admits the head of the
  queue; the attempt ends before a socket is open; or it is finalised, and admission begins again.
\<close>

definition admitted_world :: "nat \<Rightarrow> xtp_conn \<Rightarrow> world \<Rightarrow> world" where
  "admitted_world c p w = (put_conn c (p\<lparr>c_status := CONN_WORKING\<rparr>)
     (w\<lparr>ln_cq_waiting_num := ln_cq_waiting_num w - 1\<rparr>))\<lparr>ln_working_num := ln_working_num w + 1\<rparr>"

lemma handle_induct [consumes 1, case_names idle admit refused retry]:
  assumes "x_upstream_handle w = Inr (rc, w')"
    and "\<And>w. ln_cq_waiting w = [] \<or> sc_working_num_max (ln_srvcf w) \<le> ln_working_num w \<Longrightarrow> P w w"
    and "\<And>w c q w1 w2 p. ln_cq_waiting w = c # q \<Longrightarrow> ln_working_num w < sc_working_num_max (ln_srvcf w)
      \<Longrightarrow> x_upstream_init c w = Inr (XNET_OK, w1) \<Longrightarrow> cq_remove c w1 = Inr w2 \<Longrightarrow> w_conns w2 c = Some p
      \<Longrightarrow> P w (admitted_world c p w2)"
    and "\<And>w c q r w1 p. ln_cq_waiting w = c # q \<Longrightarrow> x_upstream_init c w = Inr (r, w1) \<Longrightarrow> r \<noteq> XNET_OK
      \<Longrightarrow> w_conns w1 c = Some p \<Longrightarrow> c_upc_status p = CONN_NONE \<or> c_upc_status p = CONN_CLOSE \<Longrightarrow> P w w1"
    and "\<And>w c q r w1 p w'. ln_cq_waiting w = c # q \<Longrightarrow> x_upstream_init c w = Inr (r, w1) \<Longrightarrow> r \<noteq> XNET_OK
      \<Longrightarrow> w_conns w1 c = Some p \<Longrightarrow> c_upc_status p \<noteq> CONN_NONE \<Longrightarrow> c_upc_status p \<noteq> CONN_CLOSE
      \<Longrightarrow> P (final_world c p w1) w' \<Longrightarrow> P w w'"
  shows "P w w'"
  using assms(1)
proof (induction "length (o_socket w)" arbitrary: w rc w' rule: less_induct)
  case less
  show ?case
  proof (cases "ln_cq_waiting w = [] \<or> sc_working_num_max (ln_srvcf w) \<le> ln_working_num w")
    case True
    then have "w' = w"
      using less.prems by (auto simp: x_upstream_handle.simps [of w] split: list.splits if_split_asm)
    with assms(2) True show ?thesis by simp
  next
    case busy: False
    then obtain c q where q: "ln_cq_waiting w = c # q" by (cases "ln_cq_waiting w") auto
    from less.prems busy q obtain r w1 where init: "x_upstream_init c w = Inr (r, w1)"
      by (auto simp: x_upstream_handle.simps [of w])
    show ?thesis
    proof (cases "r = XNET_OK")
      case True
      with less.prems q init busy obtain w2 p where "cq_remove c w1 = Inr w2" "w_conns w2 c = Some p"
        and "w' = admitted_world c p w2"
        by (auto simp: x_upstream_handle.simps [of w] Let_def admitted_world_def)
      with assms(3) [OF q] init True busy show ?thesis by simp
    next
      case False
      with less.prems q init busy have fin: "x_upstream_final c w1 = Inr w'"
        by (simp add: x_upstream_handle.simps [of w])
      then obtain p where p: "w_conns w1 c = Some p" by (auto simp: x_upstream_final.simps [of c w1])
      show ?thesis
      proof (cases "c_upc_status p = CONN_NONE \<or> c_upc_status p = CONN_CLOSE")
        case True
        with fin p assms(4) [OF q init False p] show ?thesis by (simp add: final_run)
      next
        case up: False
        with fin p obtain rc' where run: "x_upstream_handle (final_world c p w1) = Inr (rc', w')"
          by (auto simp: final_run)
        have "length (o_socket (final_world c p w1)) < length (o_socket w)"
          using x_upstream_init_socket [OF init] by (simp add: final_world_def)
        from assms(5) [OF q init False p _ _ less.hyps [OF this run]] up show ?thesis by simp
      qed
    qed
  qed
qed

text \<open>Admission: a connection that is taken from the queue was not over, and is not.\<close>

lemma init_head_kept:
  assumes "x_upstream_init c w = Inr (r, w1)" and "ln_cq_waiting w = c # q" and "heads_wait w"
  shows "kept_all w w1" and "heads_wait w1" and "w_conns w1 c = Some p \<Longrightarrow> c_status p = CONN_WAITING"
proof -
  from assms(2,3) obtain p0 where p0: "w_conns w c = Some p0" "c_status p0 = CONN_WAITING"
    by (auto simp: heads_wait_def is_waiting_iff)
  note att = x_upstream_init_kept [OF assms(1) p0(1)]
  from attempt_kept_all [OF att p0 assms(3)] show "kept_all w w1" "heads_wait w1" .
  show "w_conns w1 c = Some p \<Longrightarrow> c_status p = CONN_WAITING" using att p0 by (auto simp: attempt_kept_def)
qed

lemma handle_kept:
  assumes "x_upstream_handle w = Inr (rc, w')" and "heads_wait w"
  shows "kept_all w w'"
proof -
  have "heads_wait w \<longrightarrow> kept_all w w'"
    using assms(1)
  proof (induction rule: handle_induct)
    case (admit w c q w1 w2 p)
    note rem = cq_remove_kept [OF admit(4)]
    have "kept_all w1 (admitted_world c p w2)" if "heads_wait w"
    proof (rule kept_all_put [where c = c and p = p])
      have "c_status p = CONN_WAITING" using init_head_kept(3) [OF admit(3,1) that] admit(5) rem(1) by simp
      then show "kept p (p\<lparr>c_status := CONN_WORKING\<rparr>)" by (simp add: kept_def over_def)
    qed (use rem admit(5) in \<open>simp_all add: admitted_world_def\<close>)
    with init_head_kept(1) [OF admit(3,1)] kept_all_trans show ?case by blast
  next
    case (refused w c q r w1 p)
    with init_head_kept(1) show ?case by blast
  next
    case (retry w c q r w1 p w')
    with init_head_kept [OF retry(2,1)] final_world_kept [OF retry(4)] kept_all_trans show ?case by blast
  qed simp
  with assms(2) show ?thesis by simp
qed

lemma final_kept:
  assumes "x_upstream_final c v = Inr v'" and "heads_wait v" and "w_conns v c = Some p"
  shows "kept_all v v'"
    and "c_upc_status p \<noteq> CONN_NONE \<Longrightarrow> c_status p \<noteq> CONN_NONE \<Longrightarrow> c_status p \<noteq> CONN_WAITING
      \<Longrightarrow> w_conns v' c = Some p' \<Longrightarrow> over p'"
proof -
  have "kept_all v v' \<and> (c_upc_status p \<noteq> CONN_NONE \<and> c_status p \<noteq> CONN_NONE \<and> c_status p \<noteq> CONN_WAITING
      \<and> w_conns v' c = Some p' \<longrightarrow> over p')"
  proof (cases "c_upc_status p = CONN_NONE \<or> c_upc_status p = CONN_CLOSE")
    case True
    with assms show ?thesis by (auto simp: final_run over_def)
  next
    case False
    with assms obtain rc where run: "x_upstream_handle (final_world c p v) = Inr (rc, v')"
      by (auto simp: final_run)
    from False have "c_upc_status p \<noteq> CONN_CLOSE" by simp
    note fw = final_world_kept [OF assms(3,2) this]
    note k = handle_kept [OF run fw(2)]
    have "w_conns (final_world c p v) c = Some (upc_closed p)" by (simp add: final_world_def)
    from kept_allD [OF k this] have "w_conns v' c = Some p' \<Longrightarrow> over (upc_closed p) \<Longrightarrow> over p'"
      by (auto simp: kept_def)
    then show ?thesis
      using kept_all_trans [OF fw(1) k] by (simp add: over_def upc_closed_def upc_stopped_def)
  qed
  then show "kept_all v v'"
    and "c_upc_status p \<noteq> CONN_NONE \<Longrightarrow> c_status p \<noteq> CONN_NONE \<Longrightarrow> c_status p \<noteq> CONN_WAITING
      \<Longrightarrow> w_conns v' c = Some p' \<Longrightarrow> over p'" by blast+
qed

lemma close_kept:
  assumes "x_event_close c w = Inr w'" and "heads_wait w" and "w_conns w c = Some p"
  shows "kept_all w w'" and "\<exists>p'. w_conns w' c = Some p' \<and> c_status p' = CONN_CLOSE"
proof -
  show "\<exists>p'. w_conns w' c = Some p' \<and> c_status p' = CONN_CLOSE" using assms(1) by (rule x_event_close_closes)
  show "kept_all w w'"
  proof (cases "c_status p = CONN_CLOSE")
    case True
    with assms(1,3) show ?thesis by (simp add: x_event_close_def)
  next
    case False
    with assms(1,3) obtain w1 where w1: "x_upstream_final c w = Inr w1"
      by (auto simp: x_event_close_def split: if_split_asm)
    note k1 = final_kept(1) [OF w1 assms(2,3)]
    from assms(1,3) False w1 obtain p1 where p1: "w_conns w1 c = Some p1"
      by (auto simp: x_event_close_def split: if_split_asm)
    define w2 where "w2 = log_sys (Sys_close (c_fd p1)) (put_conn c (p1\<lparr>c_e_recv := False, c_e_send := False\<rparr>) w1)"
    let ?take = "if c_status p1 = CONN_WAITING
      then bindR (cq_remove c w2) (\<lambda>w'. Inr (w'\<lparr>ln_cq_waiting_num := ln_cq_waiting_num w' - 1\<rparr>)) else Inr w2"
    from assms(1,3) False w1 p1 obtain w3 p3 where w3: "?take = Inr w3" and p3: "w_conns w3 c = Some p3"
      and w': "w_conns w' = (w_conns w3)(c \<mapsto> p3\<lparr>c_e_timer := Timer_again CONN_FREE_TIMEOUT, c_status := CONN_CLOSE\<rparr>)"
        "w_trace w' = w_trace w3" "o_recv w' = o_recv w3" "w_next w' = w_next w3"
      by (auto simp: x_event_close_def Let_def w2_def split: if_split_asm)
    have "w_conns w3 = w_conns w2" "w_trace w3 = w_trace w2" "o_recv w3 = o_recv w2" "w_next w3 = w_next w2"
      using w3 cq_remove_kept(1-4) by (auto split: if_split_asm)
    with w' p3 have "kept_all w1 w'"
      by (intro kept_all_put [OF p1, where p' = "p1\<lparr>c_e_recv := False, c_e_send := False,
          c_e_timer := Timer_again CONN_FREE_TIMEOUT, c_status := CONN_CLOSE\<rparr>"])
        (auto simp: w2_def kept_def over_def)
    with k1 show ?thesis by (rule kept_all_trans)
  qed
qed

subsection \<open>What one callback moves\<close>

text \<open>
  \<open>moved p p' i1 o1 i2 o2\<close>: a callback that took \<open>i1\<close> from the client, gave \<open>o1\<close> to the
  server, took \<open>i2\<close> from the server and gave \<open>o2\<close> to the client has brought a connection from
  \<open>p\<close> to \<open>p'\<close>.
\<close>

abbreviation requests :: "xtp_conn \<Rightarrow> byte list" where
  "requests p \<equiv> pipe_bytes (c_pipe1 p)"

abbreviation responses :: "xtp_conn \<Rightarrow> byte list" where
  "responses p \<equiv> pipe_bytes (c_pipe2 p)"

definition moved :: "xtp_conn \<Rightarrow> xtp_conn \<Rightarrow> byte list \<Rightarrow> byte list \<Rightarrow> byte list \<Rightarrow> byte list \<Rightarrow> bool" where
  "moved p p' i1 o1 i2 o2 \<longleftrightarrow>
     (over p \<longrightarrow> over p' \<and> o1 = [] \<and> i2 = [])
   \<and> (c_status p = CONN_CLOSE \<longrightarrow> c_status p' = CONN_CLOSE \<and> o2 = [])
   \<and> prefix o1 (requests p @ i1) \<and> prefix o2 (responses p @ i2)
   \<and> (\<not> over p' \<longrightarrow> requests p @ i1 = o1 @ requests p')
   \<and> (c_status p' \<noteq> CONN_CLOSE \<longrightarrow>
        (\<exists>l. responses p @ i2 = o2 @ responses p' @ l \<and> (\<not> over p' \<longrightarrow> l = [])))"

definition ledger_ok :: "xtp_conn \<Rightarrow> byte list \<Rightarrow> byte list \<Rightarrow> byte list \<Rightarrow> byte list \<Rightarrow> bool" where
  "ledger_ok p f1 t1 f2 t2 \<longleftrightarrow> prefix t1 f1 \<and> prefix t2 f2
   \<and> (\<not> over p \<longrightarrow> f1 = t1 @ requests p)
   \<and> (c_status p \<noteq> CONN_CLOSE \<longrightarrow>
        (\<exists>l. f2 = t2 @ responses p @ l \<and> (\<not> over p \<longrightarrow> l = [])))"

lemma closed_over: "c_status p = CONN_CLOSE \<Longrightarrow> over p"
  by (simp add: over_def)

lemma ledger_step:
  assumes "ledger_ok p f1 t1 f2 t2" and "moved p p' i1 o1 i2 o2"
  shows "ledger_ok p' (f1 @ i1) (t1 @ o1) (f2 @ i2) (t2 @ o2)"
proof -
  have req: "prefix (t1 @ o1) (f1 @ i1) \<and> (\<not> over p' \<longrightarrow> f1 @ i1 = (t1 @ o1) @ requests p')"
  proof (cases "over p")
    case True
    with assms show ?thesis by (auto simp: ledger_ok_def moved_def)
  next
    case False
    with assms show ?thesis by (auto simp: ledger_ok_def moved_def)
  qed
  have resp: "prefix (t2 @ o2) (f2 @ i2) \<and> (c_status p' \<noteq> CONN_CLOSE \<longrightarrow>
      (\<exists>l. f2 @ i2 = (t2 @ o2) @ responses p' @ l \<and> (\<not> over p' \<longrightarrow> l = [])))"
  proof (cases "c_status p = CONN_CLOSE")
    case True
    with assms closed_over [OF True] show ?thesis by (auto simp: ledger_ok_def moved_def)
  next
    case False
    with assms(1) obtain l where l: "f2 = t2 @ responses p @ l" "\<not> over p \<Longrightarrow> l = []"
      by (auto simp: ledger_ok_def)
    then have "f2 @ i2 = t2 @ (responses p @ i2) @ l"
      using assms(2) by (cases "over p") (auto simp: moved_def)
    moreover obtain z where z: "responses p @ i2 = o2 @ z"
      using assms(2) by (auto simp: moved_def prefix_def)
    ultimately have all: "f2 @ i2 = (t2 @ o2) @ z @ l" by simp
    have "\<not> over p' \<Longrightarrow> l = []" using l(2) assms(2) by (auto simp: moved_def)
    moreover have "\<exists>l'. z = responses p' @ l' \<and> (\<not> over p' \<longrightarrow> l' = [])" if "c_status p' \<noteq> CONN_CLOSE"
      using assms(2) that unfolding moved_def z by simp
    ultimately show ?thesis unfolding all by fastforce
  qed
  from req resp show ?thesis unfolding ledger_ok_def by blast
qed

lemma kept_moved: "kept p p' \<Longrightarrow> moved p p' [] [] [] []"
  by (auto simp: kept_def moved_def)

lemma moved_kept: "moved p q i1 o1 i2 o2 \<Longrightarrow> kept q p' \<Longrightarrow> moved p p' i1 o1 i2 o2"
  by (auto simp: kept_def moved_def)

lemma moved_closed:
  assumes "c_status p' = CONN_CLOSE" and "prefix o1 (requests p @ i1)" and "prefix o2 (responses p @ i2)"
    and "over p \<Longrightarrow> o1 = [] \<and> i2 = []" and "c_status p = CONN_CLOSE \<Longrightarrow> o2 = []"
  shows "moved p p' i1 o1 i2 o2"
  using assms closed_over by (auto simp: moved_def)

text \<open>What a callback owes: of the connections that are there afterwards, \<open>c\<close> has moved bytes and
  no other has; whoever is gone has moved nothing.\<close>

definition step_moves :: "world \<Rightarrow> nat \<Rightarrow> byte list \<Rightarrow> byte list \<Rightarrow> byte list \<Rightarrow> byte list \<Rightarrow> world \<Rightarrow> bool" where
  "step_moves w c i1 o1 i2 o2 w' \<longleftrightarrow> (\<forall>d p'. w_conns w' d = Some p' \<longrightarrow> (\<exists>p. w_conns w d = Some p
     \<and> (if d = c then moved p p' i1 o1 i2 o2 else moved p p' [] [] [] [])))
   \<and> (w_conns w' c = None \<longrightarrow> i1 @ o1 @ i2 @ o2 = []) \<and> w_next w' = w_next w"

lemma step_moves_kept: "kept_all w w' \<Longrightarrow> step_moves w c [] [] [] [] w'"
  unfolding step_moves_def using kept_allE [of w w'] kept_moved
  by (auto simp: kept_all_def [of w w']) metis

lemma recvs:
  assumes "recv_bytes (o_recv w) = bs @ recv_bytes (o_recv w')"
  shows "received w w' = bs"
  using assms by (simp add: received_def)

lemma sents:
  assumes "sends (w_trace w') = sends (w_trace w) @ bs"
  shows "sent w w' = bs"
  using assms by (simp add: sent_def)

text \<open>A callback that first changes \<open>c\<close> and then only calls what keeps bytes in place.\<close>

lemma step_moves_put:
  assumes "w_conns w c = Some p" and "w_conns v = (w_conns w)(c \<mapsto> q)" and "w_next v = w_next w" and "kept_all v w'"
    and "\<And>p'. kept q p' \<Longrightarrow> w_conns w' c = Some p' \<Longrightarrow> moved p p' i1 o1 i2 o2"
  shows "step_moves w c i1 o1 i2 o2 w'"
  unfolding step_moves_def
proof (intro conjI allI impI)
  fix d p' assume p': "w_conns w' d = Some p'"
  with assms(4) obtain r where r: "w_conns v d = Some r" "kept r p'" by (rule kept_allE)
  show "\<exists>p. w_conns w d = Some p \<and> (if d = c then moved p p' i1 o1 i2 o2 else moved p p' [] [] [] [])"
  proof (cases "d = c")
    case True
    with r assms(1,2,5) p' show ?thesis by auto
  next
    case False
    with r assms(2) kept_moved show ?thesis by auto
  qed
qed (use assms(2,3) kept_all_live [OF assms(4), of c] assms(4) in \<open>simp_all add: kept_all_def\<close>)

lemma inv_heads_wait: "inv_ex X w \<Longrightarrow> heads_wait w"
  by (auto simp: inv_ex_def queue_ok_def heads_wait_def)

lemma step_moves_live: "step_moves w c i1 o1 i2 o2 w' \<Longrightarrow> w_conns w d = None \<Longrightarrow> w_conns w' d = None"
  unfolding step_moves_def by (metis option.distinct(1) option.exhaust)

lemma send_to_peer_kept: "x_upstream_send_to_peer c w = Inr w' \<Longrightarrow> kept_all w w'"
  by (auto simp: x_upstream_send_to_peer_def kept_def over_def intro!: kept_all_put)

lemma send_to_client_kept: "x_access_send_to_client c w = Inr w' \<Longrightarrow> kept_all w w'"
  by (auto simp: x_access_send_to_client_def kept_def over_def intro!: kept_all_put)

lemma asked_kept:
  assumes "bindR (get_conn c w) (\<lambda>q. if c_upc_status q = CONN_WORKING
    then x_upstream_send_to_peer c w else Inr w) = Inr w'"
  shows "kept_all w w'"
  using assms send_to_peer_kept [of c w w'] by (auto split: if_split_asm)

lemma x_recv_cb_moves:
  assumes "x_recv_cb c w = Inr w'" and "inv_ex {} w" and "w_conns w c = Some p"
  shows "step_moves w c (received w w') [] [] [] w'"
proof -
  have pipe: "pipe_ok (ln_bp w) (c_pipe1 p)" using inv_conn_ok [OF assms(2,3)] by (simp add: conn_ok_def)
  from assms(1,3) obtain out pipe1 bp rs ms
    where rcv: "pipe_recv (c_pipe1 p) (ln_bp w) (o_recv w) (o_malloc w) = Inr (out, pipe1, bp, rs, ms)"
    by (auto simp: x_recv_cb_def)
  from pipe_recv_post [OF rcv inv_pool_ok [OF assms(2)] pipe] obtain got lost where
    bytes: "recv_bytes (o_recv w) = got @ lost @ recv_bytes rs" "pipe_bytes pipe1 = requests p @ got"
      "out = Drained \<longrightarrow> lost = []" by (auto simp: recv_post_def)
  let ?q = "p\<lparr>c_pipe1 := pipe1\<rparr>"
  define w1 where "w1 = put_conn c ?q (w\<lparr>ln_bp := bp, o_recv := rs, o_malloc := ms\<rparr>)"
  have q: "w_conns w1 c = Some ?q" and w1: "w_conns w1 = (w_conns w)(c \<mapsto> ?q)"
    and rec1: "o_recv w1 = rs" and next1: "w_next w1 = w_next w" by (simp_all add: w1_def)
  have heads: "heads_wait w1"
    by (rule heads_wait_put [OF inv_heads_wait [OF assms(2)] w1 _ assms(3)]) (simp_all add: w1_def)
  show ?thesis
  proof (cases "out = Closed")
    case True
    with assms(1,3) rcv have close: "x_event_close c w1 = Inr w'"
      by (simp add: x_recv_cb_def w1_def Let_def get_conn_def)
    note k = close_kept [OF close heads q]
    have "received w w' = got @ lost" by (rule recvs) (use k(1) bytes rec1 in \<open>simp add: kept_all_def\<close>)
    moreover have "step_moves w c (got @ lost) [] [] [] w'"
      by (rule step_moves_put [OF assms(3) w1 next1 k(1)])
        (use k(2) in \<open>auto simp: kept_def over_def intro: moved_closed\<close>)
    ultimately show ?thesis by simp
  next
    case False
    then have lost: "lost = []" using bytes(3) by (cases out) simp_all
    have k: "kept_all w1 w'"
    proof (cases "c_status p = CONN_NONE")
      case True
      with assms(1,3) rcv False obtain w2 p2 w3 rc w4 where w2: "cq_insert_tail c w1 = Inr w2"
        and p2: "w_conns w2 c = Some p2"
        and w3: "w3 = put_conn c (p2\<lparr>c_status := CONN_WAITING\<rparr>) (w2\<lparr>ln_cq_waiting_num := ln_cq_waiting_num w2 + 1\<rparr>)"
        and w4: "x_upstream_handle w3 = Inr (rc, w4)"
        and w': "bindR (get_conn c w4) (\<lambda>q. if c_upc_status q = CONN_WORKING
            then x_upstream_send_to_peer c w4 else Inr w4) = Inr w'"
        by (simp add: x_recv_cb_def w1_def [symmetric] Let_def) blast
      have ins: "w_conns w2 = w_conns w1" "w_trace w2 = w_trace w1" "o_recv w2 = o_recv w1"
        "w_next w2 = w_next w1" "ln_cq_waiting w2 = ln_cq_waiting w1 @ [c]"
        using w2 by (auto simp: cq_insert_tail_def Let_def split: if_split_asm)
      have "kept ?q (p2\<lparr>c_status := CONN_WAITING\<rparr>)"
        using p2 q ins(1) True by (auto simp: kept_def over_def)
      then have k3: "kept_all w1 w3"
        by (intro kept_all_put [OF q, where p' = "p2\<lparr>c_status := CONN_WAITING\<rparr>"]) (simp_all add: w3 ins)
      have "heads_wait w3" using heads by (auto simp: heads_wait_def is_waiting_iff w3 ins)
      note k4 = handle_kept [OF w4 this]
      show ?thesis using asked_kept [OF w'] kept_all_trans [OF kept_all_trans [OF k3 k4]] by blast
    next
      case False
      with assms(1,3) rcv \<open>out \<noteq> Closed\<close> have "bindR (get_conn c w1) (\<lambda>q. if c_upc_status q = CONN_WORKING
            then x_upstream_send_to_peer c w1 else Inr w1) = Inr w'"
        by (simp add: x_recv_cb_def w1_def [symmetric] Let_def)
      then show ?thesis by (rule asked_kept)
    qed
    have "received w w' = got" by (rule recvs) (use k bytes rec1 lost in \<open>simp add: kept_all_def\<close>)
    moreover have "moved p ?q got [] [] []" using bytes(2) by (auto simp: moved_def over_def)
    ultimately show ?thesis
      using step_moves_put [OF assms(3) w1 next1 k moved_kept] by simp
  qed
qed

lemma active_not_over:
  assumes "inv_ex {} w" and "w_conns w c = Some p" and "upc_active p"
  shows "\<not> over p" and "c_status p \<noteq> CONN_NONE" and "c_status p \<noteq> CONN_WAITING" and "c_upc_status p \<noteq> CONN_NONE"
  using assms(3) inv_conn_ok [OF assms(1,2)] inv_waiting_idle [OF assms(1,2)]
  by (auto simp: over_def upc_active_def conn_ok_def upstream_ok_def phase_ok_def conn_open_def)

lemma x_upstream_recv_cb_moves:
  assumes "x_upstream_recv_cb c w = Inr w'" and "inv_ex {} w" and "w_conns w c = Some p" and "upc_active p"
  shows "step_moves w c [] [] (received w w') [] w'"
proof -
  have pipe: "pipe_ok (ln_bp w) (c_pipe2 p)" using inv_conn_ok [OF assms(2,3)] by (simp add: conn_ok_def)
  note act = active_not_over [OF assms(2-4)]
  from assms(1,3) obtain out pipe2 bp rs ms
    where rcv: "pipe_recv (c_pipe2 p) (ln_bp w) (o_recv w) (o_malloc w) = Inr (out, pipe2, bp, rs, ms)"
    by (auto simp: x_upstream_recv_cb_def)
  from pipe_recv_post [OF rcv inv_pool_ok [OF assms(2)] pipe] obtain got lost where
    bytes: "recv_bytes (o_recv w) = got @ lost @ recv_bytes rs" "pipe_bytes pipe2 = responses p @ got"
      "out = Drained \<longrightarrow> lost = []" by (auto simp: recv_post_def)
  let ?q = "p\<lparr>c_pipe2 := pipe2\<rparr>"
  define w1 where "w1 = put_conn c ?q (w\<lparr>ln_bp := bp, o_recv := rs, o_malloc := ms\<rparr>)"
  have q: "w_conns w1 c = Some ?q" and w1: "w_conns w1 = (w_conns w)(c \<mapsto> ?q)"
    and rec1: "o_recv w1 = rs" and next1: "w_next w1 = w_next w" by (simp_all add: w1_def)
  have heads: "heads_wait w1"
    by (rule heads_wait_put [OF inv_heads_wait [OF assms(2)] w1 _ assms(3)]) (simp_all add: w1_def)
  show ?thesis
  proof (cases "out = Closed")
    case True
    with assms(1,3) rcv have fin: "x_upstream_final c w1 = Inr w'"
      by (simp add: x_upstream_recv_cb_def w1_def Let_def get_conn_def)
    note k = final_kept [OF fin heads q]
    have "received w w' = got @ lost" by (rule recvs) (use k(1) bytes rec1 in \<open>simp add: kept_all_def\<close>)
    moreover have "step_moves w c [] [] (got @ lost) [] w'"
      by (rule step_moves_put [OF assms(3) w1 next1 k(1)])
        (use k(2) act bytes in \<open>auto simp: kept_def moved_def closed_over\<close>)
    ultimately show ?thesis by simp
  next
    case False
    then have lost: "lost = []" using bytes(3) by (cases out) simp_all
    from assms(1,3) rcv False have "x_access_send_to_client c w1 = Inr w'"
      by (simp add: x_upstream_recv_cb_def w1_def Let_def get_conn_def)
    note k = send_to_client_kept [OF this]
    have "received w w' = got" by (rule recvs) (use k bytes rec1 lost in \<open>simp add: kept_all_def\<close>)
    moreover have "moved p ?q [] [] got []" using bytes(2) act(1) by (auto simp: moved_def over_def)
    ultimately show ?thesis
      using step_moves_put [OF assms(3) w1 next1 k moved_kept] by simp
  qed
qed

lemma bufsend_bytes:
  assumes "bufsend_post bp pipe [] (out, pipe', bp', bs, ss)"
  obtains rest where "pipe_bytes pipe = bs @ rest" and "out \<noteq> Send_error \<longrightarrow> pipe_bytes pipe' = rest"
  using assms by (cases "out = Send_error") (auto simp: bufsend_post_def send_post_def)

lemma x_upstream_send_cb_moves:
  assumes "x_upstream_send_cb c w = Inr w'" and "inv_ex {} w" and "w_conns w c = Some p" and "upc_active p"
  shows "step_moves w c [] (sent w w') [] [] w'"
proof -
  have pipe: "pipe_ok (ln_bp w) (c_pipe1 p)" using inv_conn_ok [OF assms(2,3)] by (simp add: conn_ok_def)
  note act = active_not_over [OF assms(2-4)]
  from assms(1,3) obtain out pipe1 bp bs ss
    where snd: "upstream_bufsend (c_pipe1 p) (ln_bp w) [] (o_send w) = Inr (out, pipe1, bp, bs, ss)"
    by (auto simp: x_upstream_send_cb_def)
  from upstream_bufsend_post [OF snd inv_pool_ok [OF assms(2)] pipe] obtain rest where
    bytes: "requests p = bs @ rest" "out \<noteq> Send_error \<longrightarrow> pipe_bytes pipe1 = rest"
    by (rule bufsend_bytes)
  let ?q = "p\<lparr>c_pipe1 := pipe1\<rparr>"
  define w1 where "w1 = log_sys (Sys_send (c_upc_fd p) bs) (put_conn c ?q (w\<lparr>ln_bp := bp, o_send := ss\<rparr>))"
  have q: "w_conns w1 c = Some ?q" and w1: "w_conns w1 = (w_conns w)(c \<mapsto> ?q)"
    and tr1: "sends (w_trace w1) = sends (w_trace w) @ bs" and next1: "w_next w1 = w_next w" by (simp_all add: w1_def)
  have heads: "heads_wait w1"
    by (rule heads_wait_put [OF inv_heads_wait [OF assms(2)] w1 _ assms(3)]) (simp_all add: w1_def)
  show ?thesis
  proof (cases "out = Send_error")
    case True
    with assms(1,3) snd have fin: "x_upstream_final c w1 = Inr w'"
      by (simp add: x_upstream_send_cb_def w1_def Let_def get_conn_def)
    note k = final_kept [OF fin heads q]
    have "sent w w' = bs" by (rule sents) (use k(1) tr1 in \<open>simp add: kept_all_def\<close>)
    moreover have "step_moves w c [] bs [] [] w'"
      by (rule step_moves_put [OF assms(3) w1 next1 k(1)])
        (use k(2) act bytes in \<open>auto simp: kept_def moved_def closed_over\<close>)
    ultimately show ?thesis by simp
  next
    case False
    with assms(1,3) snd have "upd_conn c (\<lambda>p. p\<lparr>c_upc_e_send := False\<rparr>) w1 = Inr w'"
      by (simp add: x_upstream_send_cb_def w1_def Let_def get_conn_def upd_conn_def del: bindR_Inr_iff)
    then have k: "kept_all w1 w'"
      by (auto simp: kept_def over_def intro!: kept_all_put)
    have "sent w w' = bs" by (rule sents) (use k(1) tr1 in \<open>simp add: kept_all_def\<close>)
    moreover have "moved p ?q [] bs [] []" using bytes False act(1) by (auto simp: moved_def over_def)
    ultimately show ?thesis
      using step_moves_put [OF assms(3) w1 next1 k moved_kept] by simp
  qed
qed

lemma x_send_cb_moves:
  assumes "x_send_cb c w = Inr w'" and "inv_ex {} w" and "w_conns w c = Some p" and "conn_open p"
  shows "step_moves w c [] [] [] (sent w w') w'"
proof -
  have pipe: "pipe_ok (ln_bp w) (c_pipe2 p)" using inv_conn_ok [OF assms(2,3)] by (simp add: conn_ok_def)
  from assms(1,3) obtain out pipe2 bp bs ss
    where snd: "access_bufsend (c_pipe2 p) (ln_bp w) [] (o_send w) = Inr (out, pipe2, bp, bs, ss)"
    by (auto simp: x_send_cb_def)
  from access_bufsend_post [OF snd inv_pool_ok [OF assms(2)] pipe] obtain rest where
    bytes: "responses p = bs @ rest" "out \<noteq> Send_error \<longrightarrow> pipe_bytes pipe2 = rest"
    by (rule bufsend_bytes)
  let ?q = "p\<lparr>c_pipe2 := pipe2\<rparr>"
  define w1 where "w1 = log_sys (Sys_send (c_fd p) bs) (put_conn c ?q (w\<lparr>ln_bp := bp, o_send := ss\<rparr>))"
  have q: "w_conns w1 c = Some ?q" and w1: "w_conns w1 = (w_conns w)(c \<mapsto> ?q)"
    and tr1: "sends (w_trace w1) = sends (w_trace w) @ bs" and next1: "w_next w1 = w_next w" by (simp_all add: w1_def)
  have heads: "heads_wait w1"
    by (rule heads_wait_put [OF inv_heads_wait [OF assms(2)] w1 _ assms(3)]) (simp_all add: w1_def)
  have fin: "send_finished c w1 = Inr w' \<Longrightarrow> kept_all w1 w'"
    using close_kept(1) [OF _ heads q] q
    by (auto simp: send_finished_def kept_def over_def intro!: kept_all_put split: if_split_asm)
  show ?thesis
  proof (cases "out = Send_error")
    case True
    with assms(1,3) snd have close: "x_event_close c w1 = Inr w'"
      by (simp add: x_send_cb_def w1_def Let_def get_conn_def)
    note k = close_kept [OF close heads q]
    have "sent w w' = bs" by (rule sents) (use k(1) tr1 in \<open>simp add: kept_all_def\<close>)
    moreover have "step_moves w c [] [] [] bs w'"
      by (rule step_moves_put [OF assms(3) w1 next1 k(1)])
        (use k(2) bytes assms(4) in \<open>auto simp: conn_open_def intro: moved_closed\<close>)
    ultimately show ?thesis by simp
  next
    case False
    with assms(1,3) snd have "w' = w1 \<or> send_finished c w1 = Inr w'"
      by (auto simp: x_send_cb_def w1_def Let_def split: send_out.split_asm)
    with fin have k: "kept_all w1 w'" by auto
    have "sent w w' = bs" by (rule sents) (use k(1) tr1 in \<open>simp add: kept_all_def\<close>)
    moreover have "moved p ?q [] [] [] bs" using bytes False assms(4) by (auto simp: moved_def over_def conn_open_def)
    ultimately show ?thesis
      using step_moves_put [OF assms(3) w1 next1 k moved_kept] by simp
  qed
qed

lemma x_upstream_connected_cb_kept:
  assumes "x_upstream_connected_cb c w = Inr w'" and "inv_ex {} w" and "w_conns w c = Some p" and "upc_active p"
  shows "kept_all w w'"
proof -
  from assms(1,3) obtain so valopt where so: "o_sockopt w = valopt # so"
    by (auto simp: x_upstream_connected_cb_def)
  let ?w1 = "w\<lparr>o_sockopt := so\<rparr>"
  have k1: "kept_all w ?w1" by (rule kept_all_same) simp_all
  have "heads_wait ?w1" using inv_heads_wait [OF assms(2)] by (simp add: heads_wait_def is_waiting_def)
  note fin = final_kept(1) [OF _ this]
  have "kept_all ?w1 w'"
  proof (cases "valopt = Some 0")
    case False
    with assms(1,3) so have "x_upstream_final c ?w1 = Inr w'"
      by (auto simp: x_upstream_connected_cb_def Let_def split: option.split_asm)
    from fin [OF this] assms(3) show ?thesis by simp
  next
    case True
    with assms(1,3) so active_not_over [OF assms(2-4)] show ?thesis
      by (auto simp: x_upstream_connected_cb_def Let_def kept_def over_def
          split: option.split_asm intro!: kept_all_put [where w = ?w1])
  qed
  with k1 show ?thesis by (rule kept_all_trans)
qed

lemma x_upstream_timeout_cb_kept:
  assumes "x_upstream_timeout_cb c w = Inr w'" and "inv_ex {} w" and "w_conns w c = Some p"
  shows "kept_all w w'"
proof -
  let ?p = "p\<lparr>c_upc_status := CONN_TIMEOUT\<rparr>"
  define w1 where "w1 = (if c_upc_status p \<noteq> CONN_CLOSE then put_conn c ?p w else w)"
  have "heads_wait (put_conn c ?p w)"
    by (rule heads_wait_put [OF inv_heads_wait [OF assms(2)] _ _ assms(3), where p' = ?p]) simp_all
  then have k1: "kept_all w w1" and h1: "heads_wait w1" and p1: "\<exists>p1. w_conns w1 c = Some p1"
    using inv_heads_wait [OF assms(2)] assms(3)
    by (auto simp: w1_def kept_def over_def intro!: kept_all_put [OF assms(3), where p' = ?p])
  from assms(1,3) obtain w2 where w2: "x_upstream_final c w1 = Inr w2"
    and w': "upd_conn c (\<lambda>p. p\<lparr>c_upc_e_timer := Timer_off\<rparr>) w2 = Inr w'"
    by (auto simp: x_upstream_timeout_cb_def w1_def Let_def simp del: upd_conn_Inr)
  from p1 final_kept(1) [OF w2 h1] have "kept_all w1 w2" by blast
  moreover have "kept_all w2 w'" using w' by (auto simp: kept_def over_def intro!: kept_all_put)
  ultimately show ?thesis using k1 kept_all_trans by blast
qed

lemma x_timeout_cb_moves:
  assumes "x_timeout_cb c w = Inr w'" and "inv_ex {} w" and "w_conns w c = Some p" and "c_status p \<noteq> CONN_WAITING"
  shows "step_moves w c [] [] [] [] w'" and "w_conns w' c = None"
proof -
  let ?p = "p\<lparr>c_status := CONN_TIMEOUT\<rparr>"
  define w1 where "w1 = (if c_status p \<noteq> CONN_CLOSE then put_conn c ?p w else w)"
  from assms(1,3) obtain w2 p2 where w2: "x_event_close c w1 = Inr w2" and p2: "w_conns w2 c = Some p2"
    and w': "w_conns w' = (w_conns w2)(c := None)" "w_next w' = w_next w2"
    by (auto simp: x_timeout_cb_def w1_def [symmetric] Let_def zfree_conn_def split: if_split_asm)
  have "heads_wait w1"
    using inv_heads_wait [OF assms(2)] assms(3,4) by (auto simp: w1_def heads_wait_def is_waiting_iff)
  moreover obtain p1 where p1: "w_conns w1 c = Some p1"
    using assms(3) by (cases "c_status p = CONN_CLOSE") (simp_all add: w1_def)
  ultimately have k: "kept_all w1 w2" using close_kept(1) [OF w2] by blast
  have same: "w_conns w1 d = w_conns w d" if "d \<noteq> c" for d using that by (simp add: w1_def)
  have "w_next w1 = w_next w" by (simp add: w1_def)
  with k w'(2) have "w_next w' = w_next w" by (simp add: kept_all_def)
  moreover have "\<exists>q. w_conns w d = Some q \<and> moved q q' [] [] [] []" if "w_conns w' d = Some q'" for d q'
    using that w'(1) same [of d] kept_allE [OF k, of d q'] kept_moved by (metis fun_upd_apply option.distinct(1))
  ultimately show "step_moves w c [] [] [] [] w'" by (simp add: step_moves_def)
  show "w_conns w' c = None" using w'(1) by simp
qed

subsection \<open>Every event keeps the books\<close>

lemma stream_simps [simp]:
  "from_client c [] = []" "to_server c [] = []" "from_server c [] = []" "to_client c [] = []"
  "from_client c (h @ [(e, r, s)]) = from_client c h @ (if e = Ev_recv c then r else [])"
  "to_server c (h @ [(e, r, s)]) = to_server c h @ (if e = Ev_upc_send c then s else [])"
  "from_server c (h @ [(e, r, s)]) = from_server c h @ (if e = Ev_upc_recv c then r else [])"
  "to_client c (h @ [(e, r, s)]) = to_client c h @ (if e = Ev_send c then s else [])"
  by (simp_all add: stream_defs)

definition books_ok :: "entry list \<Rightarrow> world \<Rightarrow> bool" where
  "books_ok h w \<longleftrightarrow> (\<forall>c. case w_conns w c of
       None \<Rightarrow> prefix (to_server c h) (from_client c h) \<and> prefix (to_client c h) (from_server c h)
         \<and> (w_next w \<le> c \<longrightarrow> from_client c h = [] \<and> from_server c h = [])
     | Some p \<Rightarrow> ledger_ok p (from_client c h) (to_server c h) (from_server c h) (to_client c h))"

text \<open>What happens to one connection, \<open>Some p'\<close> or \<open>None\<close> afterwards.\<close>

definition conn_books :: "world \<Rightarrow> nat \<Rightarrow> byte list \<Rightarrow> byte list \<Rightarrow> byte list \<Rightarrow> byte list \<Rightarrow> world \<Rightarrow> bool" where
  "conn_books w c i1 o1 i2 o2 w' \<longleftrightarrow> (case (w_conns w c, w_conns w' c) of
       (Some p, Some p') \<Rightarrow> moved p p' i1 o1 i2 o2
     | (None, Some p') \<Rightarrow> w_next w \<le> c \<and> requests p' @ responses p' @ i1 @ o1 @ i2 @ o2 = []
     | (_, None) \<Rightarrow> i1 @ o1 @ i2 @ o2 = [])"

lemma books_step:
  assumes "books_ok h w" and "w_next w \<le> w_next w'" and "\<forall>c\<ge>w_next w'. w_conns w' c = None"
    and "\<forall>c\<ge>w_next w. w_conns w c = None"
    and "\<And>c. conn_books w c (if e = Ev_recv c then r else []) (if e = Ev_upc_send c then s else [])
      (if e = Ev_upc_recv c then r else []) (if e = Ev_send c then s else []) w'"
  shows "books_ok (h @ [(e, r, s)]) w'"
  unfolding books_ok_def
proof
  fix c
  note old = assms(1) [unfolded books_ok_def, rule_format, of c]
  note new = assms(5) [of c, unfolded conn_books_def]
  show "case w_conns w' c of
       None \<Rightarrow> prefix (to_server c (h @ [(e, r, s)])) (from_client c (h @ [(e, r, s)]))
         \<and> prefix (to_client c (h @ [(e, r, s)])) (from_server c (h @ [(e, r, s)]))
         \<and> (w_next w' \<le> c \<longrightarrow> from_client c (h @ [(e, r, s)]) = [] \<and> from_server c (h @ [(e, r, s)]) = [])
     | Some p \<Rightarrow> ledger_ok p (from_client c (h @ [(e, r, s)])) (to_server c (h @ [(e, r, s)]))
         (from_server c (h @ [(e, r, s)])) (to_client c (h @ [(e, r, s)]))"
  proof (cases "w_conns w' c")
    case None
    with new have none: "(if e = Ev_recv c then r else []) = []" "(if e = Ev_upc_send c then s else []) = []"
      "(if e = Ev_upc_recv c then r else []) = []" "(if e = Ev_send c then s else []) = []"
      by (auto split: option.split_asm)
    have dead: "w_next w' \<le> c \<Longrightarrow> w_next w \<le> c \<and> w_conns w c = None" using assms(2,4) by simp
    show ?thesis
      unfolding stream_simps none using old None dead
      by (cases "w_conns w c") (auto simp: ledger_ok_def)
  next
    case (Some p')
    show ?thesis
    proof (cases "w_conns w c")
      case None
      with new Some old show ?thesis
        by (auto simp: ledger_ok_def split: if_split_asm)
    next
      case (Some p)
      from ledger_step [OF _ new [unfolded Some \<open>w_conns w' c = Some p'\<close> prod.case option.case]]
        old Some \<open>w_conns w' c = Some p'\<close> show ?thesis by simp
    qed
  qed
qed

lemma step_moves_books:
  assumes "step_moves w c i1 o1 i2 o2 w'" and "w_conns w c \<noteq> None"
  shows "conn_books w d (if d = c then i1 else []) (if d = c then o1 else [])
    (if d = c then i2 else []) (if d = c then o2 else []) w'"
proof (cases "w_conns w' d")
  case None
  with assms show ?thesis by (auto simp: conn_books_def step_moves_def split: option.split)
next
  case (Some p')
  with assms(1) obtain p where "w_conns w d = Some p"
    "if d = c then moved p p' i1 o1 i2 o2 else moved p p' [] [] [] []" by (auto simp: step_moves_def)
  with Some show ?thesis by (simp add: conn_books_def split: if_split_asm)
qed

lemma conn_books_idle:
  assumes "kept_all w w'"
  shows "conn_books w c [] [] [] [] w'"
proof (cases "w_conns w' c")
  case None
  then show ?thesis by (simp add: conn_books_def split: option.split)
next
  case (Some p')
  with assms obtain p where "w_conns w c = Some p" "kept p p'" by (rule kept_allE)
  with Some kept_moved show ?thesis by (simp add: conn_books_def)
qed

lemma accept_books:
  assumes "x_accept_cb w = Inr w'" and "w_conns w (w_next w) = None"
  shows "conn_books w c [] [] [] [] w'" and "w_next w \<le> w_next w'"
proof -
  from assms(1) have new: "(w_conns w' = w_conns w \<and> w_next w' = w_next w) \<or> (\<exists>q. w_next w' = w_next w + 1
      \<and> w_conns w' = (w_conns w)(w_next w \<mapsto> q) \<and> c_pipe1 q = [] \<and> c_pipe2 q = [])"
    by (auto simp: x_accept_cb_def Let_def new_conn_def split: if_split_asm)
  then show "w_next w \<le> w_next w'" by auto
  have "moved p p [] [] [] []" for p by (rule kept_moved) simp
  with new assms(2) show "conn_books w c [] [] [] [] w'"
    by (auto simp: conn_books_def split: option.split if_split_asm)
qed

lemma callback_books:
  assumes "callback e w = Inr w'" and "inv_ex {} w" and "ev_started w e" and "timely w e"
  shows "conn_books w c (if e = Ev_recv c then received w w' else []) (if e = Ev_upc_send c then sent w w' else [])
      (if e = Ev_upc_recv c then received w w' else []) (if e = Ev_send c then sent w w' else []) w'
    \<and> w_next w \<le> w_next w'"
proof (cases e)
  case Ev_accept
  have "w_conns w (w_next w) = None" using assms(2) by (simp add: inv_ex_def heap_ok_def)
  with accept_books Ev_accept assms(1) show ?thesis by simp
next
  case (Ev_recv d)
  with assms(3) obtain p where p: "w_conns w d = Some p" by (auto simp: on_conn_def split: option.splits)
  have mv: "step_moves w d (received w w') [] [] [] w'"
    by (rule x_recv_cb_moves [OF _ assms(2) p]) (use assms(1) Ev_recv in simp)
  from step_moves_books [OF this, of c] p Ev_recv mv show ?thesis
    by (simp add: step_moves_def eq_commute [of c d] cong: if_cong)
next
  case (Ev_send d)
  with assms(3) obtain p where p: "w_conns w d = Some p" "c_e_send p" by (auto simp: on_conn_def split: option.splits)
  have "conn_open p" using inv_conn_ok [OF assms(2) p(1)] p(2) by (auto simp: conn_ok_def client_ok_def split: if_split_asm)
  then have mv: "step_moves w d [] [] [] (sent w w') w'"
    by (intro x_send_cb_moves [OF _ assms(2) p(1)]) (use assms(1) Ev_send in simp_all)
  from step_moves_books [OF this, of c] p Ev_send mv show ?thesis
    by (simp add: step_moves_def eq_commute [of c d] cong: if_cong)
next
  case (Ev_timer d)
  with assms(3) obtain p where p: "w_conns w d = Some p" by (auto simp: on_conn_def split: option.splits)
  have "c_status p \<noteq> CONN_WAITING" using Ev_timer assms(4) p by (auto simp: is_waiting_iff)
  then have mv: "step_moves w d [] [] [] [] w'"
    by (intro x_timeout_cb_moves [OF _ assms(2) p]) (use assms(1) Ev_timer in simp_all)
  from step_moves_books [OF this, of c] p Ev_timer mv show ?thesis
    by (simp add: step_moves_def)
next
  case (Ev_upc_connected d)
  with assms(3) obtain p where p: "w_conns w d = Some p" "c_upc_e_connected p"
    by (auto simp: on_conn_def split: option.splits)
  then have "upc_active p" using upc_watcher_active [OF inv_conn_ok [OF assms(2)]] by (auto simp: upc_idle_def)
  from x_upstream_connected_cb_kept [OF _ assms(2) p(1) this] assms(1) Ev_upc_connected have "kept_all w w'" by simp
  with conn_books_idle [OF this] Ev_upc_connected show ?thesis by (simp add: kept_all_def)
next
  case (Ev_upc_send d)
  with assms(3) obtain p where p: "w_conns w d = Some p" "c_upc_e_send p"
    by (auto simp: on_conn_def split: option.splits)
  then have "upc_active p" using upc_watcher_active [OF inv_conn_ok [OF assms(2)]] by (auto simp: upc_idle_def)
  then have mv: "step_moves w d [] (sent w w') [] [] w'"
    by (intro x_upstream_send_cb_moves [OF _ assms(2) p(1)]) (use assms(1) Ev_upc_send in simp_all)
  from step_moves_books [OF this, of c] p Ev_upc_send mv show ?thesis
    by (simp add: step_moves_def eq_commute [of c d] cong: if_cong)
next
  case (Ev_upc_recv d)
  with assms(3) obtain p where p: "w_conns w d = Some p" "c_upc_e_recv p"
    by (auto simp: on_conn_def split: option.splits)
  then have "upc_active p" using upc_watcher_active [OF inv_conn_ok [OF assms(2)]] by (auto simp: upc_idle_def)
  then have mv: "step_moves w d [] [] (received w w') [] w'"
    by (intro x_upstream_recv_cb_moves [OF _ assms(2) p(1)]) (use assms(1) Ev_upc_recv in simp_all)
  from step_moves_books [OF this, of c] p Ev_upc_recv mv show ?thesis
    by (simp add: step_moves_def eq_commute [of c d] cong: if_cong)
next
  case (Ev_upc_timer d)
  with assms(3) obtain p where p: "w_conns w d = Some p" by (auto simp: on_conn_def split: option.splits)
  from x_upstream_timeout_cb_kept [OF _ assms(2) p] assms(1) Ev_upc_timer have "kept_all w w'" by simp
  with conn_books_idle [OF this] Ev_upc_timer show ?thesis by (simp add: kept_all_def)
qed

lemma conn_books_load: "conn_books (load a w) c i1 o1 i2 o2 w' = conn_books w c i1 o1 i2 o2 w'"
  by (cases "w_conns w c"; cases "w_conns w' c") (simp_all add: conn_books_def)

lemma history_books:
  assumes "history w0 h w" and "proxy_inv w0" and "w_conns w0 = (\<lambda>_. None)"
  shows "books_ok h w"
  using assms(1)
proof (induction rule: history.induct)
  case history_start
  with assms(3) show ?case by (simp add: books_ok_def)
next
  case (history_event h w e a w')
  have inv: "proxy_inv w" by (rule proxy.reach_inv [OF history_reach [OF history_event.hyps(1)] assms(2)])
  then have inv1: "inv_ex {} (load a w)" by (simp add: proxy_inv_def load_inv)
  have inv': "proxy_inv w'"
    using dispatch_inv [OF inv history_event.hyps(2,3), of a] history_event.hyps(4) by simp
  have run: "callback e (load a w) = Inr w'" using history_event.hyps(4) by (simp add: dispatch_def)
  note books = callback_books [OF run inv1]
  show ?case
  proof (rule books_step [OF history_event.IH])
    show "w_next w \<le> w_next w'" using books history_event.hyps(2,3) by simp
    show "\<forall>c\<ge>w_next w'. w_conns w' c = None" "\<forall>c\<ge>w_next w. w_conns w c = None"
      using inv inv' by (simp_all add: proxy_inv_def inv_ex_def heap_ok_def)
  qed (use books history_event.hyps(2,3) in \<open>simp add: conn_books_load\<close>)
qed

lemma books_streams:
  assumes "books_ok h w"
  shows "prefix (to_server c h) (from_client c h) \<and> prefix (to_client c h) (from_server c h)
    \<and> (\<forall>p. w_conns w c = Some p \<longrightarrow>
         (c_status p \<noteq> CONN_CLOSE \<and> c_upc_status p \<noteq> CONN_CLOSE \<longrightarrow>
            from_client c h = to_server c h @ pipe_bytes (c_pipe1 p)
            \<and> from_server c h = to_client c h @ pipe_bytes (c_pipe2 p))
       \<and> (c_status p \<noteq> CONN_CLOSE \<longrightarrow>
            prefix (to_client c h @ pipe_bytes (c_pipe2 p)) (from_server c h)))"
proof -
  note books = assms [unfolded books_ok_def, rule_format, of c]
  show ?thesis
  proof (cases "w_conns w c")
    case None
    with books show ?thesis by simp
  next
    case (Some p)
    with books have "ledger_ok p (from_client c h) (to_server c h) (from_server c h) (to_client c h)" by simp
    then show ?thesis unfolding Some ledger_ok_def over_def prefix_def by auto
  qed
qed

subsection \<open>Properties\<close>

text \<open>C2: End to end, over every run of the event loop from its start (in which no timer fires for a
  waiting connection): what the upstream server has been sent for a client is a prefix of what that
  client has sent, and what the client has been sent is a prefix of what the server has sent for
  it; nothing is lost, reordered, repeated or mixed up between connections.  As long as both
  sides are open, what is missing is exactly what the two chains hold; when only the upstream
  side has been closed, what the chain holds comes next for the client.\<close>

theorem streams_end_to_end:
  assumes "proxy_inv w0" and "w_conns w0 = (\<lambda>_. None)" and "history w0 h w"
  shows "prefix (to_server c h) (from_client c h) \<and> prefix (to_client c h) (from_server c h)
    \<and> (\<forall>p. w_conns w c = Some p \<longrightarrow>
         (c_status p \<noteq> CONN_CLOSE \<and> c_upc_status p \<noteq> CONN_CLOSE \<longrightarrow>
            from_client c h = to_server c h @ pipe_bytes (c_pipe1 p)
            \<and> from_server c h = to_client c h @ pipe_bytes (c_pipe2 p))
       \<and> (c_status p \<noteq> CONN_CLOSE \<longrightarrow>
            prefix (to_client c h @ pipe_bytes (c_pipe2 p)) (from_server c h)))"
  by (rule books_streams [OF history_books [OF assms(3,1,2)]])

text \<open>A run with a request of four bytes, of which two are on their way, and a response.\<close>

definition exchange :: "(event \<times> answers) list" where
  "exchange = [client_comes 4,
     (Ev_recv 0, no_answers\<lparr>a_recv := [RecvData [1, 2, 3, 4], RecvErr EAGAIN, RecvErr EAGAIN],
        a_malloc := [True, True, True], a_fcntl := [2, 0], a_socket := [5], a_connect := [Some EINPROGRESS]\<rparr>),
     (Ev_upc_connected 0, no_answers\<lparr>a_sockopt := [Some 0]\<rparr>),
     (Ev_upc_send 0, no_answers\<lparr>a_send := [SendOk 2, SendErr EAGAIN, SendErr EAGAIN]\<rparr>),
     (Ev_upc_recv 0, no_answers\<lparr>a_recv := [RecvData [9, 8], RecvErr EAGAIN, RecvErr EAGAIN],
        a_malloc := [True, True, True]\<rparr>),
     (Ev_send 0, no_answers\<lparr>a_send := [SendOk 9]\<rparr>)]"

theorem streams_end_to_end_witness:
  "\<exists>h w p. history example_world h w \<and> w_conns w 0 = Some p
    \<and> from_client 0 h = [1, 2, 3, 4] \<and> to_server 0 h = [1, 2] \<and> pipe_bytes (c_pipe1 p) = [3, 4]
    \<and> from_server 0 h = [9, 8] \<and> to_client 0 h = [9, 8]"
proof -
  have "case run_history exchange example_world of Inl _ \<Rightarrow> False
    | Inr (h, w) \<Rightarrow> from_client 0 h = [1, 2, 3, 4] \<and> to_server 0 h = [1, 2] \<and> from_server 0 h = [9, 8]
        \<and> to_client 0 h = [9, 8]
        \<and> on_conn w 0 (\<lambda>p. c_status p \<noteq> CONN_CLOSE \<and> c_upc_status p \<noteq> CONN_CLOSE)"
    by code_simp
  then obtain h w p where run: "run_history exchange example_world = Inr (h, w)" and p: "w_conns w 0 = Some p"
    and io: "from_client 0 h = [1, 2, 3, 4]" "to_server 0 h = [1, 2]" "from_server 0 h = [9, 8]" "to_client 0 h = [9, 8]"
    and op: "c_status p \<noteq> CONN_CLOSE" "c_upc_status p \<noteq> CONN_CLOSE"
    by (auto simp: on_conn_def split: sum.split_asm prod.split_asm option.split_asm)
  have hist: "history example_world h w"
    using run_history_extends [OF run history_start] by simp
  have "w_conns example_world = (\<lambda>_. None)" by (simp add: example_world_def blank_world_def)
  from streams_end_to_end [OF example_world_inv this hist, of 0] p op io hist show ?thesis by auto
qed

end
