(* ===== verification/Work.thy ===== *)
theory Work
  imports Delivery
begin

section \<open>No client waits in vain\<close>

text \<open>
  The scheduling of clients: \<open>x_upstream_handle\<close> is called when a client begins to wait and when
  an upstream connection ends, and each call admits at most one client.  That this is enough
  is an invariant of the event loop: as long as the system has refused no socket, clients wait
  only while the configured number of upstream connections is open.
\<close>

subsection \<open>The invariant\<close>

fun opens_socket :: "sys \<Rightarrow> bool" where
  "opens_socket (Sys_socket fd) \<longleftrightarrow> True"
| "opens_socket _ \<longleftrightarrow> False"

fun calls_connect :: "sys \<Rightarrow> bool" where
  "calls_connect (Sys_connect fd peer rc) \<longleftrightarrow> True"
| "calls_connect _ \<longleftrightarrow> False"

text \<open>
  The attempts that came to an end before \<open>connect\<close>, because \<open>socket\<close> or \<open>fcntl\<close> failed.
\<close>

definition refusals :: "world \<Rightarrow> int" where
  "refusals w = int (length (filter opens_socket (w_trace w)))
     - int (length (filter calls_connect (w_trace w)))"

text \<open>
  By the invariant of the counters \<open>workload\<close> is the number of open upstream sockets.  While
  admission is running one place may be free, or one client too many may wait: \<open>work_ok 1\<close>.
\<close>

definition workload :: "world \<Rightarrow> int" where
  "workload w = ln_working_num w + connect_failures w"

definition work_ok :: "nat \<Rightarrow> world \<Rightarrow> bool" where
  "work_ok k w \<longleftrightarrow> 0 \<le> refusals w \<and> (refusals w = 0 \<longrightarrow> length (ln_cq_waiting w) \<le> k
     \<or> sc_working_num_max (ln_srvcf w) \<le> workload w + int k)"

lemma refusals_log [simp]:
  "refusals (log_sys s w) = refusals w + of_bool (opens_socket s) - of_bool (calls_connect s)"
  by (simp add: refusals_def)

lemma refusals_cong: "w_trace w' = w_trace w \<Longrightarrow> refusals w' = refusals w"
  by (simp add: refusals_def)

lemma connect_failures_nonneg: "0 \<le> connect_failures w"
  by (simp add: connect_failures_def)

text \<open>The invariant looks at the trace, the queue, the counter and the limit only.\<close>

lemma work_ok_cong:
  assumes "work_ok k w" and "w_trace w' = w_trace w" and "length (ln_cq_waiting w') \<le> length (ln_cq_waiting w)"
    and "ln_working_num w' = ln_working_num w"
    and "sc_working_num_max (ln_srvcf w') = sc_working_num_max (ln_srvcf w)"
  shows "work_ok k w'"
  using assms refusals_cong [OF assms(2)] connect_failures_cong [OF assms(2)]
  by (auto simp: work_ok_def workload_def)

lemma work_ok_put [simp]: "work_ok k (put_conn c p w) = work_ok k w"
  using work_ok_cong [of k w "put_conn c p w"] work_ok_cong [of k "put_conn c p w" w] by auto

lemma work_ok_log [simp]:
  assumes "\<not> opens_socket s" and "\<not> calls_connect s"
  shows "work_ok k (log_sys s w) = work_ok k w"
proof -
  have "\<not> connect_failed s" using assms(2) by (cases s) simp_all
  with assms show ?thesis by (simp add: work_ok_def workload_def)
qed

lemma work_ok_refused: "0 < refusals w \<Longrightarrow> work_ok k w"
  by (simp add: work_ok_def)

subsection \<open>One attempt\<close>

lemma choose_peer_max:
  "x_upstream_choose_peer (Some s) = Inr (upcf, s') \<Longrightarrow> \<exists>s1. s' = Some s1
    \<and> sc_working_num_max s1 = sc_working_num_max s"
  by (auto simp: x_upstream_choose_peer_def Let_def split: if_split_asm)

text \<open>It succeeds, or is refused, or its \<open>connect\<close> fails; then the upstream side is to be closed.\<close>

definition attempt_work :: "nat \<Rightarrow> world \<Rightarrow> int \<Rightarrow> world \<Rightarrow> bool" where
  "attempt_work c w rc w' \<longleftrightarrow> ln_cq_waiting w' = ln_cq_waiting w \<and> ln_working_num w' = ln_working_num w
     \<and> sc_working_num_max (ln_srvcf w') = sc_working_num_max (ln_srvcf w)
     \<and> (if rc = XNET_OK then refusals w' = refusals w \<and> connect_failures w' = connect_failures w
        else refusals w' = refusals w + 1 \<and> connect_failures w' = connect_failures w
          \<or> refusals w' = refusals w \<and> connect_failures w' = connect_failures w + 1
            \<and> (\<exists>p. w_conns w' c = Some p \<and> c_upc_status p = CONN_CONNECT))"

lemma connection_new_work:
  "x_upstream_connection_new c upcf w = Inr (rc, w') \<Longrightarrow> attempt_work c w rc w'"
  by (cases "o_socket w")
    (auto simp: x_upstream_connection_new_def Let_def attempt_work_def upc_connecting_def
      refusals_def connect_failures_def simp del: upd_conn_Inr split: if_split_asm option.split_asm)

lemma x_upstream_init_work:
  assumes "x_upstream_init c w = Inr (rc, w')"
  shows "attempt_work c w rc w'"
proof -
  from assms obtain upcf s1 w2 where s1: "sc_working_num_max s1 = sc_working_num_max (ln_srvcf w)"
    and run: "x_upstream_connection_new c upcf (w\<lparr>ln_srvcf := s1\<rparr>) = Inr (rc, w2)"
    and w': "upd_conn c (\<lambda>p. p\<lparr>c_upcf := upcf\<rparr>) w2 = Inr w'"
    using choose_peer_max by (fastforce simp: x_upstream_init_def Let_def simp del: upd_conn_Inr)
  have same: "refusals (v\<lparr>ln_srvcf := s1\<rparr>) = refusals v"
    "connect_failures (v\<lparr>ln_srvcf := s1\<rparr>) = connect_failures v" for v :: world
    by (simp_all add: refusals_def connect_failures_def)
  from w' obtain p where p: "w_conns w2 c = Some p" "w' = put_conn c (p\<lparr>c_upcf := upcf\<rparr>) w2" by auto
  have "refusals w' = refusals w2" "connect_failures w' = connect_failures w2"
    using p(2) by (simp_all add: refusals_def connect_failures_def)
  with connection_new_work [OF run] p s1 show ?thesis by (auto simp: attempt_work_def same)
qed

subsection \<open>Admission\<close>

lemma final_world_work:
  assumes "work_ok 1 (v\<lparr>ln_working_num := ln_working_num v - 1\<rparr>)"
  shows "work_ok 1 (final_world c p v)"
proof -
  have "final_world c p v = log_sys (Sys_close (c_upc_fd p))
      (put_conn c (upc_closed p) (v\<lparr>ln_working_num := ln_working_num v - 1\<rparr>))"
    by (simp add: final_world_def log_sys_def put_conn_def)
  with assms show ?thesis by simp
qed

lemma work_ok_decrement:
  "work_ok 0 v \<Longrightarrow> work_ok 1 (v\<lparr>ln_working_num := ln_working_num v - 1\<rparr>)"
  by (auto simp: work_ok_def workload_def refusals_def connect_failures_def)

lemma handle_work:
  assumes "x_upstream_handle w = Inr (rc, w')" and "work_ok 1 w"
  shows "work_ok 0 w'"
proof -
  have "work_ok 1 w \<longrightarrow> work_ok 0 w'"
    using assms(1)
  proof (induction rule: handle_induct)
    case (idle w)
    with connect_failures_nonneg [of w] show ?case by (auto simp: work_ok_def workload_def)
  next
    case (admit w c q w1 w2 p)
    note att = x_upstream_init_work [OF admit(3), unfolded attempt_work_def]
    have "ln_cq_waiting w2 = q" "w_trace w2 = w_trace w1" "ln_working_num w2 = ln_working_num w1"
      "ln_srvcf w2 = ln_srvcf w1"
      using admit(1,4) att by (auto simp: cq_remove_def Let_def split: if_split_asm)
    with att admit(1) show ?case
      by (auto simp: work_ok_def workload_def refusals_def connect_failures_def admitted_world_def)
  next
    case (refused w c q r w1 p)
    with x_upstream_init_work [OF refused(2)] show ?case
      by (auto simp: attempt_work_def work_ok_def)
  next
    case (retry w c q r w1 p w')
    have "work_ok 1 (w1\<lparr>ln_working_num := ln_working_num w1 - 1\<rparr>)" if "work_ok 1 w"
      using x_upstream_init_work [OF retry(2)] retry(3) that
      by (auto simp: attempt_work_def work_ok_def workload_def refusals_def connect_failures_def)
    with retry(7) final_world_work show ?case by blast
  qed
  with assms(2) show ?thesis by simp
qed

lemma final_work:
  assumes "x_upstream_final c v = Inr v'" and "work_ok 0 v"
  shows "work_ok 0 v'"
proof -
  from assms(1) obtain p where p: "w_conns v c = Some p" by (auto simp: x_upstream_final.simps [of c v])
  with assms(1) have "v' = v \<or> (\<exists>rc. x_upstream_handle (final_world c p v) = Inr (rc, v'))"
    by (auto simp: final_run split: if_split_asm)
  with assms(2) show ?thesis
    using handle_work [OF _ final_world_work [OF work_ok_decrement [OF assms(2)]]] by blast
qed

subsection \<open>The callbacks\<close>

text \<open>What the callbacks change besides.\<close>

lemma work_ok_fields [simp]:
  "work_ok k (w\<lparr>w_conns := cs\<rparr>) = work_ok k w" "work_ok k (w\<lparr>w_next := n\<rparr>) = work_ok k w"
  "work_ok k (w\<lparr>ln_bp := bp\<rparr>) = work_ok k w" "work_ok k (w\<lparr>ln_c_count := i\<rparr>) = work_ok k w"
  "work_ok k (w\<lparr>ln_cq_waiting_num := i\<rparr>) = work_ok k w"
  "work_ok k (w\<lparr>o_accept := xa\<rparr>) = work_ok k w" "work_ok k (w\<lparr>o_zmalloc := xz\<rparr>) = work_ok k w"
  "work_ok k (w\<lparr>o_fcntl := xf\<rparr>) = work_ok k w" "work_ok k (w\<lparr>o_sockopt := xo\<rparr>) = work_ok k w"
  "work_ok k (w\<lparr>o_recv := xr\<rparr>) = work_ok k w" "work_ok k (w\<lparr>o_send := xs\<rparr>) = work_ok k w"
  "work_ok k (w\<lparr>o_malloc := xm\<rparr>) = work_ok k w"
  by (simp_all add: work_ok_def workload_def refusals_def connect_failures_def)

lemma work_ok_load [simp]: "work_ok k (load a w) = work_ok k w"
  by (simp add: work_ok_def workload_def refusals_def connect_failures_def)

lemma cq_remove_work: "cq_remove c w = Inr w' \<Longrightarrow> work_ok k w \<Longrightarrow> work_ok k w'"
  by (auto simp: cq_remove_def Let_def length_remove1 split: if_split_asm elim!: work_ok_cong)

lemma cq_insert_work: "cq_insert_tail c w = Inr w' \<Longrightarrow> work_ok 0 w \<Longrightarrow> work_ok 1 w'"
  by (auto simp: cq_insert_tail_def Let_def work_ok_def workload_def refusals_def connect_failures_def
      split: if_split_asm)

lemma close_work:
  assumes "x_event_close c w = Inr w'" and "work_ok 0 w"
  shows "work_ok 0 w'"
proof (cases "w' = w")
  case False
  with assms(1) obtain w1 where w1: "x_upstream_final c w = Inr w1"
    and rest: "close_rest c w1 = Inr w'"
    by (auto simp: x_event_close_def split: if_split_asm)
  from final_work [OF w1 assms(2)] rest show ?thesis
    by (auto simp: Let_def split: if_split_asm dest: cq_remove_work)
qed (use assms in simp)

lemma upd_conn_work: "upd_conn c f w = Inr w' \<Longrightarrow> work_ok k w \<Longrightarrow> work_ok k w'"
  by auto

text \<open>The way of \<open>x_recv_cb\<close>: receiving, then closing, or joining the queue if it is the client's first word.\<close>

definition joins :: "nat \<Rightarrow> world \<Rightarrow> world \<Rightarrow> bool" where
  "joins c w1 w5 \<longleftrightarrow> (\<exists>w2 p2 rc. cq_insert_tail c w1 = Inr w2 \<and> w_conns w2 c = Some p2
     \<and> x_upstream_handle (put_conn c (p2\<lparr>c_status := CONN_WAITING\<rparr>)
          (w2\<lparr>ln_cq_waiting_num := ln_cq_waiting_num w2 + 1\<rparr>)) = Inr (rc, w5))"

lemma x_recv_cb_parts:
  assumes "x_recv_cb c w = Inr w'"
  obtains p out pipe1 bp rs ms w1 where "w_conns w c = Some p"
    and "pipe_recv (c_pipe1 p) (ln_bp w) (o_recv w) (o_malloc w) = Inr (out, pipe1, bp, rs, ms)"
    and "w1 = put_conn c (p\<lparr>c_pipe1 := pipe1\<rparr>) (w\<lparr>ln_bp := bp, o_recv := rs, o_malloc := ms\<rparr>)"
    and "x_event_close c w1 = Inr w' \<or> (\<exists>w5. (w5 = w1 \<or> joins c w1 w5)
      \<and> (w' = w5 \<or> x_upstream_send_to_peer c w5 = Inr w'))"
proof -
  from assms obtain p out pipe1 bp rs ms where p: "w_conns w c = Some p"
    and recv: "pipe_recv (c_pipe1 p) (ln_bp w) (o_recv w) (o_malloc w) = Inr (out, pipe1, bp, rs, ms)"
    by (auto simp: x_recv_cb_def)
  define w1 where "w1 = put_conn c (p\<lparr>c_pipe1 := pipe1\<rparr>) (w\<lparr>ln_bp := bp, o_recv := rs, o_malloc := ms\<rparr>)"
  have "x_event_close c w1 = Inr w' \<or> (\<exists>w5. (w5 = w1 \<or> joins c w1 w5)
      \<and> (w' = w5 \<or> x_upstream_send_to_peer c w5 = Inr w'))"
  proof (cases "out = Closed")
    case True
    with assms p recv show ?thesis by (simp add: x_recv_cb_def w1_def [symmetric] Let_def)
  next
    case False
    with assms p recv show ?thesis
      by (cases "c_status p = CONN_NONE")
        (auto simp: x_recv_cb_def w1_def [symmetric] joins_def Let_def split: if_split_asm)
  qed
  with p recv w1_def that show ?thesis by blast
qed

lemma joins_work:
  assumes "joins c w1 w5" and "work_ok 0 w1"
  shows "work_ok 0 w5"
proof -
  from assms(1) obtain w2 p2 rc where w2: "cq_insert_tail c w1 = Inr w2"
    and run: "x_upstream_handle (put_conn c (p2\<lparr>c_status := CONN_WAITING\<rparr>)
      (w2\<lparr>ln_cq_waiting_num := ln_cq_waiting_num w2 + 1\<rparr>)) = Inr (rc, w5)" by (auto simp: joins_def)
  from handle_work [OF run] cq_insert_work [OF w2 assms(2)] show ?thesis by simp
qed

lemma x_recv_cb_work:
  assumes "x_recv_cb c w = Inr w'" and "work_ok 0 w"
  shows "work_ok 0 w'"
  using assms(1)
proof (rule x_recv_cb_parts)
  fix p out pipe1 bp rs ms w1
  assume "w1 = put_conn c (p\<lparr>c_pipe1 := pipe1\<rparr>) (w\<lparr>ln_bp := bp, o_recv := rs, o_malloc := ms\<rparr>)"
  then have ok1: "work_ok 0 w1" using assms(2) by simp
  assume "x_event_close c w1 = Inr w' \<or> (\<exists>w5. (w5 = w1 \<or> joins c w1 w5)
    \<and> (w' = w5 \<or> x_upstream_send_to_peer c w5 = Inr w'))"
  with ok1 close_work joins_work [OF _ ok1] show ?thesis by (auto simp: x_upstream_send_to_peer_def)
qed

lemma timeout_parts:
  assumes "x_timeout_cb c w = Inr w'"
  obtains p w2 p2 where "w_conns w c = Some p"
    and "x_event_close c (timed_out c p w) = Inr w2"
    and "w_conns w2 c = Some p2"
    and "w' = w2\<lparr>ln_bp := drain (drain (ln_bp w2) (c_pipe1 p2)) (c_pipe2 p2), w_conns := (w_conns w2)(c := None)\<rparr>"
proof -
  from assms obtain p where p: "w_conns w c = Some p" by (auto simp: x_timeout_cb_def)
  have "x_timeout_cb c w = bindR (x_event_close c (timed_out c p w)) (\<lambda>w2. bindR (get_conn c w2) (\<lambda>p2.
      zfree_conn c (put_conn c (p2\<lparr>c_e_timer := Timer_off, c_pipe1 := [], c_pipe2 := []\<rparr>)
        (w2\<lparr>ln_bp := drain (drain (ln_bp w2) (c_pipe1 p2)) (c_pipe2 p2)\<rparr>))))"
    using p by (simp add: x_timeout_cb_def get_conn_def [of c w] Let_def)
  with assms obtain w2 p2 where w2: "x_event_close c (timed_out c p w) = Inr w2" and "w_conns w2 c = Some p2"
    and "w' = w2\<lparr>ln_bp := drain (drain (ln_bp w2) (c_pipe1 p2)) (c_pipe2 p2), w_conns := (w_conns w2)(c := None)\<rparr>"
    by (auto simp: zfree_conn_def put_conn_def split: if_split_asm)
  with p w2 that show ?thesis by blast
qed

text \<open>Likewise for the timer of the upstream socket.\<close>

lemma upstream_timeout_parts:
  assumes "x_upstream_timeout_cb c w = Inr w'"
  obtains p w2 p2 where "w_conns w c = Some p"
    and "x_upstream_final c (if c_upc_status p \<noteq> CONN_CLOSE then put_conn c (p\<lparr>c_upc_status := CONN_TIMEOUT\<rparr>) w
      else w) = Inr w2"
    and "w_conns w2 c = Some p2" and "w' = put_conn c (p2\<lparr>c_upc_e_timer := Timer_off\<rparr>) w2"
  using assms by (auto simp: x_upstream_timeout_cb_def Let_def cong: if_cong)

lemma callback_work:
  assumes "callback e w = Inr w'" and "work_ok 0 w"
  shows "work_ok 0 w'"
proof (cases e)
  case Ev_accept
  with assms show ?thesis by (auto simp: x_accept_cb_def Let_def split: if_split_asm)
next
  case (Ev_recv c)
  with assms x_recv_cb_work show ?thesis by simp
next
  case (Ev_send c)
  with assms(1) obtain p out pipe2 bp bs ss where p: "w_conns w c = Some p"
    and bufs: "access_bufsend (c_pipe2 p) (ln_bp w) [] (o_send w) = Inr (out, pipe2, bp, bs, ss)"
    by (auto simp: x_send_cb_def)
  have "work_ok 0 (log_sys (Sys_send (c_fd p) bs) (put_conn c (p\<lparr>c_pipe2 := pipe2\<rparr>) (w\<lparr>ln_bp := bp, o_send := ss\<rparr>)))"
    using assms(2) by simp
  from close_work [OF _ this] this assms(1) Ev_send p bufs show ?thesis
    by (auto simp: x_send_cb_def send_finished_def Let_def split: send_out.split_asm if_split_asm)
next
  case (Ev_timer c)
  with assms(1) obtain p w2 where w2: "x_event_close c (timed_out c p w) = Inr w2"
    and "\<exists>cs bp. w' = w2\<lparr>ln_bp := bp, w_conns := cs\<rparr>"
    by (auto elim!: timeout_parts)
  then show ?thesis using close_work [OF w2] assms(2) by (auto split: if_split_asm)
next
  case (Ev_upc_connected c)
  with assms final_work [of c "w\<lparr>o_sockopt := so\<rparr>" w' for so] show ?thesis
    by (auto simp: x_upstream_connected_cb_def Let_def split: option.split_asm if_split_asm)
next
  case (Ev_upc_send c)
  with assms(1) obtain p out pipe1 bp bs ss where p: "w_conns w c = Some p"
    and bufs: "upstream_bufsend (c_pipe1 p) (ln_bp w) [] (o_send w) = Inr (out, pipe1, bp, bs, ss)"
    by (auto simp: x_upstream_send_cb_def)
  have "work_ok 0 (log_sys (Sys_send (c_upc_fd p) bs) (put_conn c (p\<lparr>c_pipe1 := pipe1\<rparr>) (w\<lparr>ln_bp := bp, o_send := ss\<rparr>)))"
    using assms(2) by simp
  from final_work [OF _ this] this assms(1) Ev_upc_send p bufs show ?thesis
    by (auto simp: x_upstream_send_cb_def Let_def split: if_split_asm)
next
  case (Ev_upc_recv c)
  with assms(1) obtain p out pipe2 bp rs ms where p: "w_conns w c = Some p"
    and recv: "pipe_recv (c_pipe2 p) (ln_bp w) (o_recv w) (o_malloc w) = Inr (out, pipe2, bp, rs, ms)"
    by (auto simp: x_upstream_recv_cb_def)
  have "work_ok 0 (put_conn c (p\<lparr>c_pipe2 := pipe2\<rparr>) (w\<lparr>ln_bp := bp, o_recv := rs, o_malloc := ms\<rparr>))"
    using assms(2) by simp
  from final_work [OF _ this] this assms(1) Ev_upc_recv p recv show ?thesis
    by (auto simp: x_upstream_recv_cb_def x_access_send_to_client_def Let_def split: if_split_asm)
next
  case (Ev_upc_timer c)
  with assms(1) obtain p w2 p2 where w2: "x_upstream_final c
      (if c_upc_status p \<noteq> CONN_CLOSE then put_conn c (p\<lparr>c_upc_status := CONN_TIMEOUT\<rparr>) w else w) = Inr w2"
    and "w' = put_conn c (p2\<lparr>c_upc_e_timer := Timer_off\<rparr>) w2"
    by (auto elim!: upstream_timeout_parts)
  then show ?thesis using final_work [OF w2] assms(2) by (auto split: if_split_asm)
qed

interpretation work: event_loop ev_started dispatch timely refuses "\<lambda>w. proxy_inv w \<and> work_ok 0 w"
proof
  fix w e a
  assume w: "proxy_inv w \<and> work_ok 0 w" and e: "ev_started w e" "timely w e"
  have "okE (refuses w e a) proxy_inv (dispatch e a w)" using w e by (blast intro: dispatch_inv)
  moreover have "work_ok 0 w'" if "dispatch e a w = Inr w'" for w'
    by (rule callback_work [OF that [unfolded dispatch_def]]) (use w in simp)
  ultimately show "okE (refuses w e a) (\<lambda>w. proxy_inv w \<and> work_ok 0 w) (dispatch e a w)"
    by (blast intro: okE_mono)
qed

subsection \<open>Properties\<close>

text \<open>C9: No client waits in vain: in every reachable state in which a client waits, at least as many
  upstream connections are open as the configuration allows, so that no place is idle, and
  exactly as many if no \<open>connect\<close> has failed at once.  This holds unless the system has refused
  a socket before, that is, as long as each attempt has come to its \<open>connect\<close>, whatever became of it.\<close>

theorem no_idle_place:
  assumes "proxy_inv w0" and "w_trace w0 = []" and "ln_cq_waiting w0 = []"
    and "ev_reach ev_started dispatch timely w0 w"
    and "length (filter opens_socket (w_trace w)) = length (filter calls_connect (w_trace w))"
    and "ln_cq_waiting w \<noteq> []"
  shows "sc_working_num_max (ln_srvcf w) \<le> int (card {c. \<exists>p. w_conns w c = Some p \<and> upc_active p})
    \<and> (connect_failures w = 0 \<longrightarrow>
        int (card {c. \<exists>p. w_conns w c = Some p \<and> upc_active p}) = max 0 (sc_working_num_max (ln_srvcf w)))"
proof -
  have "work_ok 0 w0" using assms(2,3) by (simp add: work_ok_def refusals_def)
  with work.reach_inv [OF assms(4)] assms(1)
  have inv: "proxy_inv w" and work: "work_ok 0 w" by simp_all
  from work assms(5,6) have "sc_working_num_max (ln_srvcf w) \<le> workload w"
    by (simp add: work_ok_def refusals_def)
  moreover have "workload w = int (card {c. \<exists>p. w_conns w c = Some p \<and> upc_active p})"
    "ln_working_num w \<le> max 0 (sc_working_num_max (ln_srvcf w))"
    using inv by (simp_all add: proxy_inv_def inv_ex_def count_ok_def workload_def cnt_def)
  ultimately show ?thesis by (auto simp: workload_def)
qed

text \<open>One place, taken by the first client, while the second waits.\<close>

theorem no_idle_place_witness:
  "\<exists>w. ev_reach ev_started dispatch timely example_world w \<and> ln_cq_waiting w = [1]
    \<and> int (card {c. \<exists>p. w_conns w c = Some p \<and> upc_active p}) = 1"
proof -
  have "case run_events ev_started dispatch timely two_clients example_world of Inl _ \<Rightarrow> False
    | Inr w \<Rightarrow> ln_cq_waiting w = [1] \<and> connect_failures w = 0 \<and> sc_working_num_max (ln_srvcf w) = 1
        \<and> length (filter opens_socket (w_trace w)) = length (filter calls_connect (w_trace w))"
    by code_simp
  then obtain w where w: "ev_reach ev_started dispatch timely example_world w" "ln_cq_waiting w = [1]"
    "connect_failures w = 0" "sc_working_num_max (ln_srvcf w) = 1"
    "length (filter opens_socket (w_trace w)) = length (filter calls_connect (w_trace w))"
    by (rule run_returns) auto
  have "w_trace example_world = []" "ln_cq_waiting example_world = []"
    by (simp_all add: example_world_def blank_world_def)
  from no_idle_place [OF example_world_inv this w(1,5)] w show ?thesis by auto
qed

end
