(* ===== verification/Sockets.thy ===== *)
theory Sockets
  imports Work
begin

section \<open>The sockets of a proxy thread\<close>

text \<open>
  How many sockets a thread has open, read off its system calls: a socket comes up with an
  \<open>accept\<close> or a \<open>socket\<close> that does not return -1, and goes with \<open>close\<close>.  The listening socket
  is not counted.  The balance of this number against the two counters of the listener is kept
  by every callback, whatever state it is called in, and so is what the configuration fixes
  for the connections: the timeout of the clients and the upstream servers.
\<close>

subsection \<open>Counting system calls\<close>

fun fd_change :: "sys \<Rightarrow> int" where
  "fd_change (Sys_accept fd) = of_bool (fd \<noteq> -1)"
| "fd_change (Sys_socket fd) = of_bool (fd \<noteq> -1)"
| "fd_change (Sys_close fd) = - of_bool (fd \<noteq> -1)"
| "fd_change (Sys_connect fd peer rc) = 0"
| "fd_change (Sys_send fd bs) = 0"

definition open_sockets :: "world \<Rightarrow> int" where
  "open_sockets w = sum_list (map fd_change (w_trace w))"

text \<open>
  The sockets opened for an upstream server on which \<open>connect\<close> was never called: those for which
  \<open>x_setNonBlock\<close> failed.  The code does not close them.
\<close>

fun opens_fd :: "sys \<Rightarrow> bool" where
  "opens_fd (Sys_socket fd) \<longleftrightarrow> fd \<noteq> -1"
| "opens_fd _ \<longleftrightarrow> False"

definition leaked_sockets :: "world \<Rightarrow> int" where
  "leaked_sockets w = int (length (filter opens_fd (w_trace w)))
     - int (length (filter calls_connect (w_trace w)))"

definition balance :: "world \<Rightarrow> int" where
  "balance w = open_sockets w - leaked_sockets w - connect_failures w - ln_c_count w - ln_working_num w"

lemma balance_log [simp]:
  "balance (log_sys s w) = balance w + fd_change s - of_bool (opens_fd s) + of_bool (calls_connect s)
    - of_bool (connect_failed s)"
  by (simp add: balance_def open_sockets_def leaked_sockets_def)

lemma leaked_log [simp]:
  "leaked_sockets (log_sys s w) = leaked_sockets w + of_bool (opens_fd s) - of_bool (calls_connect s)"
  by (simp add: leaked_sockets_def)

lemma leaked_cong: "w_trace w' = w_trace w \<Longrightarrow> leaked_sockets w' = leaked_sockets w"
  by (simp add: leaked_sockets_def)

lemma balance_cong:
  "w_trace w' = w_trace w \<Longrightarrow> balance w' = balance w + ln_c_count w - ln_c_count w' + ln_working_num w - ln_working_num w'"
  by (simp add: balance_def open_sockets_def leaked_sockets_def connect_failures_def)

subsection \<open>The invariant\<close>

definition good_conn :: "xtp_upstream_conf set \<Rightarrow> xtp_conn \<Rightarrow> bool" where
  "good_conn U p \<longleftrightarrow> c_fd p \<noteq> -1 \<and> c_upc_fd p \<noteq> -1 \<and> (\<forall>u. c_upcf p = Some u \<longrightarrow> u \<in> U)"

text \<open>\<open>settled t U k w\<close>: the timeout is \<open>t\<close>, the servers are \<open>U\<close>, and \<open>k\<close> sockets are not accounted for yet.\<close>

definition settled :: "int \<Rightarrow> xtp_upstream_conf set \<Rightarrow> int \<Rightarrow> world \<Rightarrow> bool" where
  "settled t U k w \<longleftrightarrow> ln_timeout w = t \<and> set (sc_upstream (ln_srvcf w)) = U \<and> balance w = k
     \<and> 0 \<le> leaked_sockets w \<and> (\<forall>c p. w_conns w c = Some p \<longrightarrow> good_conn U p)"

lemma settledD:
  assumes "settled t U k w"
  shows "balance w = k" and "w_conns w c = Some p \<Longrightarrow> good_conn U p"
  using assms by (simp_all add: settled_def)

lemma settled_put: "settled t U k w \<Longrightarrow> good_conn U p \<Longrightarrow> settled t U k (put_conn c p w)"
  using balance_cong [of "put_conn c p w" w] leaked_cong [of "put_conn c p w" w] by (simp add: settled_def)

lemma settled_log:
  assumes "settled t U k w" and "\<not> opens_fd s" and "\<not> calls_connect s"
  shows "settled t U (k + fd_change s) (log_sys s w)"
proof -
  have "\<not> connect_failed s" using assms(3) by (cases s) simp_all
  with assms show ?thesis by (simp add: settled_def)
qed

lemma settled_fields [simp]:
  "settled t U k (w\<lparr>ln_bp := bp\<rparr>) = settled t U k w" "settled t U k (w\<lparr>ln_cq_waiting_num := i\<rparr>) = settled t U k w"
  "settled t U k (w\<lparr>ln_cq_waiting := q\<rparr>) = settled t U k w" "settled t U k (w\<lparr>w_next := n\<rparr>) = settled t U k w"
  "settled t U k (w\<lparr>o_accept := xa\<rparr>) = settled t U k w" "settled t U k (w\<lparr>o_zmalloc := xz\<rparr>) = settled t U k w"
  "settled t U k (w\<lparr>o_fcntl := xf\<rparr>) = settled t U k w" "settled t U k (w\<lparr>o_sockopt := xo\<rparr>) = settled t U k w"
  "settled t U k (w\<lparr>o_recv := xr\<rparr>) = settled t U k w" "settled t U k (w\<lparr>o_send := xs\<rparr>) = settled t U k w"
  "settled t U k (w\<lparr>o_socket := xk\<rparr>) = settled t U k w" "settled t U k (w\<lparr>o_connect := xc\<rparr>) = settled t U k w"
  "settled t U k (w\<lparr>o_malloc := xm\<rparr>) = settled t U k w"
  by (simp_all add: settled_def balance_def open_sockets_def leaked_sockets_def connect_failures_def)

lemma settled_counts [simp]:
  "settled t U k (w\<lparr>ln_c_count := i\<rparr>) = settled t U (k + i - ln_c_count w) w"
  "settled t U k (w\<lparr>ln_working_num := i\<rparr>) = settled t U (k + i - ln_working_num w) w"
  by (auto simp: settled_def balance_def open_sockets_def leaked_sockets_def connect_failures_def)

lemma settled_load [simp]: "settled t U k (load a w) = settled t U k w"
  by (simp add: load_def)

lemma settled_upd:
  "upd_conn c f w = Inr w' \<Longrightarrow> settled t U k w \<Longrightarrow> (\<And>p. good_conn U p \<Longrightarrow> good_conn U (f p)) \<Longrightarrow> settled t U k w'"
  by (auto intro!: settled_put dest: settledD)

lemma settled_queue:
  "cq_remove c w = Inr w' \<Longrightarrow> settled t U k w \<Longrightarrow> settled t U k w'"
  "cq_insert_tail c w = Inr w' \<Longrightarrow> settled t U k w \<Longrightarrow> settled t U k w'"
  by (auto simp: cq_remove_def cq_insert_tail_def Let_def split: if_split_asm)

subsection \<open>Opening and closing an upstream connection\<close>

lemma choose_peer_settled:
  assumes "x_upstream_choose_peer (Some s) = Inr (upcf, s')"
  obtains s1 where "s' = Some s1" "sc_upstream s1 = sc_upstream s"
    "\<And>u. upcf = Some u \<Longrightarrow> u \<in> set (sc_upstream s)"
  using assms by (auto simp: x_upstream_choose_peer_def Let_def split: if_split_asm)

text \<open>What an attempt does to the trace and to the connection, leaving out what does not matter here.\<close>

definition attempt_trace :: "nat \<Rightarrow> world \<Rightarrow> int \<Rightarrow> world \<Rightarrow> bool" where
  "attempt_trace c w rc w' \<longleftrightarrow>
     ln_timeout w' = ln_timeout w \<and> ln_srvcf w' = ln_srvcf w
     \<and> ln_c_count w' = ln_c_count w \<and> ln_working_num w' = ln_working_num w
     \<and> (\<exists>fd. w_trace w' = w_trace w @ [Sys_socket fd] \<and> w_conns w' = w_conns w \<and> rc \<noteq> XNET_OK
         \<or> fd \<noteq> -1 \<and> (\<exists>peer r p. w_trace w' = w_trace w @ [Sys_socket fd, Sys_connect fd peer r]
             \<and> (rc = XNET_OK \<longleftrightarrow> r = None \<or> r = Some EINPROGRESS)
             \<and> w_conns w c = Some p \<and> w_conns w' = (w_conns w)(c \<mapsto> upc_connecting fd p)))"

lemma connection_new_trace:
  "x_upstream_connection_new c upcf w = Inr (rc, w') \<Longrightarrow> attempt_trace c w rc w'"
  by (cases "o_socket w")
    (auto simp: x_upstream_connection_new_def Let_def attempt_trace_def
      simp del: upd_conn_Inr split: if_split_asm option.split_asm)

lemma connection_new_settled:
  assumes "x_upstream_connection_new c upcf w = Inr (rc, w')" and "settled t U k w"
  shows "settled t U (k + of_bool (rc = XNET_OK)) w'"
proof -
  note att = connection_new_trace [OF assms(1), unfolded attempt_trace_def]
  then obtain fd where "w_trace w' = w_trace w @ [Sys_socket fd] \<and> w_conns w' = w_conns w \<and> rc \<noteq> XNET_OK
     \<or> fd \<noteq> -1 \<and> (\<exists>peer r p. w_trace w' = w_trace w @ [Sys_socket fd, Sys_connect fd peer r]
             \<and> (rc = XNET_OK \<longleftrightarrow> r = None \<or> r = Some EINPROGRESS)
             \<and> w_conns w c = Some p \<and> w_conns w' = (w_conns w)(c \<mapsto> upc_connecting fd p))" by blast
  then show ?thesis
  proof (elim disjE conjE exE)
    assume "w_trace w' = w_trace w @ [Sys_socket fd]" "w_conns w' = w_conns w" "rc \<noteq> XNET_OK"
    with assms(2) att show ?thesis
      by (simp add: settled_def balance_def open_sockets_def leaked_sockets_def connect_failures_def)
  next
    fix peer r p
    assume fd: "fd \<noteq> -1" and tr: "w_trace w' = w_trace w @ [Sys_socket fd, Sys_connect fd peer r]"
      and rc: "rc = XNET_OK \<longleftrightarrow> r = None \<or> r = Some EINPROGRESS"
      and p: "w_conns w c = Some p" "w_conns w' = (w_conns w)(c \<mapsto> upc_connecting fd p)"
    have "good_conn U (upc_connecting fd p)"
      using settledD(2) [OF assms(2) p(1)] fd by (simp add: good_conn_def upc_connecting_def)
    moreover have "balance w' = balance w + of_bool (rc = XNET_OK)"
      using att by (auto simp: balance_def open_sockets_def leaked_sockets_def connect_failures_def tr rc fd)
    moreover have "leaked_sockets w' = leaked_sockets w" by (simp add: leaked_sockets_def tr fd)
    ultimately show ?thesis using assms(2) att p(2) by (simp add: settled_def)
  qed
qed

lemma x_upstream_init_settled:
  assumes "x_upstream_init c w = Inr (rc, w')" and "settled t U k w"
  shows "settled t U (k + of_bool (rc = XNET_OK)) w'"
proof -
  from assms(1) obtain upcf s' w2 where ch: "x_upstream_choose_peer (Some (ln_srvcf w)) = Inr (upcf, s')"
    and new: "x_upstream_connection_new c upcf (case s' of None \<Rightarrow> w | Some s \<Rightarrow> w\<lparr>ln_srvcf := s\<rparr>) = Inr (rc, w2)"
    and upd: "upd_conn c (\<lambda>p. p\<lparr>c_upcf := upcf\<rparr>) w2 = Inr w'"
    by (auto simp: x_upstream_init_def Let_def simp del: upd_conn_Inr)
  from choose_peer_settled [OF ch] obtain s1 where s1: "s' = Some s1" "sc_upstream s1 = sc_upstream (ln_srvcf w)"
    and peer: "\<And>u. upcf = Some u \<Longrightarrow> u \<in> set (sc_upstream (ln_srvcf w))" by blast
  have U: "set (sc_upstream (ln_srvcf w)) = U" using assms(2) by (simp add: settled_def)
  have "settled t U k (w\<lparr>ln_srvcf := s1\<rparr>)"
    using assms(2) s1(2) balance_cong [of "w\<lparr>ln_srvcf := s1\<rparr>" w] leaked_cong [of "w\<lparr>ln_srvcf := s1\<rparr>" w]
    by (simp add: settled_def)
  with connection_new_settled [OF new] s1(1) have "settled t U (k + of_bool (rc = XNET_OK)) w2" by simp
  from settled_upd [OF upd this] peer U show ?thesis by (auto simp: good_conn_def)
qed

lemma final_world_settled:
  assumes "settled t U k w" and "w_conns w c = Some p"
  shows "settled t U k (final_world c p w)"
proof -
  note good = settledD(2) [OF assms]
  then have "good_conn U (upc_closed p)" by (simp add: good_conn_def upc_closed_def upc_stopped_def)
  from settled_log [OF settled_put [OF assms(1) this], of "Sys_close (c_upc_fd p)" c] good show ?thesis
    by (simp add: final_world_def good_conn_def)
qed

lemma handle_settled:
  assumes "x_upstream_handle w = Inr (rc, w')" and "settled t U k w"
  shows "settled t U k w'"
proof -
  have "settled t U k w \<longrightarrow> settled t U k w'"
    using assms(1)
  proof (induction rule: handle_induct)
    case (admit w c q w1 w2 p)
    show ?case
    proof
      assume "settled t U k w"
      from x_upstream_init_settled [OF admit(3) this] settled_queue(1) [OF admit(4)]
      have w2: "settled t U (k + 1) w2" by simp
      have "good_conn U (p\<lparr>c_status := CONN_WORKING\<rparr>)"
        using settledD(2) [OF w2 admit(5)] by (simp add: good_conn_def)
      with w2 show "settled t U k (admitted_world c p w2)"
        by (simp add: admitted_world_def settled_put)
    qed
  next
    case (refused w c q r w1 p)
    with x_upstream_init_settled [OF refused(2)] show ?case by fastforce
  next
    case (retry w c q r w1 p w')
    show ?case
    proof
      assume "settled t U k w"
      from x_upstream_init_settled [OF retry(2) this] retry(3) have "settled t U k w1" by simp
      from final_world_settled [OF this retry(4)] retry(7) show "settled t U k w'" by simp
    qed
  qed simp
  with assms(2) show ?thesis by simp
qed

lemma final_settled:
  assumes "x_upstream_final c v = Inr v'" and "settled t U k v"
  shows "settled t U k v'"
proof -
  from assms(1) obtain p where p: "w_conns v c = Some p" by (auto simp: x_upstream_final.simps [of c v])
  with assms(1) have "v' = v \<or> (\<exists>rc. x_upstream_handle (final_world c p v) = Inr (rc, v'))"
    by (auto simp: final_run split: if_split_asm)
  with assms(2) handle_settled [OF _ final_world_settled [OF assms(2) p]] show ?thesis by blast
qed

subsection \<open>The callbacks\<close>

lemma close_settled:
  assumes "x_event_close c w = Inr w'" and "settled t U k w"
  shows "settled t U k w'"
proof (cases "w' = w")
  case False
  with assms(1) obtain w1 where w1: "x_upstream_final c w = Inr w1"
    and rest: "close_rest c w1 = Inr w'"
    by (auto simp: x_event_close_def split: if_split_asm)
  note ok1 = final_settled [OF w1 assms(2)]
  from rest obtain p1 where p1: "w_conns w1 c = Some p1" by auto
  note good = settledD(2) [OF ok1 p1]
  define w2 where "w2 = log_sys (Sys_close (c_fd p1)) (put_conn c (p1\<lparr>c_e_recv := False, c_e_send := False\<rparr>) w1)"
  have "good_conn U (p1\<lparr>c_e_recv := False, c_e_send := False\<rparr>)" using good by (simp add: good_conn_def)
  from settled_log [OF settled_put [OF ok1 this], of "Sys_close (c_fd p1)" c] good
  have ok2: "settled t U (k - 1) w2" by (simp add: w2_def good_conn_def)
  from rest p1 obtain w3 w4 where w3: "w3 = w2 \<or> (\<exists>v. cq_remove c w2 = Inr v
      \<and> w3 = v\<lparr>ln_cq_waiting_num := ln_cq_waiting_num v - 1\<rparr>)"
    and w4: "upd_conn c (\<lambda>p. p\<lparr>c_e_timer := Timer_again CONN_FREE_TIMEOUT, c_status := CONN_CLOSE\<rparr>) w3 = Inr w4"
    and w': "w' = w4\<lparr>ln_c_count := ln_c_count w4 - 1\<rparr>"
    by (auto simp: Let_def w2_def [symmetric] simp del: upd_conn_Inr split: if_split_asm)
  have "settled t U (k - 1) w3" using w3 ok2 settled_queue(1) [OF _ ok2] by auto
  from settled_upd [OF w4 this] have "settled t U (k - 1) w4" by (simp add: good_conn_def)
  then show ?thesis by (simp add: w')
qed (use assms in simp)

lemma joins_settled:
  assumes "joins c w1 w5" and "settled t U k w1"
  shows "settled t U k w5"
proof -
  from assms(1) obtain w2 p2 rc where w2: "cq_insert_tail c w1 = Inr w2" "w_conns w2 c = Some p2"
    and run: "x_upstream_handle (put_conn c (p2\<lparr>c_status := CONN_WAITING\<rparr>)
      (w2\<lparr>ln_cq_waiting_num := ln_cq_waiting_num w2 + 1\<rparr>)) = Inr (rc, w5)" by (auto simp: joins_def)
  note ok2 = settled_queue(2) [OF w2(1) assms(2)]
  have "good_conn U (p2\<lparr>c_status := CONN_WAITING\<rparr>)"
    using settledD(2) [OF ok2 w2(2)] by (simp add: good_conn_def)
  with handle_settled [OF run] ok2 show ?thesis by (simp add: settled_put)
qed

lemma x_accept_cb_settled:
  assumes "x_accept_cb w = Inr w'" and "settled t U k w"
  shows "settled t U k w'"
proof -
  from assms(1) obtain fd addr as where acc: "accept_loop (o_accept w) = Inr (fd, addr, as)"
    by (auto simp: x_accept_cb_def)
  define w1 where "w1 = log_sys (Sys_accept fd) (w\<lparr>o_accept := as\<rparr>)"
  have w1: "settled t U (k + of_bool (fd \<noteq> -1)) w1"
    using settled_log [of t U k "w\<lparr>o_accept := as\<rparr>" "Sys_accept fd"] assms(2) by (simp add: w1_def)
  show ?thesis
  proof (cases "ac_max (sc_access (ln_srvcf w)) \<le> ln_c_count w")
    case True
    with assms(1) acc have "w' = log_sys (Sys_close fd) w1" by (simp add: x_accept_cb_def w1_def)
    with settled_log [OF w1, of "Sys_close fd"] show ?thesis by simp
  next
    case False
    with assms(1) acc obtain zs fc where fd: "0 \<le> fd"
      and w': "w' = (put_conn (w_next w1) (new_conn fd addr (ln_timeout w1))
        (w1\<lparr>o_zmalloc := zs, o_fcntl := fc, w_next := w_next w1 + 1\<rparr>))\<lparr>ln_c_count := ln_c_count w1 + 1\<rparr>"
      by (auto simp: x_accept_cb_def Let_def w1_def [symmetric] split: if_split_asm)
    have "good_conn U (new_conn fd addr (ln_timeout w1))"
      using fd by (simp add: good_conn_def new_conn_def zero_conn_def)
    with w1 fd show ?thesis by (simp add: w' settled_put)
  qed
qed

lemma callback_settled:
  assumes "callback e w = Inr w'" and "settled t U k w"
  shows "settled t U k w'"
proof (cases e)
  case Ev_accept
  with assms x_accept_cb_settled show ?thesis by simp
next
  case (Ev_recv c)
  with assms(1) have "x_recv_cb c w = Inr w'" by simp
  then show ?thesis
  proof (rule x_recv_cb_parts)
    fix p out pipe1 bp rs ms w1
    assume p: "w_conns w c = Some p"
      and w1: "w1 = put_conn c (p\<lparr>c_pipe1 := pipe1\<rparr>) (w\<lparr>ln_bp := bp, o_recv := rs, o_malloc := ms\<rparr>)"
    have ok1: "settled t U k w1"
      using settledD(2) [OF assms(2) p] assms(2) by (simp add: w1 settled_put good_conn_def)
    have send: "settled t U k v'" if "x_upstream_send_to_peer c v = Inr v'" "settled t U k v" for v v'
      using settled_upd [OF that(1) [unfolded x_upstream_send_to_peer_def] that(2)] by (simp add: good_conn_def)
    assume "x_event_close c w1 = Inr w' \<or> (\<exists>w5. (w5 = w1 \<or> joins c w1 w5)
      \<and> (w' = w5 \<or> x_upstream_send_to_peer c w5 = Inr w'))"
    with ok1 close_settled joins_settled [OF _ ok1] send show ?thesis by blast
  qed
next
  case (Ev_send c)
  with assms(1) obtain p out pipe2 bp bs ss where p: "w_conns w c = Some p"
    and bufs: "access_bufsend (c_pipe2 p) (ln_bp w) [] (o_send w) = Inr (out, pipe2, bp, bs, ss)"
    by (auto simp: x_send_cb_def)
  define w1 where "w1 = log_sys (Sys_send (c_fd p) bs) (put_conn c (p\<lparr>c_pipe2 := pipe2\<rparr>) (w\<lparr>ln_bp := bp, o_send := ss\<rparr>))"
  have good: "good_conn U (p\<lparr>c_pipe2 := pipe2\<rparr>)" "good_conn U (p\<lparr>c_pipe2 := pipe2, c_e_send := False\<rparr>)"
    using settledD(2) [OF assms(2) p] by (simp_all add: good_conn_def)
  have "settled t U k (put_conn c (p\<lparr>c_pipe2 := pipe2\<rparr>) (w\<lparr>ln_bp := bp, o_send := ss\<rparr>))"
    by (rule settled_put) (use assms(2) good in simp_all)
  from settled_log [OF this, of "Sys_send (c_fd p) bs"] have ok1: "settled t U k w1" by (simp add: w1_def)
  have "x_event_close c w1 = Inr w' \<or> w' = w1 \<or> w' = put_conn c (p\<lparr>c_pipe2 := pipe2, c_e_send := False\<rparr>) w1"
    using assms(1) Ev_send p bufs
    by (auto simp: x_send_cb_def send_finished_def Let_def w1_def split: send_out.split_asm if_split_asm)
  with ok1 close_settled [OF _ ok1] settled_put [OF ok1 good(2)] show ?thesis by blast
next
  case (Ev_timer c)
  with assms(1) have "x_timeout_cb c w = Inr w'" by simp
  then obtain p w2 p2 where p: "w_conns w c = Some p" and w2: "x_event_close c (timed_out c p w) = Inr w2"
    and "w_conns w2 c = Some p2"
    and w': "w' = w2\<lparr>ln_bp := drain (drain (ln_bp w2) (c_pipe1 p2)) (c_pipe2 p2), w_conns := (w_conns w2)(c := None)\<rparr>"
    by (rule timeout_parts)
  have "good_conn U (p\<lparr>c_status := CONN_TIMEOUT\<rparr>)" using settledD(2) [OF assms(2) p] by (simp add: good_conn_def)
  with assms(2) have "settled t U k (timed_out c p w)" by (simp add: settled_put)
  from close_settled [OF w2 this] have "settled t U k w2" .
  then show ?thesis
    by (simp add: w' settled_def balance_def open_sockets_def leaked_sockets_def connect_failures_def)
next
  case (Ev_upc_connected c)
  with assms(1) obtain p so where p: "w_conns w c = Some p"
    and cases: "x_upstream_final c (w\<lparr>o_sockopt := so\<rparr>) = Inr w'
      \<or> (\<exists>tm. w' = put_conn c (p\<lparr>c_upc_e_connected := False, c_upc_e_send := True, c_upc_e_timer := tm,
            c_upc_status := CONN_WORKING\<rparr>) (w\<lparr>o_sockopt := so\<rparr>))"
    by (fastforce simp: x_upstream_connected_cb_def Let_def split: option.split_asm if_split_asm)
  have "good_conn U (p\<lparr>c_upc_e_connected := False, c_upc_e_send := True, c_upc_e_timer := tm,
      c_upc_status := CONN_WORKING\<rparr>)" for tm
    using settledD(2) [OF assms(2) p] by (simp add: good_conn_def)
  with cases assms(2) final_settled [of c "w\<lparr>o_sockopt := so\<rparr>" w'] show ?thesis
    by (auto intro: settled_put)
next
  case (Ev_upc_send c)
  with assms(1) obtain p out pipe1 bp bs ss where p: "w_conns w c = Some p"
    and bufs: "upstream_bufsend (c_pipe1 p) (ln_bp w) [] (o_send w) = Inr (out, pipe1, bp, bs, ss)"
    by (auto simp: x_upstream_send_cb_def)
  define w1 where "w1 = log_sys (Sys_send (c_upc_fd p) bs) (put_conn c (p\<lparr>c_pipe1 := pipe1\<rparr>) (w\<lparr>ln_bp := bp, o_send := ss\<rparr>))"
  have "good_conn U (p\<lparr>c_pipe1 := pipe1\<rparr>)" using settledD(2) [OF assms(2) p] by (simp add: good_conn_def)
  then have "settled t U k (put_conn c (p\<lparr>c_pipe1 := pipe1\<rparr>) (w\<lparr>ln_bp := bp, o_send := ss\<rparr>))"
    using assms(2) by (simp add: settled_put)
  from settled_log [OF this, of "Sys_send (c_upc_fd p) bs"] have ok1: "settled t U k w1" by (simp add: w1_def)
  have "x_upstream_final c w1 = Inr w' \<or> upd_conn c (\<lambda>p. p\<lparr>c_upc_e_send := False\<rparr>) w1 = Inr w'"
    using assms(1) Ev_upc_send p bufs
    by (auto simp: x_upstream_send_cb_def Let_def w1_def split: if_split_asm)
  with final_settled [OF _ ok1] settled_upd [OF _ ok1] show ?thesis by (auto simp: good_conn_def simp del: upd_conn_Inr)
next
  case (Ev_upc_recv c)
  with assms(1) obtain p out pipe2 bp rs ms where p: "w_conns w c = Some p"
    and recv: "pipe_recv (c_pipe2 p) (ln_bp w) (o_recv w) (o_malloc w) = Inr (out, pipe2, bp, rs, ms)"
    by (auto simp: x_upstream_recv_cb_def)
  define w1 where "w1 = put_conn c (p\<lparr>c_pipe2 := pipe2\<rparr>) (w\<lparr>ln_bp := bp, o_recv := rs, o_malloc := ms\<rparr>)"
  have ok1: "settled t U k w1"
    using settledD(2) [OF assms(2) p] assms(2) by (simp add: w1_def settled_put good_conn_def)
  have "x_upstream_final c w1 = Inr w' \<or> upd_conn c (\<lambda>p. p\<lparr>c_e_send := True\<rparr>) w1 = Inr w'"
    using assms(1) Ev_upc_recv p recv
    by (auto simp: x_upstream_recv_cb_def x_access_send_to_client_def Let_def w1_def split: if_split_asm)
  with final_settled [OF _ ok1] settled_upd [OF _ ok1] show ?thesis by (auto simp: good_conn_def simp del: upd_conn_Inr)
next
  case (Ev_upc_timer c)
  with assms(1) obtain p w2 p2 where p: "w_conns w c = Some p" and w2: "x_upstream_final c
      (if c_upc_status p \<noteq> CONN_CLOSE then put_conn c (p\<lparr>c_upc_status := CONN_TIMEOUT\<rparr>) w else w) = Inr w2"
    and w': "w_conns w2 c = Some p2" "w' = put_conn c (p2\<lparr>c_upc_e_timer := Timer_off\<rparr>) w2"
    by (auto elim!: upstream_timeout_parts)
  have "good_conn U (p\<lparr>c_upc_status := CONN_TIMEOUT\<rparr>)" using settledD(2) [OF assms(2) p] by (simp add: good_conn_def)
  with assms(2) have "settled t U k (if c_upc_status p \<noteq> CONN_CLOSE then put_conn c (p\<lparr>c_upc_status := CONN_TIMEOUT\<rparr>) w else w)"
    by (simp add: settled_put)
  note ok2 = final_settled [OF w2 this]
  have "good_conn U (p2\<lparr>c_upc_e_timer := Timer_off\<rparr>)" using settledD(2) [OF ok2 w'(1)] by (simp add: good_conn_def)
  with ok2 show ?thesis by (simp add: w' settled_put)
qed

interpretation sockets: event_loop ev_started dispatch timely refuses "\<lambda>w. proxy_inv w \<and> settled t U k w"
proof
  fix w e a
  assume w: "proxy_inv w \<and> settled t U k w" and e: "ev_started w e" "timely w e"
  have "okE (refuses w e a) proxy_inv (dispatch e a w)" using w e by (blast intro: dispatch_inv)
  moreover have "settled t U k w'" if "dispatch e a w = Inr w'" for w'
    by (rule callback_settled [OF that [unfolded dispatch_def]]) (use w in simp)
  ultimately show "okE (refuses w e a) (\<lambda>w. proxy_inv w \<and> settled t U k w) (dispatch e a w)"
    by (blast intro: okE_mono)
qed

text \<open>A listener that has just been set up is settled.\<close>

lemma start_settled:
  assumes "proxy_inv w" and "w_conns w = (\<lambda>_. None)" and "w_trace w = []"
  shows "settled (ln_timeout w) (set (sc_upstream (ln_srvcf w))) 0 w"
  using assms
  by (simp add: settled_def balance_def open_sockets_def leaked_sockets_def connect_failures_def
      proxy_inv_def inv_ex_def count_ok_def cnt_def)

subsection \<open>Properties\<close>

text \<open>C7: What the limit on upstream connections is worth.  In every state reachable from a listener
  just set up (by runs in which no timer fires for a waiting connection), the sockets that are open, by the system calls made, are those of the clients that are not
  closed and those of the connections with an open upstream side, and the sockets that a failing
  \<open>x_setNonBlock\<close> has left open.  The upstream side is open for \<open>working_num\<close> connections and for
  one more for every \<open>connect\<close> that has failed at once since the start; only \<open>working_num\<close> is kept
  below the configured maximum.\<close>

theorem upstream_limit:
  assumes "proxy_inv w0" and "w_conns w0 = (\<lambda>_. None)" and "w_trace w0 = []"
    and "ev_reach ev_started dispatch timely w0 w"
  shows "open_sockets w = int (card {c. \<exists>p. w_conns w c = Some p \<and> c_status p \<noteq> CONN_CLOSE})
      + int (card {c. \<exists>p. w_conns w c = Some p \<and> upc_active p}) + leaked_sockets w
    \<and> int (card {c. \<exists>p. w_conns w c = Some p \<and> upc_active p}) = ln_working_num w + connect_failures w
    \<and> ln_working_num w \<le> max 0 (sc_working_num_max (ln_srvcf w)) \<and> 0 \<le> leaked_sockets w"
proof -
  have inv: "inv_ex {} w"
    and "settled (ln_timeout w0) (set (sc_upstream (ln_srvcf w0))) 0 w"
    using sockets.reach_inv [OF assms(4)] start_settled [OF assms(1-3)] assms(1)
    by (simp_all add: proxy_inv_def)
  then have "balance w = 0" "0 \<le> leaked_sockets w" by (simp_all add: settled_def)
  with inv show ?thesis by (auto simp: inv_ex_def count_ok_def cnt_def conn_open_def balance_def)
qed

text \<open>The witness is a run in which the limit of one upstream connection is exceeded: the first socket is
  left open by a failing \<open>x_setNonBlock\<close>; then a \<open>connect\<close> fails and is tried again, after
  which one connection is open and counted as none.\<close>

definition limit_exceeded :: "(event \<times> answers) list" where
  "limit_exceeded = [client_comes 4,
     (Ev_recv 0, no_answers\<lparr>a_recv := [RecvErr EAGAIN], a_malloc := [True], a_fcntl := [-1], a_socket := [20]\<rparr>),
     client_comes 6, client_asks 1 [7, 8] [Some EOTHER, None]]"

theorem upstream_limit_witness:
  "\<exists>w. ev_reach ev_started dispatch timely example_world w \<and> sc_working_num_max (ln_srvcf w) = 1
    \<and> ln_working_num w = 0 \<and> card {c. \<exists>p. w_conns w c = Some p \<and> upc_active p} = 1
    \<and> open_sockets w = int (card {c. \<exists>p. w_conns w c = Some p \<and> c_status p \<noteq> CONN_CLOSE}) + 2"
proof -
  have "case run_events ev_started dispatch timely limit_exceeded example_world of Inl _ \<Rightarrow> False
    | Inr w \<Rightarrow> ln_working_num w = 0 \<and> connect_failures w = 1 \<and> sc_working_num_max (ln_srvcf w) = 1
        \<and> leaked_sockets w = 1"
    by code_simp
  then obtain w where w: "ev_reach ev_started dispatch timely example_world w"
      "ln_working_num w = 0" "connect_failures w = 1" "sc_working_num_max (ln_srvcf w) = 1" "leaked_sockets w = 1"
    by (rule run_returns) auto
  have "w_conns example_world = (\<lambda>_. None)" "w_trace example_world = []"
    by (simp_all add: example_world_def blank_world_def)
  from upstream_limit [OF example_world_inv this w(1)] w show ?thesis by auto
qed

end
