(* ===== verification/Buffers.thy ===== *)
theory Buffers
  imports Work
begin

section \<open>No buffer is lost\<close>

text \<open>
  The pool counts the buffers it has made (\<open>max\<close>) and those on its free list (\<open>n\<close>).  The others
  are in the chains of the connections: over the whole run of the event loop no buffer gets
  lost, and none is counted that does not exist, if the pool could be given its first one.
\<close>

subsection \<open>The pool\<close>

definition stocked :: "xtp_buf_pool \<Rightarrow> bool" where
  "stocked bp \<longleftrightarrow> pool_ok bp \<and> 0 \<le> outstanding bp \<and> 0 < bp_max bp"

lemma x_buf_alloc_stock:
  assumes "x_buf_alloc bp ms = Some (b, bp', ms')" and "stocked bp"
  shows "stocked bp'" and "outstanding bp' = outstanding bp + 1"
proof -
  have "pool_ok bp" and "bp_max bp \<noteq> 0" and pos: "0 \<le> outstanding bp" using assms(2) by (auto simp: stocked_def)
  note spec = x_buf_alloc_spec [OF assms(1) this(1)]
  from spec(4) \<open>bp_max bp \<noteq> 0\<close> show out: "outstanding bp' = outstanding bp + 1" by simp
  have "0 \<le> bp_n bp'" using spec(1) by (simp add: pool_ok_def)
  with out pos spec(1) show "stocked bp'" by (simp add: stocked_def outstanding_def)
qed

lemma buf_free_stock:
  assumes "stocked bp" and "block_ok bp b" and "1 \<le> outstanding bp"
  shows "stocked (buf_free bp b)" and "outstanding (buf_free bp b) = outstanding bp - 1"
proof -
  have pool: "pool_ok bp" and pos: "0 \<le> bp_size bp"
    using assms(1) by (simp_all add: stocked_def pool_ok_def geometry_pos)
  note free = x_buf_free_ok [OF pool assms(2)]
  show out: "outstanding (buf_free bp b) = outstanding bp - 1" using free(3) by (simp add: buf_free_def)
  have "bp_max (buf_free bp b) = bp_max bp"
    using x_buf_free_block [OF assms(2) pos] by (simp add: buf_free_def)
  with assms(1,3) free(1) out show "stocked (buf_free bp b)" by (simp add: stocked_def buf_free_def)
qed

subsection \<open>The chains\<close>

lemma recv2buf_stock:
  "recv2buf front buf bp rs ms = Inr (out, pipe', bp', rs', ms') \<Longrightarrow> stocked bp
    \<Longrightarrow> stocked bp' \<and> outstanding bp' - int (length pipe') = outstanding bp - int (length front) - 1"
proof (induction front buf bp rs ms arbitrary: out pipe' bp' rs' ms' rule: recv2buf.induct)
  case (1 front buf bp rs ms)
  note run = "1.prems"(1) [unfolded recv2buf.simps [of front buf bp rs ms]]
  show ?case
  proof (cases "b_last buf = b_end buf")
    case True
    with run "1.prems"(2) show ?thesis by auto
  next
    case False
    with run obtain len bs rs1
      where rcv: "x_recvn (ptrdiff (b_end buf) (b_last buf)) rs = Inr (len, bs, rs1)" by auto
    show ?thesis
    proof (cases "len \<le> 0")
      case True
      with run rcv False "1.prems"(2) show ?thesis by (auto simp: Let_def split: if_split_asm)
    next
      case pos: False
      define buf2 where "buf2 = (store buf bs)\<lparr>b_last := b_last (store buf bs) + nat len\<rparr>"
      show ?thesis
      proof (cases "b_end buf2 = b_last buf2")
        case True
        with run rcv False pos obtain nbuf bp1 ms1 where al: "x_buf_alloc bp ms = Some (nbuf, bp1, ms1)"
          and rec: "recv2buf (front @ [buf2]) nbuf bp1 rs1 ms1 = Inr (out, pipe', bp', rs', ms')"
          by (auto simp: Let_def buf2_def split: if_splits)
        note al_ok = x_buf_alloc_stock [OF al "1.prems"(2)]
        have "stocked bp' \<and> outstanding bp' - int (length pipe') = outstanding bp1 - int (length (front @ [buf2])) - 1"
          using "1.IH"(1) [OF False rcv refl refl refl _ _ buf2_def True] al rec al_ok(1) pos by simp
        with al_ok(2) show ?thesis by simp
      next
        case room: False
        with run rcv False pos have rec: "recv2buf front buf2 bp rs1 ms = Inr (out, pipe', bp', rs', ms')"
          by (auto simp: Let_def buf2_def split: if_splits)
        show ?thesis
          using "1.IH"(2) [OF False rcv refl refl refl _ _ buf2_def room] rec "1.prems"(2) pos by simp
      qed
    qed
  qed
qed

lemma pipe_recv_stock:
  assumes "pipe_recv pipe bp rs ms = Inr (out, pipe', bp', rs', ms')" and "stocked bp"
  shows "stocked bp' \<and> outstanding bp' - int (length pipe') = outstanding bp - int (length pipe)"
proof (cases "pipe = []")
  case True
  with assms(1) obtain buf bp1 ms1 where al: "x_buf_alloc bp ms = Some (buf, bp1, ms1)"
    and rec: "recv2buf [] buf bp1 rs ms1 = Inr (out, pipe', bp', rs', ms')" by (auto simp: pipe_recv_def)
  note al_ok = x_buf_alloc_stock [OF al assms(2)]
  from recv2buf_stock [OF rec al_ok(1)] al_ok(2) True show ?thesis by simp
next
  case False
  with assms recv2buf_stock [of "butlast pipe" "last pipe"] show ?thesis
    by (cases pipe rule: rev_cases) (auto simp: pipe_recv_def)
qed

text \<open>The two send loops; \<open>stopped\<close> is where they differ.\<close>

lemma bufsend_round:
  assumes "send_while buf bs ss = Inr (out, buf', sent1, ss1)" and "stocked bp" and "pipe_ok bp (buf # rest)"
    and "int (length (buf # rest)) \<le> outstanding bp"
  shows "stocked (buf_free bp buf')" and "outstanding (buf_free bp buf') = outstanding bp - 1"
    and "pipe_ok (buf_free bp buf') rest"
proof -
  have pool: "pool_ok bp" and "buf_ok bp buf" using assms(2,3) by (simp_all add: stocked_def pipe_ok_Cons)
  with send_while_spec [OF assms(1)] have ok': "buf_ok bp buf'" by blast
  from buf_free_stock [OF assms(2) buf_ok_block [OF ok']] assms(4)
  show "stocked (buf_free bp buf')" and "outstanding (buf_free bp buf') = outstanding bp - 1" by simp_all
  show "pipe_ok (buf_free bp buf') rest" by (rule bufsend_rest_ok(2) [OF pool assms(3) ok'])
qed

lemma access_bufsend_stock:
  "access_bufsend pipe bp bs ss = Inr (out, pipe', bp', bs', ss') \<Longrightarrow> stocked bp \<Longrightarrow> pipe_ok bp pipe
    \<Longrightarrow> int (length pipe) \<le> outstanding bp
    \<Longrightarrow> stocked bp' \<and> outstanding bp' - int (length pipe') = outstanding bp - int (length pipe)"
proof (induction pipe bp bs ss rule: access_bufsend.induct)
  case (2 buf rest bp bs ss)
  from "2.prems"(1) obtain o1 buf' sent1 ss1
    where w: "send_while buf bs ss = Inr (o1, buf', sent1, ss1)" by auto
  note round = bufsend_round [OF w "2.prems"(2-4)]
  show ?case
  proof (cases "(o1 \<noteq> Send_error \<and> o1 \<noteq> Send_again) \<and> b_pos buf' = b_end buf'")
    case True
    with "2.IH" [OF w refl refl refl] "2.prems" w round show ?thesis by simp
  next
    case False
    with "2.prems" w show ?thesis by (auto split: if_split_asm)
  qed
qed simp

lemma upstream_bufsend_stock:
  "upstream_bufsend pipe bp bs ss = Inr (out, pipe', bp', bs', ss') \<Longrightarrow> stocked bp \<Longrightarrow> pipe_ok bp pipe
    \<Longrightarrow> int (length pipe) \<le> outstanding bp
    \<Longrightarrow> stocked bp' \<and> outstanding bp' - int (length pipe') = outstanding bp - int (length pipe)"
proof (induction pipe bp bs ss rule: upstream_bufsend.induct)
  case (2 buf rest bp bs ss)
  from "2.prems"(1) obtain o1 buf' sent1 ss1
    where w: "send_while buf bs ss = Inr (o1, buf', sent1, ss1)" by auto
  note round = bufsend_round [OF w "2.prems"(2-4)]
  show ?case
  proof (cases "o1 \<noteq> Send_error \<and> b_pos buf' = b_end buf'")
    case True
    with "2.IH" [OF w refl refl refl] "2.prems" w round show ?thesis by simp
  next
    case False
    with "2.prems" w show ?thesis by (auto split: if_split_asm)
  qed
qed simp

lemma drain_stock:
  "stocked bp \<Longrightarrow> pipe_ok bp pipe' \<Longrightarrow> set pipe \<subseteq> set pipe' \<Longrightarrow> int (length pipe) \<le> outstanding bp
    \<Longrightarrow> stocked (drain bp pipe) \<and> outstanding (drain bp pipe) = outstanding bp - int (length pipe)"
proof (induction bp pipe rule: drain.induct)
  case (2 bp buf pipe)
  have "block_ok bp buf" using "2.prems"(2,3) by (auto simp: pipe_ok_def buf_ok_block)
  note free = buf_free_stock [OF "2.prems"(1) this]
  have "pipe_ok (buf_free bp buf) pipe'" using "2.prems"(2) pipe_ok_shape [OF bpool.put_shape] by simp
  with "2.IH" "2.prems" free show ?case by simp
qed simp

subsection \<open>The connections\<close>

definition buffers :: "xtp_conn \<Rightarrow> int" where
  "buffers p = int (length (c_pipe1 p)) + int (length (c_pipe2 p))"

definition held :: "world \<Rightarrow> int" where
  "held w = heap_sum buffers (w_conns w)"

definition stock_ok :: "world \<Rightarrow> bool" where
  "stock_ok w \<longleftrightarrow> stocked (ln_bp w) \<and> outstanding (ln_bp w) = held w"

text \<open>What neither gets a buffer nor gives one back.\<close>

definition stock_kept :: "world \<Rightarrow> world \<Rightarrow> bool" where
  "stock_kept w w' \<longleftrightarrow> ln_bp w' = ln_bp w
     \<and> (\<forall>d. map_option buffers (w_conns w' d) = map_option buffers (w_conns w d))"

lemma stock_kept_trans: "stock_kept w v \<Longrightarrow> stock_kept v w' \<Longrightarrow> stock_kept w w'"
  by (simp add: stock_kept_def)

lemma stock_kept_same: "ln_bp w' = ln_bp w \<Longrightarrow> w_conns w' = w_conns w \<Longrightarrow> stock_kept w w'"
  by (simp add: stock_kept_def)

lemma stock_kept_put:
  assumes "w_conns w c = Some p" and "w_conns w' = (w_conns w)(c \<mapsto> p')" and "buffers p' = buffers p"
    and "ln_bp w' = ln_bp w"
  shows "stock_kept w w'"
  using assms by (simp add: stock_kept_def)

lemma stock_kept_ok:
  assumes "stock_kept w w'" and "stock_ok w"
  shows "stock_ok w'"
proof -
  have conns: "map_option buffers (w_conns w' d) = map_option buffers (w_conns w d)" for d
    using assms(1) by (simp add: stock_kept_def)
  then have "dom (w_conns w') = dom (w_conns w)"
    unfolding dom_def by (metis map_option_is_None)
  moreover have "buffers (the (w_conns w' d)) = buffers (the (w_conns w d))" if "d \<in> dom (w_conns w)" for d
    using conns [of d] that by auto
  ultimately have "held w' = held w" by (simp add: held_def heap_sum_def)
  with assms show ?thesis by (simp add: stock_ok_def stock_kept_def)
qed

lemma buffers_held:
  assumes "finite (dom (w_conns w))" and "w_conns w c = Some p"
  shows "buffers p \<le> held w"
proof -
  have "0 \<le> heap_sum buffers ((w_conns w)(c := None))"
    unfolding heap_sum_def by (rule sum_nonneg) (simp add: buffers_def)
  with heap_sum_delete [OF assms, of buffers] show ?thesis by (simp add: held_def)
qed

text \<open>A callback changes the chains of one connection.\<close>

lemma stock_ok_put:
  assumes "finite (dom (w_conns w))" and "w_conns w c = Some p" and "stock_ok w"
    and "w_conns w' = (w_conns w)(c \<mapsto> p')" and "stocked (ln_bp w')"
    and "outstanding (ln_bp w') - buffers p' = outstanding (ln_bp w) - buffers p"
  shows "stock_ok w'"
  using heap_sum_update [OF assms(1,2), of buffers p'] assms(3-) by (simp add: stock_ok_def held_def)

subsection \<open>Admission and closing move no buffers\<close>

lemma buffers_simps [simp]:
  "buffers (p\<lparr>c_status := x\<rparr>) = buffers p" "buffers (p\<lparr>c_upcf := u\<rparr>) = buffers p"
  "buffers (p\<lparr>c_e_send := b\<rparr>) = buffers p" "buffers (p\<lparr>c_e_recv := b\<rparr>) = buffers p"
  "buffers (p\<lparr>c_e_timer := t\<rparr>) = buffers p" "buffers (p\<lparr>c_upc_e_send := b\<rparr>) = buffers p"
  "buffers (p\<lparr>c_upc_e_timer := t\<rparr>) = buffers p" "buffers (p\<lparr>c_upc_status := x\<rparr>) = buffers p"
  "buffers (p\<lparr>c_upc_e_connected := b\<rparr>) = buffers p"
  "buffers (upc_connecting fd p) = buffers p" "buffers (upc_closed p) = buffers p"
  by (simp_all add: buffers_def upc_connecting_def upc_closed_def upc_stopped_def)

lemma connection_new_stock:
  "x_upstream_connection_new c upcf w = Inr (rc, w') \<Longrightarrow> stock_kept w w'"
  by (cases "o_socket w")
    (auto simp: x_upstream_connection_new_def Let_def stock_kept_def
      simp del: upd_conn_Inr split: if_split_asm option.split_asm)

lemma upd_conn_stock:
  "upd_conn c f w = Inr w' \<Longrightarrow> (\<And>p. buffers (f p) = buffers p) \<Longrightarrow> stock_kept w w'"
  by (auto intro: stock_kept_put)

lemma x_upstream_init_stock:
  assumes "x_upstream_init c w = Inr (rc, w')"
  shows "stock_kept w w'"
proof -
  from assms obtain upcf s1 w2 where run: "x_upstream_connection_new c upcf (w\<lparr>ln_srvcf := s1\<rparr>) = Inr (rc, w2)"
    and w': "upd_conn c (\<lambda>p. p\<lparr>c_upcf := upcf\<rparr>) w2 = Inr w'"
    using choose_peer_max by (fastforce simp: x_upstream_init_def Let_def simp del: upd_conn_Inr)
  have "stock_kept w (w\<lparr>ln_srvcf := s1\<rparr>)" by (rule stock_kept_same) simp_all
  from stock_kept_trans [OF this connection_new_stock [OF run]]
  have "stock_kept w w2" .
  moreover have "stock_kept w2 w'" by (rule upd_conn_stock [OF w']) simp
  ultimately show ?thesis by (rule stock_kept_trans)
qed

lemma cq_remove_stock: "cq_remove c w = Inr w' \<Longrightarrow> stock_kept w w'"
  by (auto simp: cq_remove_def Let_def split: if_split_asm intro: stock_kept_same)

lemma final_world_stock: "w_conns v c = Some p \<Longrightarrow> stock_kept v (final_world c p v)"
  by (rule stock_kept_put [where p' = "upc_closed p"]) (simp_all add: final_world_def)

lemma handle_stock:
  assumes "x_upstream_handle w = Inr (rc, w')"
  shows "stock_kept w w'"
  using assms
proof (induction rule: handle_induct)
  case (idle w)
  show ?case by (rule stock_kept_same) simp_all
next
  case (admit w c q w1 w2 p)
  have "stock_kept w2 (admitted_world c p w2)"
    by (rule stock_kept_put [OF admit(5), where p' = "p\<lparr>c_status := CONN_WORKING\<rparr>"]) (simp_all add: admitted_world_def)
  with x_upstream_init_stock [OF admit(3)] cq_remove_stock [OF admit(4)] show ?case
    by (blast intro: stock_kept_trans)
next
  case (refused w c q r w1 p)
  with x_upstream_init_stock show ?case by blast
next
  case (retry w c q r w1 p w')
  with x_upstream_init_stock final_world_stock show ?case by (blast intro: stock_kept_trans)
qed

lemma final_stock:
  assumes "x_upstream_final c v = Inr v'"
  shows "stock_kept v v'"
proof -
  from assms obtain p where p: "w_conns v c = Some p" by (auto simp: x_upstream_final.simps [of c v])
  with assms have "v' = v \<or> (\<exists>rc. x_upstream_handle (final_world c p v) = Inr (rc, v'))"
    by (auto simp: final_run split: if_split_asm)
  then show ?thesis
    using stock_kept_trans [OF final_world_stock [OF p] handle_stock] stock_kept_same [of v v] by blast
qed

lemma close_stock:
  assumes "x_event_close c w = Inr w'"
  shows "stock_kept w w'"
proof (cases "w' = w")
  case True
  then show ?thesis by (auto intro: stock_kept_same)
next
  case False
  with assms obtain w1 p1 where w1: "x_upstream_final c w = Inr w1" and p1: "w_conns w1 c = Some p1"
    and rest: "close_rest c w1 = Inr w'"
    by (auto simp: x_event_close_def split: if_split_asm)
  have "stock_kept w1 w'"
  proof (rule stock_kept_put [OF p1])
    show "w_conns w' = (w_conns w1)(c \<mapsto> p1\<lparr>c_e_recv := False, c_e_send := False,
        c_e_timer := Timer_again CONN_FREE_TIMEOUT, c_status := CONN_CLOSE\<rparr>)"
      using rest p1 by (auto simp: Let_def cq_remove_def split: if_split_asm)
    show "ln_bp w' = ln_bp w1" using rest p1 by (auto simp: Let_def cq_remove_def split: if_split_asm)
  qed simp
  with final_stock [OF w1] show ?thesis by (rule stock_kept_trans)
qed

subsection \<open>The callbacks\<close>

lemma send_to_peer_stock: "x_upstream_send_to_peer c w = Inr w' \<Longrightarrow> stock_kept w w'"
  using upd_conn_stock [of c "\<lambda>p. p\<lparr>c_upc_e_send := True\<rparr>" w w']
  by (simp add: x_upstream_send_to_peer_def del: upd_conn_Inr)

lemma joins_stock:
  assumes "joins c w1 w5"
  shows "stock_kept w1 w5"
proof -
  from assms obtain w2 p2 rc where w2: "cq_insert_tail c w1 = Inr w2" and p2: "w_conns w2 c = Some p2"
    and run: "x_upstream_handle (put_conn c (p2\<lparr>c_status := CONN_WAITING\<rparr>)
      (w2\<lparr>ln_cq_waiting_num := ln_cq_waiting_num w2 + 1\<rparr>)) = Inr (rc, w5)" by (auto simp: joins_def)
  have "stock_kept w1 w2"
    using w2 by (auto simp: cq_insert_tail_def Let_def split: if_split_asm intro: stock_kept_same)
  moreover have "stock_kept w2 (put_conn c (p2\<lparr>c_status := CONN_WAITING\<rparr>)
      (w2\<lparr>ln_cq_waiting_num := ln_cq_waiting_num w2 + 1\<rparr>))"
    by (rule stock_kept_put [OF p2, where p' = "p2\<lparr>c_status := CONN_WAITING\<rparr>"]) simp_all
  ultimately show ?thesis using handle_stock [OF run] by (blast intro: stock_kept_trans)
qed

lemma inv_finite: "inv_ex X w \<Longrightarrow> finite (dom (w_conns w))"
  by (simp add: inv_ex_def heap_ok_def)

lemma inv_pipes:
  "inv_ex X w \<Longrightarrow> w_conns w c = Some p \<Longrightarrow> pipe_ok (ln_bp w) (c_pipe1 p) \<and> pipe_ok (ln_bp w) (c_pipe2 p)"
  using inv_conn_ok [of X w c p] by (simp add: conn_ok_def)

lemma stock_lengths:
  assumes "inv_ex X w" and "stock_ok w" and "w_conns w c = Some p"
  shows "int (length (c_pipe1 p)) + int (length (c_pipe2 p)) \<le> outstanding (ln_bp w)"
  using buffers_held [OF inv_finite [OF assms(1)] assms(3)] assms(2) by (simp add: stock_ok_def buffers_def)

lemma x_recv_cb_stock:
  assumes "x_recv_cb c w = Inr w'" and "inv_ex {} w" and "stock_ok w"
  shows "stock_ok w'"
  using assms(1)
proof (rule x_recv_cb_parts)
  fix p out pipe1 bp rs ms w1
  assume p: "w_conns w c = Some p"
    and recv: "pipe_recv (c_pipe1 p) (ln_bp w) (o_recv w) (o_malloc w) = Inr (out, pipe1, bp, rs, ms)"
    and w1: "w1 = put_conn c (p\<lparr>c_pipe1 := pipe1\<rparr>) (w\<lparr>ln_bp := bp, o_recv := rs, o_malloc := ms\<rparr>)"
  have "stocked (ln_bp w)" using assms(3) by (simp add: stock_ok_def)
  from pipe_recv_stock [OF recv this] have "stock_ok w1"
    by (intro stock_ok_put [OF inv_finite [OF assms(2)] p assms(3), of w1 "p\<lparr>c_pipe1 := pipe1\<rparr>"])
      (simp_all add: w1 buffers_def)
  moreover assume "x_event_close c w1 = Inr w' \<or> (\<exists>w5. (w5 = w1 \<or> joins c w1 w5)
    \<and> (w' = w5 \<or> x_upstream_send_to_peer c w5 = Inr w'))"
  then have "stock_kept w1 w' \<or> w' = w1"
    using close_stock joins_stock send_to_peer_stock stock_kept_trans by blast
  ultimately show ?thesis using stock_kept_ok by blast
qed

lemma x_upstream_recv_cb_stock:
  assumes "x_upstream_recv_cb c w = Inr w'" and "inv_ex {} w" and "stock_ok w"
  shows "stock_ok w'"
proof -
  from assms(1) obtain p out pipe2 bp rs ms where p: "w_conns w c = Some p"
    and recv: "pipe_recv (c_pipe2 p) (ln_bp w) (o_recv w) (o_malloc w) = Inr (out, pipe2, bp, rs, ms)"
    by (auto simp: x_upstream_recv_cb_def)
  define w1 where "w1 = put_conn c (p\<lparr>c_pipe2 := pipe2\<rparr>) (w\<lparr>ln_bp := bp, o_recv := rs, o_malloc := ms\<rparr>)"
  have "stocked (ln_bp w)" using assms(3) by (simp add: stock_ok_def)
  from pipe_recv_stock [OF recv this] have "stock_ok w1"
    by (intro stock_ok_put [OF inv_finite [OF assms(2)] p assms(3), of w1 "p\<lparr>c_pipe2 := pipe2\<rparr>"])
      (simp_all add: w1_def buffers_def)
  moreover from assms(1) p recv have "x_upstream_final c w1 = Inr w' \<or> x_access_send_to_client c w1 = Inr w'"
    by (auto simp: x_upstream_recv_cb_def w1_def [symmetric] Let_def split: if_split_asm)
  then have "stock_kept w1 w'"
    using final_stock upd_conn_stock [of c "\<lambda>p. p\<lparr>c_e_send := True\<rparr>" w1 w']
    by (auto simp: x_access_send_to_client_def simp del: upd_conn_Inr)
  ultimately show ?thesis using stock_kept_ok by blast
qed

lemma x_send_cb_stock:
  assumes "x_send_cb c w = Inr w'" and "inv_ex {} w" and "stock_ok w"
  shows "stock_ok w'"
proof -
  from assms(1) obtain p out pipe2 bp bs ss where p: "w_conns w c = Some p"
    and bufs: "access_bufsend (c_pipe2 p) (ln_bp w) [] (o_send w) = Inr (out, pipe2, bp, bs, ss)"
    by (auto simp: x_send_cb_def)
  define w1 where "w1 = log_sys (Sys_send (c_fd p) bs)
      (put_conn c (p\<lparr>c_pipe2 := pipe2\<rparr>) (w\<lparr>ln_bp := bp, o_send := ss\<rparr>))"
  have "stocked (ln_bp w)" using assms(3) by (simp add: stock_ok_def)
  from access_bufsend_stock [OF bufs this] inv_pipes [OF assms(2) p] stock_lengths [OF assms(2,3) p]
  have "stock_ok w1"
    by (intro stock_ok_put [OF inv_finite [OF assms(2)] p assms(3), of w1 "p\<lparr>c_pipe2 := pipe2\<rparr>"])
      (simp_all add: w1_def buffers_def)
  moreover from assms(1) p bufs have "w' = w1 \<or> x_event_close c w1 = Inr w'
      \<or> (\<exists>q. w_conns w1 c = Some q \<and> w' = put_conn c (q\<lparr>c_e_send := False\<rparr>) w1)"
    by (auto simp: x_send_cb_def w1_def [symmetric] send_finished_def Let_def split: send_out.split_asm if_split_asm)
  then have "w' = w1 \<or> stock_kept w1 w'"
    using close_stock by (auto intro: stock_kept_put)
  ultimately show ?thesis using stock_kept_ok by blast
qed

lemma x_upstream_send_cb_stock:
  assumes "x_upstream_send_cb c w = Inr w'" and "inv_ex {} w" and "stock_ok w"
  shows "stock_ok w'"
proof -
  from assms(1) obtain p out pipe1 bp bs ss where p: "w_conns w c = Some p"
    and bufs: "upstream_bufsend (c_pipe1 p) (ln_bp w) [] (o_send w) = Inr (out, pipe1, bp, bs, ss)"
    by (auto simp: x_upstream_send_cb_def)
  define w1 where "w1 = log_sys (Sys_send (c_upc_fd p) bs)
      (put_conn c (p\<lparr>c_pipe1 := pipe1\<rparr>) (w\<lparr>ln_bp := bp, o_send := ss\<rparr>))"
  have "stocked (ln_bp w)" using assms(3) by (simp add: stock_ok_def)
  from upstream_bufsend_stock [OF bufs this] inv_pipes [OF assms(2) p] stock_lengths [OF assms(2,3) p]
  have "stock_ok w1"
    by (intro stock_ok_put [OF inv_finite [OF assms(2)] p assms(3), of w1 "p\<lparr>c_pipe1 := pipe1\<rparr>"])
      (simp_all add: w1_def buffers_def)
  moreover from assms(1) p bufs have "x_upstream_final c w1 = Inr w'
      \<or> upd_conn c (\<lambda>p. p\<lparr>c_upc_e_send := False\<rparr>) w1 = Inr w'"
    by (auto simp: x_upstream_send_cb_def w1_def [symmetric] Let_def simp del: upd_conn_Inr split: if_split_asm)
  then have "stock_kept w1 w'"
    using final_stock upd_conn_stock [of c "\<lambda>p. p\<lparr>c_upc_e_send := False\<rparr>" w1 w'] by auto
  ultimately show ?thesis using stock_kept_ok by blast
qed

text \<open>When a connection is freed its buffers go back to the pool.\<close>

lemma x_timeout_cb_stock:
  assumes "x_timeout_cb c w = Inr w'" and "inv_ex {} w" and "stock_ok w" and "\<not> is_waiting w c"
  shows "stock_ok w'"
  using assms(1)
proof (rule timeout_parts)
  fix p w2 p2
  assume p: "w_conns w c = Some p" and w2: "x_event_close c (timed_out c p w) = Inr w2" and p2: "w_conns w2 c = Some p2"
    and w': "w' = w2\<lparr>ln_bp := drain (drain (ln_bp w2) (c_pipe1 p2)) (c_pipe2 p2), w_conns := (w_conns w2)(c := None)\<rparr>"
  have nw: "c_status p \<noteq> CONN_WAITING" using assms(4) p by (auto simp: is_waiting_iff)
  have "stock_kept w (timed_out c p w)"
    by (cases "c_status p = CONN_CLOSE")
      (auto intro: stock_kept_same stock_kept_put [OF p, where p' = "p\<lparr>c_status := CONN_TIMEOUT\<rparr>"])
  with close_stock [OF w2] have kept: "stock_kept w w2" by (blast intro: stock_kept_trans)
  with assms(3) have ok2: "stock_ok w2" by (rule stock_kept_ok [rotated])
  obtain q where q: "w_conns (timed_out c p w) c = Some q" using p by (cases "c_status p = CONN_CLOSE") simp_all
  have inv2: "inv_ex {} w2"
    using x_event_close_ok [OF timed_out_inv [OF assms(2) p nw] q] w2 by (simp add: close_post_def)
  note len = stock_lengths [OF inv2 ok2 p2] and pipes = inv_pipes [OF inv2 p2]
  have st: "stocked (ln_bp w2)" and out: "outstanding (ln_bp w2) = held w2" using ok2 by (simp_all add: stock_ok_def)
  have d1: "stocked (drain (ln_bp w2) (c_pipe1 p2)) \<and> outstanding (drain (ln_bp w2) (c_pipe1 p2))
      = outstanding (ln_bp w2) - int (length (c_pipe1 p2))"
    by (rule drain_stock [OF st, of "c_pipe1 p2"]) (use pipes len in simp_all)
  have "same_shape (ln_bp w2) (drain (ln_bp w2) (c_pipe1 p2))"
    using drain_ok(2) [OF inv_pool_ok [OF inv2]] pipes by blast
  with pipes have "pipe_ok (drain (ln_bp w2) (c_pipe1 p2)) (c_pipe2 p2)" using pipe_ok_shape by blast
  from drain_stock [OF conjunct1 [OF d1] this order_refl] d1 len
  have "stocked (ln_bp w') \<and> outstanding (ln_bp w') = outstanding (ln_bp w2) - buffers p2"
    by (simp add: w' buffers_def)
  moreover have "held w2 = buffers p2 + held w'"
    using heap_sum_delete [OF inv_finite [OF inv2] p2, of buffers] by (simp add: held_def w')
  ultimately show "stock_ok w'" using out by (simp add: stock_ok_def)
qed

lemma x_accept_cb_stock:
  assumes "x_accept_cb w = Inr w'" and "inv_ex {} w" and "stock_ok w"
  shows "stock_ok w'"
proof -
  have free: "w_conns w (w_next w) = None" using assms(2) by (simp add: inv_ex_def heap_ok_def)
  have fresh: "buffers (new_conn fd addr t) = 0" for fd addr t by (simp add: buffers_def new_conn_def)
  from assms(1) have "ln_bp w' = ln_bp w" and "w_conns w' = w_conns w
      \<or> (\<exists>fd addr t. w_conns w' = (w_conns w)(w_next w \<mapsto> new_conn fd addr t))"
    by (auto simp: x_accept_cb_def Let_def split: if_split_asm) metis+
  with heap_sum_insert [OF inv_finite [OF assms(2)] free, of buffers] fresh assms(3) show ?thesis
    by (auto simp: stock_ok_def held_def)
qed

lemma stock_ok_load [simp]: "stock_ok (load a w) = stock_ok w"
  by (simp add: stock_ok_def held_def)

lemma callback_stock:
  assumes "callback e w = Inr w'" and "inv_ex {} w" and "timely w e" and "stock_ok w"
  shows "stock_ok w'"
proof (cases e)
  case (Ev_upc_connected c)
  have same: "stock_kept w (w\<lparr>o_sockopt := so\<rparr>)" for so by (rule stock_kept_same) simp_all
  from Ev_upc_connected assms(1) obtain p so where p: "w_conns w c = Some p"
    and "x_upstream_final c (w\<lparr>o_sockopt := so\<rparr>) = Inr w'
      \<or> (\<exists>q. w' = put_conn c q (w\<lparr>o_sockopt := so\<rparr>) \<and> buffers q = buffers p)"
    by (fastforce simp: x_upstream_connected_cb_def Let_def split: option.split_asm if_split_asm)
  then have "stock_kept w w'"
    using stock_kept_trans [OF same final_stock] by (auto intro: stock_kept_put)
  with assms(4) show ?thesis by (rule stock_kept_ok [rotated])
next
  case (Ev_upc_timer c)
  with assms(1) have "x_upstream_timeout_cb c w = Inr w'" by simp
  then show ?thesis
  proof (rule upstream_timeout_parts)
    fix p w2 p2
    let ?w1 = "if c_upc_status p \<noteq> CONN_CLOSE then put_conn c (p\<lparr>c_upc_status := CONN_TIMEOUT\<rparr>) w else w"
    assume p: "w_conns w c = Some p" and w2: "x_upstream_final c ?w1 = Inr w2"
      and w': "w_conns w2 c = Some p2" "w' = put_conn c (p2\<lparr>c_upc_e_timer := Timer_off\<rparr>) w2"
    have "stock_kept w ?w1"
      by (cases "c_upc_status p = CONN_CLOSE")
        (auto intro: stock_kept_same stock_kept_put [OF p, where p' = "p\<lparr>c_upc_status := CONN_TIMEOUT\<rparr>"])
    moreover have "stock_kept w2 w'"
      by (rule stock_kept_put [OF w'(1), where p' = "p2\<lparr>c_upc_e_timer := Timer_off\<rparr>"]) (simp_all add: w'(2))
    ultimately have "stock_kept w w'" using final_stock [OF w2] by (blast intro: stock_kept_trans)
    with assms(4) show ?thesis by (rule stock_kept_ok [rotated])
  qed
qed (use assms x_accept_cb_stock x_recv_cb_stock x_send_cb_stock x_timeout_cb_stock x_upstream_send_cb_stock
    x_upstream_recv_cb_stock in auto)

interpretation stock: event_loop ev_started dispatch timely refuses "\<lambda>w. proxy_inv w \<and> stock_ok w"
proof
  fix w e a
  assume w: "proxy_inv w \<and> stock_ok w" and e: "ev_started w e" "timely w e"
  have "okE (refuses w e a) proxy_inv (dispatch e a w)" using w e by (blast intro: dispatch_inv)
  moreover have "stock_ok w'" if "dispatch e a w = Inr w'" for w'
    by (rule callback_stock [OF that [unfolded dispatch_def]])
      (use w e load_inv in \<open>simp_all add: proxy_inv_def\<close>)
  ultimately show "okE (refuses w e a) (\<lambda>w. proxy_inv w \<and> stock_ok w) (dispatch e a w)"
    by (blast intro: okE_mono)
qed

subsection \<open>Properties\<close>

text \<open>C10: No buffer is lost: from a listener without clients, all of whose buffers are in the pool, in
  every reachable state each buffer that the pool has made is on its free list or in a chain
  of a connection.  When all connections are gone, \<open>x_buf_uninit\<close> frees every buffer there is.\<close>

theorem no_buffer_lost:
  assumes "proxy_inv w0" and "w_conns w0 = (\<lambda>_. None)"
    and "bp_max (ln_bp w0) = bp_n (ln_bp w0)" and "0 < bp_max (ln_bp w0)"
    and "ev_reach ev_started dispatch timely w0 w"
  shows "bp_max (ln_bp w) = bp_n (ln_bp w) + (\<Sum>c\<in>dom (w_conns w).
      int (length (c_pipe1 (the (w_conns w c)))) + int (length (c_pipe2 (the (w_conns w c)))))
    \<and> (w_conns w = (\<lambda>_. None) \<longrightarrow> int (length (fst (x_buf_uninit (ln_bp w)))) = bp_max (ln_bp w))"
proof -
  have "pool_ok (ln_bp w0)" using assms(1) inv_pool_ok by (simp add: proxy_inv_def)
  with assms(2-4) have "stock_ok w0" by (simp add: stock_ok_def stocked_def outstanding_def held_def)
  with stock.reach_inv [OF assms(5)] assms(1) have inv: "proxy_inv w" and stock: "stock_ok w" by simp_all
  have "pool_ok (ln_bp w)" using inv inv_pool_ok by (simp add: proxy_inv_def)
  with stock show ?thesis
    by (auto simp: stock_ok_def outstanding_def held_def heap_sum_def buffers_def x_buf_uninit_def
        x_buf_uninit_loop_eq pool_ok_def)
qed

text \<open>Two clients, each with a buffer: one is the pool's first, the other was made when it was needed.\<close>

definition stocked_world :: world where
  "stocked_world = blank_world example_conf
     (push_buf (malloc_buf small_pool) (small_pool\<lparr>bp_max := 0\<rparr>))"

lemma stocked_world_inv: "proxy_inv stocked_world"
proof -
  have "pool_ok (push_buf (malloc_buf small_pool) (small_pool\<lparr>bp_max := 0\<rparr>))"
    by (rule pool_ok_push) (use small_pool_ok malloc_buf_ok [of small_pool] in \<open>simp_all add: block_ok_def\<close>)
  then show ?thesis
    by (simp add: stocked_world_def blank_world_def example_conf_def plain_conf_def proxy_inv_def inv_ex_def
        heap_ok_def queue_ok_def is_waiting_def count_ok_def waiting_idle_def connect_failures_def srv_ok_def)
qed

theorem no_buffer_lost_witness:
  "\<exists>w. ev_reach ev_started dispatch timely stocked_world w \<and> dom (w_conns w) = {0, 1}
    \<and> bp_max (ln_bp w) = 2 \<and> (\<Sum>c\<in>{0, 1}. int (length (c_pipe1 (the (w_conns w c))))
      + int (length (c_pipe2 (the (w_conns w c))))) = 2"
proof -
  have "case run_events ev_started dispatch timely two_clients stocked_world of Inl _ \<Rightarrow> False
    | Inr w \<Rightarrow> on_conn w 0 (\<lambda>_. True) \<and> on_conn w 1 (\<lambda>_. True) \<and> w_next w = 2
        \<and> bp_max (ln_bp w) = 2 \<and> bp_n (ln_bp w) = 0"
    by code_simp
  then obtain w where w: "ev_reach ev_started dispatch timely stocked_world w"
    "on_conn w 0 (\<lambda>_. True)" "on_conn w 1 (\<lambda>_. True)" "w_next w = 2" "bp_max (ln_bp w) = 2" "bp_n (ln_bp w) = 0"
    by (rule run_returns) auto
  have "inv_ex {} w" using proxy.reach_inv [OF w(1) stocked_world_inv] by (simp add: proxy_inv_def)
  then have "w_conns w c = None" if "2 \<le> c" for c using w(4) that by (simp add: inv_ex_def heap_ok_def)
  then have "c \<in> {0, 1}" if "c \<in> dom (w_conns w)" for c using that by (cases "2 \<le> c") auto
  moreover have "0 \<in> dom (w_conns w)" "1 \<in> dom (w_conns w)"
    using w(2,3) by (auto simp: on_conn_def split: option.split_asm)
  ultimately have dom: "dom (w_conns w) = {0, 1}" by blast
  have start: "w_conns stocked_world = (\<lambda>_. None)" "bp_max (ln_bp stocked_world) = bp_n (ln_bp stocked_world)"
    "0 < bp_max (ln_bp stocked_world)"
    by (simp_all add: stocked_world_def blank_world_def push_buf_def small_pool_def)
  from no_buffer_lost [OF stocked_world_inv start w(1)] w dom show ?thesis by auto
qed

end
