(* ===== verification/Queue_Contract.thy ===== *)
theory Queue_Contract
  imports Prelude
begin

section \<open>What the program relies on in its queues\<close>

text \<open>
  Addresses, and a contract for queues.  The program puts elements at the tail of a queue, takes them out from anywhere, and looks at
  the first.  The contract states what these operations do to the list of the queue's
  elements; \<open>usable\<close> elements are those whose memory the queue may write to.  The lemma of
  the locale: a queue behaves as a list for every sequence of operations that inserts only
  usable elements that are not in the queue, and removes only elements that are.
\<close>

definition first_of :: "nat list \<Rightarrow> nat option \<Rightarrow> nat option" where
  "first_of xs n = (case xs of [] \<Rightarrow> n | x # _ \<Rightarrow> Some x)"

lemma first_of_simps [simp]:
  "first_of [] n = n" "first_of (x # xs) n = Some x"
  by (simp_all add: first_of_def)

lemma first_of_append [simp]: "first_of (xs @ ys) n = first_of xs (first_of ys n)"
  by (cases xs) simp_all

text \<open>
  Elements and heads have addresses; a \<open>cell\<close> is the address of a pointer to an element: the
  first field of a head or the link of an element to the next.  \<open>last_cell l xs\<close> is the cell
  that ends the elements \<open>xs\<close> when the cell \<open>l\<close> points to the first of them.
\<close>

datatype cell = First nat | Next nat

fun last_cell :: "cell \<Rightarrow> nat list \<Rightarrow> cell" where
  "last_cell l [] = l"
| "last_cell l (x # xs) = last_cell (Next x) xs"

lemma last_cell_append [simp]: "last_cell l (xs @ ys) = last_cell (last_cell l xs) ys"
  by (induction xs arbitrary: l) simp_all

text \<open>
  The links of a stretch of a singly-linked list: each element to the next, the last to \<open>n\<close>.
\<close>

fun st_chain :: "(nat \<rightharpoonup> nat option) \<Rightarrow> nat list \<Rightarrow> nat option \<Rightarrow> bool" where
  "st_chain N [] n = True"
| "st_chain N (x # xs) n = (N x = Some (first_of xs n) \<and> st_chain N xs n)"

lemma st_chain_append [simp]:
  "st_chain N (xs @ ys) n \<longleftrightarrow> st_chain N xs (first_of ys n) \<and> st_chain N ys n"
  by (induction xs) auto

lemma st_chain_upd [simp]: "x \<notin> set xs \<Longrightarrow> st_chain (N(x := v)) xs n = st_chain N xs n"
  by (induction xs) auto

subsection \<open>The contract\<close>

text \<open>
  Where an insertion puts its element, \<open>put\<close>, is a parameter: the tail for a queue, the front
  for a stack.
\<close>

datatype queue_op = Q_insert nat | Q_remove nat | Q_first

fun list_ops ::
  "(nat \<Rightarrow> nat list \<Rightarrow> nat list) \<Rightarrow> queue_op list \<Rightarrow> nat list \<Rightarrow> (nat list \<times> nat option list) option"
  where
  "list_ops put [] xs = Some (xs, [])"
| "list_ops put (Q_insert e # ops) xs = (if e \<in> set xs then None else list_ops put ops (put e xs))"
| "list_ops put (Q_remove e # ops) xs = (if e \<in> set xs then list_ops put ops (remove1 e xs) else None)"
| "list_ops put (Q_first # ops) xs =
     map_option (\<lambda>(ys, outs). (ys, first_of xs None # outs)) (list_ops put ops xs)"

definition snoc :: "nat \<Rightarrow> nat list \<Rightarrow> nat list" where
  "snoc e xs = xs @ [e]"

fun mem_ops ::
  "(nat \<Rightarrow> 'm \<Rightarrow> fault + 'm) \<Rightarrow> (nat \<Rightarrow> 'm \<Rightarrow> fault + 'm) \<Rightarrow> ('m \<Rightarrow> fault + nat option)
    \<Rightarrow> queue_op list \<Rightarrow> 'm \<Rightarrow> fault + ('m \<times> nat option list)" where
  "mem_ops ins rem fst' [] m = Inr (m, [])"
| "mem_ops ins rem fst' (Q_insert e # ops) m = bindR (ins e m) (mem_ops ins rem fst' ops)"
| "mem_ops ins rem fst' (Q_remove e # ops) m = bindR (rem e m) (mem_ops ins rem fst' ops)"
| "mem_ops ins rem fst' (Q_first # ops) m =
     bindR (fst' m) (\<lambda>r. bindR (mem_ops ins rem fst' ops m) (\<lambda>(m', outs). Inr (m', r # outs)))"

fun inserted :: "queue_op list \<Rightarrow> nat set" where
  "inserted [] = {}"
| "inserted (Q_insert e # ops) = insert e (inserted ops)"
| "inserted (op # ops) = inserted ops"

locale linked_list =
  fixes repr :: "'m \<Rightarrow> nat list \<Rightarrow> bool"
    and usable :: "'m \<Rightarrow> nat \<Rightarrow> bool"
    and put :: "nat \<Rightarrow> nat list \<Rightarrow> nat list"
    and insert_elm :: "nat \<Rightarrow> 'm \<Rightarrow> fault + 'm"
    and remove :: "nat \<Rightarrow> 'm \<Rightarrow> fault + 'm"
    and first :: "'m \<Rightarrow> fault + nat option"
  assumes insert_elm: "repr m xs \<Longrightarrow> usable m e \<Longrightarrow> e \<notin> set xs
      \<Longrightarrow> \<exists>m'. insert_elm e m = Inr m' \<and> repr m' (put e xs) \<and> usable m' = usable m"
    and remove: "repr m xs \<Longrightarrow> e \<in> set xs
      \<Longrightarrow> \<exists>m'. remove e m = Inr m' \<and> repr m' (remove1 e xs) \<and> usable m' = usable m"
    and first: "repr m xs \<Longrightarrow> first m = Inr (first_of xs None)"
begin

lemma refines_list:
  "repr m xs \<Longrightarrow> \<forall>e\<in>inserted ops. usable m e \<Longrightarrow> list_ops put ops xs = Some (ys, outs)
    \<Longrightarrow> \<exists>m'. mem_ops insert_elm remove first ops m = Inr (m', outs) \<and> repr m' ys"
proof (induction ops arbitrary: xs m outs)
  case Nil
  then show ?case by simp
next
  case (Cons op ops)
  show ?case
  proof (cases op)
    case (Q_insert e)
    with Cons.prems have e: "e \<notin> set xs" "usable m e" "list_ops put ops (put e xs) = Some (ys, outs)"
      by (auto split: if_split_asm)
    from insert_elm [OF Cons.prems(1) e(2,1)] obtain m1 where
      m1: "insert_elm e m = Inr m1" "repr m1 (put e xs)" "usable m1 = usable m" by blast
    from Cons.IH [OF m1(2) _ e(3)] Cons.prems(2) Q_insert m1 show ?thesis by simp
  next
    case (Q_remove e)
    with Cons.prems have e: "e \<in> set xs" "list_ops put ops (remove1 e xs) = Some (ys, outs)"
      by (auto split: if_split_asm)
    from remove [OF Cons.prems(1) e(1)] obtain m1 where
      m1: "remove e m = Inr m1" "repr m1 (remove1 e xs)" "usable m1 = usable m" by blast
    from Cons.IH [OF m1(2) _ e(2)] Cons.prems(2) Q_remove m1 show ?thesis by simp
  next
    case Q_first
    with Cons.prems obtain outs' where
      outs: "outs = first_of xs None # outs'" "list_ops put ops xs = Some (ys, outs')" by auto
    from Cons.IH [OF Cons.prems(1) _ outs(2)] Cons.prems(2) Q_first first [OF Cons.prems(1)] outs(1)
    show ?thesis by auto
  qed
qed

lemma takes_first:
  "repr m (e # xs) \<Longrightarrow> \<exists>m'. bindR (first m) (\<lambda>r. case r of None \<Rightarrow> Inr (None, m)
      | Some x \<Rightarrow> bindR (remove x m) (\<lambda>m'. Inr (Some x, m'))) = Inr (Some e, m') \<and> repr m' xs"
  using remove [of m "e # xs" e] first [of m "e # xs"] by auto

end

locale linked_queue = linked_list repr usable snoc insert_tail remove first
  for repr :: "'m \<Rightarrow> nat list \<Rightarrow> bool" and usable insert_tail remove first

locale linked_stack = linked_list repr usable "(#)" insert_head remove first
  for repr :: "'m \<Rightarrow> nat list \<Rightarrow> bool" and usable insert_head remove first
begin

text \<open>What was pushed last is what is found first, and taking it out restores the list.\<close>

lemma push_pop:
  assumes "repr m xs" and "usable m e" and "e \<notin> set xs"
  shows "\<exists>m1 m2. insert_head e m = Inr m1 \<and> first m1 = Inr (Some e)
    \<and> remove e m1 = Inr m2 \<and> repr m2 xs"
proof -
  from insert_elm [OF assms] obtain m1 where m1: "insert_head e m = Inr m1" "repr m1 (e # xs)" by blast
  from remove [OF m1(2), of e] obtain m2 where "remove e m1 = Inr m2" "repr m2 xs" by auto
  with m1 first [OF m1(2)] show ?thesis by auto
qed

end

subsection \<open>Traversals with a body\<close>

text \<open>
  The loops that the \<open>FOREACH\<close> macros head, with the loop's body as a function on memory.
  \<open>foreach_loop\<close> reads the link of an element after the body has run on it, \<open>foreach_safe\<close>
  (the \<open>SAFE\<close> variants) before.
\<close>

partial_function (option) foreach_loop ::
  "(nat \<Rightarrow> 'm \<Rightarrow> fault + nat option) \<Rightarrow> (nat \<Rightarrow> 'm \<Rightarrow> fault + 'm) \<Rightarrow> nat option \<Rightarrow> 'm \<Rightarrow> (fault + 'm) option"
  where
  "foreach_loop nxt body var m =
     (case var of
        None \<Rightarrow> Some (Inr m)
      | Some e \<Rightarrow>
          (case body e m of
             Inl f \<Rightarrow> Some (Inl f)
           | Inr m' \<Rightarrow>
               (case nxt e m' of
                  Inl f \<Rightarrow> Some (Inl f)
                | Inr n \<Rightarrow> foreach_loop nxt body n m')))"

partial_function (option) foreach_safe ::
  "(nat \<Rightarrow> 'm \<Rightarrow> fault + nat option) \<Rightarrow> (nat \<Rightarrow> 'm \<Rightarrow> fault + 'm) \<Rightarrow> nat option \<Rightarrow> 'm \<Rightarrow> (fault + 'm) option"
  where
  "foreach_safe nxt body var m =
     (case var of
        None \<Rightarrow> Some (Inr m)
      | Some e \<Rightarrow>
          (case nxt e m of
             Inl f \<Rightarrow> Some (Inl f)
           | Inr tvar \<Rightarrow>
               (case body e m of
                  Inl f \<Rightarrow> Some (Inl f)
                | Inr m' \<Rightarrow> foreach_safe nxt body tvar m')))"

declare foreach_loop.simps [code] foreach_safe.simps [code]

text \<open>A body that keeps the links of the elements still to come may do what it likes to its own.\<close>

lemma foreach_safe_all:
  assumes "\<And>x xs m. P m (x # xs) \<Longrightarrow> nxt x m = Inr (first_of xs None)
      \<and> (\<exists>m'. body x m = Inr m' \<and> P m' xs)"
  shows "P m xs \<Longrightarrow> \<exists>m'. foreach_safe nxt body (first_of xs None) m = Some (Inr m') \<and> P m' []"
proof (induction xs arbitrary: m)
  case Nil
  then show ?case by (simp add: foreach_safe.simps)
next
  case (Cons x xs)
  from assms [OF Cons.prems] obtain m' where
    step: "nxt x m = Inr (first_of xs None)" "body x m = Inr m'" "P m' xs" by blast
  with Cons.IH [OF step(3)] show ?case by (simp add: foreach_safe.simps [of nxt body "Some x"])
qed

text \<open>In particular a body that gives the element's memory back: \<open>elems\<close> are the entries of the memory.\<close>

lemma foreach_safe_frees:
  assumes "\<And>ys x zs m1. xs = ys @ x # zs \<Longrightarrow> elems m1 = elems m |` (- set ys)
      \<Longrightarrow> nxt x m1 = Inr (first_of zs None) \<and> (\<exists>m2. body x m1 = Inr m2 \<and> elems m2 = (elems m1)(x := None))"
  shows "\<exists>m'. foreach_safe nxt body (first_of xs None) m = Some (Inr m') \<and> elems m' = elems m |` (- set xs)"
proof -
  let ?P = "\<lambda>m1 zs. \<exists>ys. xs = ys @ zs \<and> elems m1 = elems m |` (- set ys)"
  have "\<exists>m'. foreach_safe nxt body (first_of xs None) m = Some (Inr m') \<and> ?P m' []"
  proof (rule foreach_safe_all [where P = ?P])
    fix x zs m1
    assume "?P m1 (x # zs)"
    then obtain ys where ys: "xs = ys @ x # zs" "elems m1 = elems m |` (- set ys)" by blast
    from assms [OF this] obtain m2 where
      step: "nxt x m1 = Inr (first_of zs None)" "body x m1 = Inr m2" "elems m2 = (elems m1)(x := None)" by blast
    have "elems m2 = elems m |` (- set (ys @ [x]))"
      using ys(2) step(3) by (auto simp: restrict_map_def fun_eq_iff)
    moreover have "xs = (ys @ [x]) @ zs" using ys(1) by simp
    ultimately show "nxt x m1 = Inr (first_of zs None) \<and> (\<exists>m'. body x m1 = Inr m' \<and> ?P m' zs)"
      using step by blast
  next
    show "?P m xs" by (auto simp: restrict_map_def fun_eq_iff)
  qed
  then show ?thesis by auto
qed

lemma foreach_loop_first:
  assumes "body x m = Inr m'" and "nxt x m' = Inl f"
  shows "foreach_loop nxt body (Some x) m = Some (Inl f)"
  using assms by (simp add: foreach_loop.simps)

end
