(* ===== verification/Tailq.thy ===== *)
theory Tailq
  imports Queue_Contract
begin

section \<open>Tail queues (src/queue.h, the \<open>TAILQ\<close> macros)\<close>

text \<open>
  The macros at the level of pointers.  A head and an element's entry have the same layout, a pointer followed by the
  address of a cell, which \<open>TAILQ_LAST\<close> and \<open>TAILQ_PREV\<close> make use of (\<open>second\<close>).  Access to
  an element or a head that is not allocated is a fault.  The debugging checks of
  \<open>QUEUEDEBUG\<close> are off, as in the program's build.
\<close>

record tq_head =
  tqh_first :: "nat option"
  tqh_last :: cell

record tq_entry =
  tqe_next :: "nat option"
  tqe_prev :: cell

record tq_mem =
  tq_heads :: "nat \<rightharpoonup> tq_head"
  tq_elems :: "nat \<rightharpoonup> tq_entry"

definition get_head :: "nat \<Rightarrow> tq_mem \<Rightarrow> fault + tq_head" where
  "get_head h m = (case tq_heads m h of None \<Rightarrow> Inl Use_after_free | Some x \<Rightarrow> Inr x)"

definition get_entry :: "nat \<Rightarrow> tq_mem \<Rightarrow> fault + tq_entry" where
  "get_entry e m = (case tq_elems m e of None \<Rightarrow> Inl Use_after_free | Some x \<Rightarrow> Inr x)"

definition upd_head :: "nat \<Rightarrow> (tq_head \<Rightarrow> tq_head) \<Rightarrow> tq_mem \<Rightarrow> fault + tq_mem" where
  "upd_head h f m = bindR (get_head h m) (\<lambda>x. Inr (m\<lparr>tq_heads := (tq_heads m)(h \<mapsto> f x)\<rparr>))"

definition upd_entry :: "nat \<Rightarrow> (tq_entry \<Rightarrow> tq_entry) \<Rightarrow> tq_mem \<Rightarrow> fault + tq_mem" where
  "upd_entry e f m = bindR (get_entry e m) (\<lambda>x. Inr (m\<lparr>tq_elems := (tq_elems m)(e \<mapsto> f x)\<rparr>))"

fun load_cell :: "cell \<Rightarrow> tq_mem \<Rightarrow> fault + nat option" where
  "load_cell (First h) m = bindR (get_head h m) (\<lambda>x. Inr (tqh_first x))"
| "load_cell (Next e) m = bindR (get_entry e m) (\<lambda>x. Inr (tqe_next x))"

fun store_cell :: "cell \<Rightarrow> nat option \<Rightarrow> tq_mem \<Rightarrow> fault + tq_mem" where
  "store_cell (First h) v m = upd_head h (tqh_first_update (\<lambda>_. v)) m"
| "store_cell (Next e) v m = upd_entry e (tqe_next_update (\<lambda>_. v)) m"

fun second :: "cell \<Rightarrow> tq_mem \<Rightarrow> fault + cell" where
  "second (First h) m = bindR (get_head h m) (\<lambda>x. Inr (tqh_last x))"
| "second (Next e) m = bindR (get_entry e m) (\<lambda>x. Inr (tqe_prev x))"

subsection \<open>The macros\<close>

definition TAILQ_FIRST :: "nat \<Rightarrow> tq_mem \<Rightarrow> fault + nat option" where
  "TAILQ_FIRST h m = bindR (get_head h m) (\<lambda>x. Inr (tqh_first x))"

definition TAILQ_NEXT :: "nat \<Rightarrow> tq_mem \<Rightarrow> fault + nat option" where
  "TAILQ_NEXT e m = bindR (get_entry e m) (\<lambda>x. Inr (tqe_next x))"

definition TAILQ_LAST :: "nat \<Rightarrow> tq_mem \<Rightarrow> fault + nat option" where
  "TAILQ_LAST h m = bindR (get_head h m) (\<lambda>x. bindR (second (tqh_last x) m) (\<lambda>l. load_cell l m))"

definition TAILQ_PREV :: "nat \<Rightarrow> tq_mem \<Rightarrow> fault + nat option" where
  "TAILQ_PREV e m = bindR (get_entry e m) (\<lambda>x. bindR (second (tqe_prev x) m) (\<lambda>l. load_cell l m))"

definition TAILQ_EMPTY :: "nat \<Rightarrow> tq_mem \<Rightarrow> fault + bool" where
  "TAILQ_EMPTY h m = bindR (TAILQ_FIRST h m) (\<lambda>x. Inr (x = None))"

definition TAILQ_INIT :: "nat \<Rightarrow> tq_mem \<Rightarrow> fault + tq_mem" where
  "TAILQ_INIT h m =
     bindR (upd_head h (tqh_first_update (\<lambda>_. None)) m) (\<lambda>m1.
       upd_head h (tqh_last_update (\<lambda>_. First h)) m1)"

definition TAILQ_INSERT_HEAD :: "nat \<Rightarrow> nat \<Rightarrow> tq_mem \<Rightarrow> fault + tq_mem" where
  "TAILQ_INSERT_HEAD h elm m =
     bindR (TAILQ_FIRST h m) (\<lambda>first.
     bindR (upd_entry elm (tqe_next_update (\<lambda>_. first)) m) (\<lambda>m1.
     bindR (case first of
              Some x \<Rightarrow> upd_entry x (tqe_prev_update (\<lambda>_. Next elm)) m1
            | None \<Rightarrow> upd_head h (tqh_last_update (\<lambda>_. Next elm)) m1) (\<lambda>m2.
     bindR (upd_head h (tqh_first_update (\<lambda>_. Some elm)) m2) (\<lambda>m3.
       upd_entry elm (tqe_prev_update (\<lambda>_. First h)) m3))))"

definition TAILQ_INSERT_TAIL :: "nat \<Rightarrow> nat \<Rightarrow> tq_mem \<Rightarrow> fault + tq_mem" where
  "TAILQ_INSERT_TAIL h elm m =
     bindR (upd_entry elm (tqe_next_update (\<lambda>_. None)) m) (\<lambda>m1.
     bindR (get_head h m1) (\<lambda>hd1.
     bindR (upd_entry elm (tqe_prev_update (\<lambda>_. tqh_last hd1)) m1) (\<lambda>m2.
     bindR (store_cell (tqh_last hd1) (Some elm) m2) (\<lambda>m3.
       upd_head h (tqh_last_update (\<lambda>_. Next elm)) m3))))"

definition TAILQ_INSERT_AFTER :: "nat \<Rightarrow> nat \<Rightarrow> nat \<Rightarrow> tq_mem \<Rightarrow> fault + tq_mem" where
  "TAILQ_INSERT_AFTER h listelm elm m =
     bindR (TAILQ_NEXT listelm m) (\<lambda>next.
     bindR (upd_entry elm (tqe_next_update (\<lambda>_. next)) m) (\<lambda>m1.
     bindR (case next of
              Some x \<Rightarrow> upd_entry x (tqe_prev_update (\<lambda>_. Next elm)) m1
            | None \<Rightarrow> upd_head h (tqh_last_update (\<lambda>_. Next elm)) m1) (\<lambda>m2.
     bindR (upd_entry listelm (tqe_next_update (\<lambda>_. Some elm)) m2) (\<lambda>m3.
       upd_entry elm (tqe_prev_update (\<lambda>_. Next listelm)) m3))))"

definition TAILQ_INSERT_BEFORE :: "nat \<Rightarrow> nat \<Rightarrow> tq_mem \<Rightarrow> fault + tq_mem" where
  "TAILQ_INSERT_BEFORE listelm elm m =
     bindR (get_entry listelm m) (\<lambda>l.
     bindR (upd_entry elm (tqe_prev_update (\<lambda>_. tqe_prev l)) m) (\<lambda>m1.
     bindR (upd_entry elm (tqe_next_update (\<lambda>_. Some listelm)) m1) (\<lambda>m2.
     bindR (get_entry listelm m2) (\<lambda>l2.
     bindR (store_cell (tqe_prev l2) (Some elm) m2) (\<lambda>m3.
       upd_entry listelm (tqe_prev_update (\<lambda>_. Next elm)) m3)))))"

definition TAILQ_REMOVE :: "nat \<Rightarrow> nat \<Rightarrow> tq_mem \<Rightarrow> fault + tq_mem" where
  "TAILQ_REMOVE h elm m =
     bindR (get_entry elm m) (\<lambda>x.
     bindR (case tqe_next x of
              Some n \<Rightarrow> upd_entry n (tqe_prev_update (\<lambda>_. tqe_prev x)) m
            | None \<Rightarrow> upd_head h (tqh_last_update (\<lambda>_. tqe_prev x)) m) (\<lambda>m1.
     bindR (get_entry elm m1) (\<lambda>x1.
       store_cell (tqe_prev x1) (tqe_next x1) m1)))"

definition TAILQ_REPLACE :: "nat \<Rightarrow> nat \<Rightarrow> nat \<Rightarrow> tq_mem \<Rightarrow> fault + tq_mem" where
  "TAILQ_REPLACE h elm elm2 m =
     bindR (get_entry elm m) (\<lambda>x.
     bindR (upd_entry elm2 (tqe_next_update (\<lambda>_. tqe_next x)) m) (\<lambda>m1.
     bindR (case tqe_next x of
              Some n \<Rightarrow> upd_entry n (tqe_prev_update (\<lambda>_. Next elm2)) m1
            | None \<Rightarrow> upd_head h (tqh_last_update (\<lambda>_. Next elm2)) m1) (\<lambda>m2.
     bindR (get_entry elm m2) (\<lambda>x1.
     bindR (upd_entry elm2 (tqe_prev_update (\<lambda>_. tqe_prev x1)) m2) (\<lambda>m3.
       store_cell (tqe_prev x1) (Some elm2) m3)))))"

definition TAILQ_CONCAT :: "nat \<Rightarrow> nat \<Rightarrow> tq_mem \<Rightarrow> fault + tq_mem" where
  "TAILQ_CONCAT h1 h2 m =
     bindR (get_head h1 m) (\<lambda>x1.
     bindR (get_head h2 m) (\<lambda>x2.
       case tqh_first x2 of
         None \<Rightarrow> Inr m
       | Some e \<Rightarrow>
           bindR (store_cell (tqh_last x1) (Some e) m) (\<lambda>m1.
           bindR (upd_entry e (tqe_prev_update (\<lambda>_. tqh_last x1)) m1) (\<lambda>m2.
           bindR (get_head h2 m2) (\<lambda>y2.
           bindR (upd_head h1 (tqh_last_update (\<lambda>_. tqh_last y2)) m2) (\<lambda>m3.
             TAILQ_INIT h2 m3))))))"

text \<open>The elements that the two traversals visit, in order; a cyclic list is never left.\<close>

partial_function (option) tailq_walk :: "nat option \<Rightarrow> tq_mem \<Rightarrow> (fault + nat list) option" where
  "tailq_walk var m =
     (case var of
        None \<Rightarrow> Some (Inr [])
      | Some e \<Rightarrow>
          (case TAILQ_NEXT e m of
             Inl f \<Rightarrow> Some (Inl f)
           | Inr n \<Rightarrow> Option.bind (tailq_walk n m) (\<lambda>r. Some (map_sum id ((#) e) r))))"

definition TAILQ_FOREACH :: "nat \<Rightarrow> tq_mem \<Rightarrow> (fault + nat list) option" where
  "TAILQ_FOREACH h m = (case TAILQ_FIRST h m of Inl f \<Rightarrow> Some (Inl f) | Inr v \<Rightarrow> tailq_walk v m)"

partial_function (option) tailq_walk_back :: "nat option \<Rightarrow> tq_mem \<Rightarrow> (fault + nat list) option" where
  "tailq_walk_back var m =
     (case var of
        None \<Rightarrow> Some (Inr [])
      | Some e \<Rightarrow>
          (case TAILQ_PREV e m of
             Inl f \<Rightarrow> Some (Inl f)
           | Inr n \<Rightarrow> Option.bind (tailq_walk_back n m) (\<lambda>r. Some (map_sum id ((#) e) r))))"

definition TAILQ_FOREACH_REVERSE :: "nat \<Rightarrow> tq_mem \<Rightarrow> (fault + nat list) option" where
  "TAILQ_FOREACH_REVERSE h m =
     (case TAILQ_LAST h m of Inl f \<Rightarrow> Some (Inl f) | Inr v \<Rightarrow> tailq_walk_back v m)"

declare tailq_walk.simps [code] tailq_walk_back.simps [code]

subsection \<open>The list a queue holds\<close>

text \<open>The entries of a stretch of a queue: \<open>l\<close> is the cell that points to it, \<open>n\<close> what follows it.\<close>

fun chain :: "(nat \<rightharpoonup> tq_entry) \<Rightarrow> cell \<Rightarrow> nat list \<Rightarrow> nat option \<Rightarrow> bool" where
  "chain E l [] n = True"
| "chain E l (x # xs) n =
     (E x = Some \<lparr>tqe_next = first_of xs n, tqe_prev = l\<rparr> \<and> chain E (Next x) xs n)"

definition tailq :: "tq_mem \<Rightarrow> nat \<Rightarrow> nat list \<Rightarrow> bool" where
  "tailq m h xs \<longleftrightarrow> distinct xs
     \<and> tq_heads m h = Some \<lparr>tqh_first = first_of xs None, tqh_last = last_cell (First h) xs\<rparr>
     \<and> chain (tq_elems m) (First h) xs None"

text \<open>Nothing but the head \<open>h\<close> and the elements of \<open>A\<close> has changed.\<close>

definition only_changes :: "nat set \<Rightarrow> nat set \<Rightarrow> tq_mem \<Rightarrow> tq_mem \<Rightarrow> bool" where
  "only_changes H A m m' \<longleftrightarrow> (\<forall>h. h \<notin> H \<longrightarrow> tq_heads m' h = tq_heads m h)
     \<and> (\<forall>x. x \<notin> A \<longrightarrow> tq_elems m' x = tq_elems m x) \<and> dom (tq_elems m') = dom (tq_elems m)"

lemma chain_append [simp]:
  "chain E l (xs @ ys) n \<longleftrightarrow> chain E l xs (first_of ys n) \<and> chain E (last_cell l xs) ys n"
  by (induction xs arbitrary: l) auto

lemma chain_upd [simp]: "x \<notin> set xs \<Longrightarrow> chain (E(x := v)) l xs n = chain E l xs n"
  by (induction xs arbitrary: l) auto

lemma chain_cong: "\<forall>x\<in>set xs. E' x = E x \<Longrightarrow> chain E' l xs n = chain E l xs n"
  by (induction xs arbitrary: l) auto

lemmas tq_mem_simps = get_head_def get_entry_def upd_head_def upd_entry_def

lemma tailq_init:
  assumes "tq_heads m h \<noteq> None"
  shows "\<exists>m'. TAILQ_INIT h m = Inr m' \<and> tailq m' h [] \<and> only_changes {h} {} m m'"
  using assms by (auto simp: TAILQ_INIT_def tq_mem_simps tailq_def only_changes_def)

lemma tailq_insert_tail:
  assumes "tailq m h xs" and "e \<notin> set xs" and "tq_elems m e \<noteq> None"
  shows "\<exists>m'. TAILQ_INSERT_TAIL h e m = Inr m' \<and> tailq m' h (xs @ [e])
    \<and> only_changes {h} (insert e (set xs)) m m'"
  using assms
  by (cases xs rule: rev_cases)
    (auto simp: TAILQ_INSERT_TAIL_def tq_mem_simps tailq_def only_changes_def)

lemma tailq_insert_head:
  assumes "tailq m h xs" and "e \<notin> set xs" and "tq_elems m e \<noteq> None"
  shows "\<exists>m'. TAILQ_INSERT_HEAD h e m = Inr m' \<and> tailq m' h (e # xs)
    \<and> only_changes {h} (insert e (set xs)) m m'"
  using assms
  by (cases xs)
    (auto simp: TAILQ_INSERT_HEAD_def TAILQ_FIRST_def tq_mem_simps tailq_def only_changes_def)

lemma tailq_insert_after:
  assumes "tailq m h (xs @ x # ys)" and "e \<notin> set (xs @ x # ys)" and "tq_elems m e \<noteq> None"
  shows "\<exists>m'. TAILQ_INSERT_AFTER h x e m = Inr m' \<and> tailq m' h (xs @ x # e # ys)
    \<and> only_changes {h} (insert e (set (xs @ x # ys))) m m'"
  using assms
  by (cases ys)
    (auto simp: TAILQ_INSERT_AFTER_def TAILQ_NEXT_def tq_mem_simps tailq_def only_changes_def)

lemma tailq_insert_before:
  assumes "tailq m h (xs @ x # ys)" and "e \<notin> set (xs @ x # ys)" and "tq_elems m e \<noteq> None"
  shows "\<exists>m'. TAILQ_INSERT_BEFORE x e m = Inr m' \<and> tailq m' h (xs @ e # x # ys)
    \<and> only_changes {h} (insert e (set (xs @ x # ys))) m m'"
  using assms
  by (cases xs rule: rev_cases)
    (auto simp: TAILQ_INSERT_BEFORE_def tq_mem_simps tailq_def only_changes_def)

lemma tailq_remove:
  assumes "tailq m h (xs @ e # ys)"
  shows "\<exists>m'. TAILQ_REMOVE h e m = Inr m' \<and> tailq m' h (xs @ ys)
    \<and> only_changes {h} (set (xs @ e # ys)) m m'"
  using assms
  by (cases xs rule: rev_cases; cases ys)
    (auto simp: TAILQ_REMOVE_def tq_mem_simps tailq_def only_changes_def)

lemma tailq_replace:
  assumes "tailq m h (xs @ x # ys)" and "e \<notin> set (xs @ x # ys)" and "tq_elems m e \<noteq> None"
  shows "\<exists>m'. TAILQ_REPLACE h x e m = Inr m' \<and> tailq m' h (xs @ e # ys)
    \<and> only_changes {h} (insert e (set (xs @ x # ys))) m m'"
  using assms
  by (cases xs rule: rev_cases; cases ys)
    (auto simp: TAILQ_REPLACE_def tq_mem_simps tailq_def only_changes_def)

lemma tailq_concat:
  assumes "tailq m h1 xs" and "tailq m h2 ys" and "h1 \<noteq> h2" and "set xs \<inter> set ys = {}"
  shows "\<exists>m'. TAILQ_CONCAT h1 h2 m = Inr m' \<and> tailq m' h1 (xs @ ys) \<and> tailq m' h2 []
    \<and> only_changes {h1, h2} (set (xs @ ys)) m m'"
  using assms
  by (cases xs rule: rev_cases; cases ys)
    (auto simp: TAILQ_CONCAT_def TAILQ_INIT_def tq_mem_simps tailq_def only_changes_def)

lemma tailq_first: "tailq m h xs \<Longrightarrow> TAILQ_FIRST h m = Inr (first_of xs None)"
  by (simp add: TAILQ_FIRST_def get_head_def tailq_def)

lemma tailq_empty: "tailq m h xs \<Longrightarrow> TAILQ_EMPTY h m = Inr (xs = [])"
  by (cases xs) (simp_all add: TAILQ_EMPTY_def tailq_first)

lemma tailq_next:
  "tailq m h (xs @ x # ys) \<Longrightarrow> TAILQ_NEXT x m = Inr (first_of ys None)"
  by (simp add: TAILQ_NEXT_def get_entry_def tailq_def)

lemma load_last_cell:
  assumes "tailq m h (xs @ ys)"
  shows "load_cell (last_cell (First h) xs) m = Inr (first_of ys None)"
  using assms by (cases xs rule: rev_cases) (auto simp: tailq_def tq_mem_simps)

text \<open>Read as a head, the last entry leads to the cell that points to the last element.\<close>

lemma tailq_last:
  assumes "tailq m h xs"
  shows "TAILQ_LAST h m = Inr (if xs = [] then None else Some (last xs))"
proof (cases xs rule: rev_cases)
  case Nil
  with assms show ?thesis by (simp add: TAILQ_LAST_def tailq_def tq_mem_simps)
next
  case (snoc ys y)
  with assms load_last_cell [of m h ys "[y]"] show ?thesis
    by (simp add: TAILQ_LAST_def tailq_def tq_mem_simps)
qed

lemma tailq_prev:
  assumes "tailq m h (xs @ x # ys)"
  shows "TAILQ_PREV x m = Inr (if xs = [] then None else Some (last xs))"
proof (cases xs rule: rev_cases)
  case Nil
  have "load_cell (last_cell (First h) (x # ys)) m = Inr None"
    using load_last_cell [of m h "x # ys" "[]"] assms Nil by simp
  with assms Nil show ?thesis by (simp add: TAILQ_PREV_def tailq_def tq_mem_simps)
next
  case (snoc zs z)
  with assms load_last_cell [of m h zs "z # x # ys"] show ?thesis
    by (simp add: TAILQ_PREV_def tailq_def tq_mem_simps)
qed

lemma tailq_walk_list:
  "tailq m h (xs @ ys) \<Longrightarrow> tailq_walk (first_of ys None) m = Some (Inr ys)"
proof (induction ys arbitrary: xs)
  case Nil
  then show ?case by (simp add: tailq_walk.simps)
next
  case (Cons y ys)
  from Cons.IH [of "xs @ [y]"] Cons.prems tailq_next [OF Cons.prems] show ?case
    by (simp add: tailq_walk.simps [of "Some y"])
qed

lemma tailq_foreach: "tailq m h xs \<Longrightarrow> TAILQ_FOREACH h m = Some (Inr xs)"
  using tailq_walk_list [of m h "[]" xs] by (simp add: TAILQ_FOREACH_def tailq_first)

lemma tailq_walk_back_list:
  "tailq m h (xs @ ys) \<Longrightarrow>
     tailq_walk_back (if xs = [] then None else Some (last xs)) m = Some (Inr (rev xs))"
proof (induction xs arbitrary: ys rule: rev_induct)
  case Nil
  then show ?case by (simp add: tailq_walk_back.simps)
next
  case (snoc x xs)
  from snoc.IH [of "x # ys"] snoc.prems tailq_prev [of m h xs x ys] show ?case
    by (simp add: tailq_walk_back.simps [of "Some x"])
qed

lemma tailq_foreach_reverse: "tailq m h xs \<Longrightarrow> TAILQ_FOREACH_REVERSE h m = Some (Inr (rev xs))"
  using tailq_walk_back_list [of m h xs "[]"] by (simp add: TAILQ_FOREACH_REVERSE_def tailq_last)

subsection \<open>The contract\<close>

definition tq_usable :: "tq_mem \<Rightarrow> nat \<Rightarrow> bool" where
  "tq_usable m e \<longleftrightarrow> tq_elems m e \<noteq> None"

lemma only_changes_usable: "only_changes H A m m' \<Longrightarrow> tq_usable m' = tq_usable m"
  by (auto simp: only_changes_def tq_usable_def fun_eq_iff dom_def)

interpretation tq: linked_queue "\<lambda>m. tailq m h" tq_usable "TAILQ_INSERT_TAIL h" "TAILQ_REMOVE h" "TAILQ_FIRST h"
  for h
proof
  fix m xs e
  assume "tailq m h xs" and "tq_usable m e" and "e \<notin> set xs"
  then show "\<exists>m'. TAILQ_INSERT_TAIL h e m = Inr m' \<and> tailq m' h (snoc e xs) \<and> tq_usable m' = tq_usable m"
    using tailq_insert_tail [of m h xs e] only_changes_usable by (auto simp: tq_usable_def [of m] snoc_def)
next
  fix m xs e
  assume q: "tailq m h xs" and "e \<in> set xs"
  from split_list_first [OF this(2)] obtain ys zs where xs: "xs = ys @ e # zs" "e \<notin> set ys" by blast
  then have "remove1 e xs = ys @ zs" by (simp add: remove1_append)
  then show "\<exists>m'. TAILQ_REMOVE h e m = Inr m' \<and> tailq m' h (remove1 e xs) \<and> tq_usable m' = tq_usable m"
    using tailq_remove [of m h ys e zs] q xs only_changes_usable by auto
qed (rule tailq_first)

subsection \<open>Properties\<close>

text \<open>C19: A tail queue is a list, empty or not: \<open>TAILQ_INIT\<close> makes an empty queue of any head, each macro that
  changes a queue that holds \<open>zs\<close> does to the pointers what the list operation does to \<open>zs\<close>,
  wherever the element is, and touches nothing but the queue's head and its elements,
  \<open>TAILQ_CONCAT\<close> moves all of a second queue to its end; the accesses to the first and the last
  element and to an element's neighbours give what the list has there (NULL past its ends), and the
  traversals visit the list in order and in reverse and end.\<close>

theorem tailq_refines_list:
  assumes "tailq m h zs" and "e \<notin> set zs" and "tq_elems m e \<noteq> None"
  defines "holds op us \<equiv> \<exists>m'. op = Inr m' \<and> tailq m' h us \<and> only_changes {h} (insert e (set zs)) m m'"
  shows "holds (TAILQ_INSERT_HEAD h e m) (e # zs)
    \<and> holds (TAILQ_INSERT_TAIL h e m) (zs @ [e])
    \<and> (\<forall>xs x ys. zs = xs @ x # ys \<longrightarrow>
         holds (TAILQ_INSERT_AFTER h x e m) (xs @ x # e # ys)
       \<and> holds (TAILQ_INSERT_BEFORE x e m) (xs @ e # x # ys)
       \<and> holds (TAILQ_REPLACE h x e m) (xs @ e # ys)
       \<and> holds (TAILQ_REMOVE h x m) (xs @ ys)
       \<and> TAILQ_NEXT x m = Inr (if ys = [] then None else Some (hd ys))
       \<and> TAILQ_PREV x m = Inr (if xs = [] then None else Some (last xs)))
    \<and> (\<forall>h2 us. tailq m h2 us \<and> h2 \<noteq> h \<and> set zs \<inter> set us = {} \<longrightarrow>
         (\<exists>m'. TAILQ_CONCAT h h2 m = Inr m' \<and> tailq m' h (zs @ us) \<and> tailq m' h2 []
            \<and> only_changes {h, h2} (set (zs @ us)) m m'))
    \<and> (\<forall>h0. tq_heads m h0 \<noteq> None \<longrightarrow>
         (\<exists>m'. TAILQ_INIT h0 m = Inr m' \<and> tailq m' h0 [] \<and> only_changes {h0} {} m m'))
    \<and> TAILQ_FIRST h m = Inr (if zs = [] then None else Some (hd zs))
    \<and> TAILQ_LAST h m = Inr (if zs = [] then None else Some (last zs))
    \<and> TAILQ_EMPTY h m = Inr (zs = [])
    \<and> TAILQ_FOREACH h m = Some (Inr zs)
    \<and> TAILQ_FOREACH_REVERSE h m = Some (Inr (rev zs))"
proof (intro conjI allI impI)
  fix xs x ys
  assume zs: "zs = xs @ x # ys"
  note at = assms(1-3) [unfolded zs]
  show "holds (TAILQ_INSERT_AFTER h x e m) (xs @ x # e # ys)" "holds (TAILQ_INSERT_BEFORE x e m) (xs @ e # x # ys)"
    "holds (TAILQ_REPLACE h x e m) (xs @ e # ys)"
    using tailq_insert_after [OF at] tailq_insert_before [OF at] tailq_replace [OF at] by (simp_all add: holds_def zs)
  show "holds (TAILQ_REMOVE h x m) (xs @ ys)"
    using tailq_remove [OF at(1)] unfolding holds_def zs only_changes_def by blast
  show "TAILQ_NEXT x m = Inr (if ys = [] then None else Some (hd ys))"
    using tailq_next [OF at(1)] by (cases ys) simp_all
  show "TAILQ_PREV x m = Inr (if xs = [] then None else Some (last xs))" by (rule tailq_prev [OF at(1)])
next
  fix h2 us
  assume "tailq m h2 us \<and> h2 \<noteq> h \<and> set zs \<inter> set us = {}"
  then show "\<exists>m'. TAILQ_CONCAT h h2 m = Inr m' \<and> tailq m' h (zs @ us) \<and> tailq m' h2 []
      \<and> only_changes {h, h2} (set (zs @ us)) m m'"
    using tailq_concat [OF assms(1), of h2 us] by simp
next
  show "TAILQ_FIRST h m = Inr (if zs = [] then None else Some (hd zs))"
    using tailq_first [OF assms(1)] by (cases zs) simp_all
qed (use assms(1-3) in \<open>simp_all add: holds_def tailq_insert_head tailq_insert_tail tailq_init
      tailq_last tailq_empty tailq_foreach tailq_foreach_reverse\<close>)

definition three_elements :: tq_mem where
  "three_elements = \<lparr>tq_heads = [0 \<mapsto> \<lparr>tqh_first = Some 1, tqh_last = Next 2\<rparr>,
                 5 \<mapsto> \<lparr>tqh_first = None, tqh_last = First 5\<rparr>],
     tq_elems = [1 \<mapsto> \<lparr>tqe_next = Some 2, tqe_prev = First 0\<rparr>,
                 2 \<mapsto> \<lparr>tqe_next = None, tqe_prev = Next 1\<rparr>,
                 3 \<mapsto> \<lparr>tqe_next = None, tqe_prev = First 9\<rparr>]\<rparr>"

text \<open>An insertion after the first of two elements, and one into an empty queue.\<close>

theorem tailq_refines_list_witness:
  "(\<exists>m'. TAILQ_INSERT_AFTER 0 1 3 three_elements = Inr m' \<and> TAILQ_FOREACH 0 m' = Some (Inr [1, 3, 2]))
    \<and> (\<exists>m'. TAILQ_INSERT_HEAD 5 3 three_elements = Inr m' \<and> TAILQ_FOREACH_REVERSE 5 m' = Some (Inr [3]))
    \<and> (\<exists>m'. TAILQ_CONCAT 5 0 three_elements = Inr m' \<and> TAILQ_FOREACH 5 m' = Some (Inr [1, 2]))"
proof -
  have q: "tailq three_elements 0 [1, 2]" "tailq three_elements 5 []" "tq_elems three_elements 3 \<noteq> None"
    by (simp_all add: three_elements_def tailq_def)
  note two = tailq_refines_list [OF q(1) _ q(3)] and none = tailq_refines_list [OF q(2) _ q(3)]
  have "[1, 2] = [] @ 1 # [2 :: nat]" by simp
  with two obtain m1 where "TAILQ_INSERT_AFTER 0 1 3 three_elements = Inr m1" "tailq m1 0 [1, 3, 2]" by force
  moreover from none obtain m2 where "TAILQ_INSERT_HEAD 5 3 three_elements = Inr m2" "tailq m2 5 [3]" by auto
  moreover from none q(1) obtain m3 where "TAILQ_CONCAT 5 0 three_elements = Inr m3" "tailq m3 5 [1, 2]" by force
  ultimately show ?thesis using tailq_foreach tailq_foreach_reverse by fastforce
qed

text \<open>For any sequence of insertions at the tail, removals and looks at the first element, the pointers
  yield what a list yields, without a fault, as long as only allocated elements that are not in
  the queue are inserted and only elements in it removed.\<close>

theorem tailq_is_queue:
  assumes "tailq m h xs" and "\<forall>e\<in>inserted ops. tq_usable m e" and "list_ops snoc ops xs = Some (ys, outs)"
  shows "\<exists>m'. mem_ops (TAILQ_INSERT_TAIL h) (TAILQ_REMOVE h) (TAILQ_FIRST h) ops m = Inr (m', outs)
    \<and> tailq m' h ys"
  using tq.refines_list assms .

theorem tailq_is_queue_witness:
  "\<exists>m'. mem_ops (TAILQ_INSERT_TAIL 0) (TAILQ_REMOVE 0) (TAILQ_FIRST 0)
      [Q_insert 3, Q_first, Q_remove 1, Q_first, Q_remove 3, Q_insert 1] three_elements
      = Inr (m', [Some 1, Some 2]) \<and> tailq m' 0 [2, 1]"
proof -
  have "tailq three_elements 0 [1, 2]" by (simp add: three_elements_def tailq_def)
  from tailq_is_queue [OF this, of "[Q_insert 3, Q_first, Q_remove 1, Q_first, Q_remove 3, Q_insert 1]"]
  show ?thesis by (simp add: tq_usable_def three_elements_def snoc_def)
qed

end
