(* ===== verification/Waiting_Queue.thy ===== *)
theory Waiting_Queue
  imports Tailq Connection
begin

section \<open>The waiting queue at the level of pointers\<close>

text \<open>
  \<open>Connection\<close> models the queue of waiting connections as a list, with faults where the macros
  would touch a connection that has been freed.  Here the list is tied to the pointers: the
  entries of the queue are those of a well-formed tail queue, but only the entries of
  connections that are still allocated can be accessed.  \<open>E\<close> holds the entries that were
  there before connections were freed.
\<close>

definition cq_pointers :: "nat \<Rightarrow> world \<Rightarrow> tq_mem \<Rightarrow> bool" where
  "cq_pointers h w m \<longleftrightarrow> (\<exists>E. tailq (m\<lparr>tq_elems := E\<rparr>) h (ln_cq_waiting w)
     \<and> tq_elems m = E |` Collect (conn_live w) \<and> Collect (conn_live w) \<subseteq> dom E)"

lemma neighbours_split:
  "distinct (xs @ c # ys) \<Longrightarrow>
     set (neighbours c (xs @ c # ys))
     = (if xs = [] then {} else {last xs}) \<union> (case ys of [] \<Rightarrow> {} | y # _ \<Rightarrow> {y})"
proof (induction xs rule: induct_list012)
  case 1
  then show ?case by (cases ys) auto
next
  case (2 x)
  then show ?case by (cases ys) auto
next
  case (3 x z xs)
  then show ?case by auto
qed

lemma conn_live_queue [simp]: "conn_live (w\<lparr>ln_cq_waiting := q\<rparr>) = conn_live w"
  by (simp add: conn_live_def fun_eq_iff)

lemma restrict_upd_in: "x \<in> L \<Longrightarrow> (E |` L)(x \<mapsto> v) = (E(x \<mapsto> v)) |` L"
  by (auto simp: restrict_map_def fun_eq_iff)

lemma cq_pointersE:
  assumes "cq_pointers h w m"
  obtains E where "distinct (ln_cq_waiting w)"
    and "tq_heads m h = Some \<lparr>tqh_first = first_of (ln_cq_waiting w) None,
      tqh_last = last_cell (First h) (ln_cq_waiting w)\<rparr>"
    and "chain E (First h) (ln_cq_waiting w) None"
    and "m = m\<lparr>tq_elems := E |` Collect (conn_live w)\<rparr>" and "Collect (conn_live w) \<subseteq> dom E"
  using assms by (auto simp: cq_pointers_def tailq_def)

lemma cq_pointersI:
  assumes "tailq (m\<lparr>tq_elems := E\<rparr>) h (ln_cq_waiting w)"
    and "tq_elems m = E |` Collect (conn_live w)" and "Collect (conn_live w) \<subseteq> dom E"
  shows "cq_pointers h w m"
  using assms by (auto simp: cq_pointers_def)

lemma elems_restricted:
  "m = m\<lparr>tq_elems := E |` L\<rparr> \<Longrightarrow> tq_elems m e = (if e \<in> L then E e else None)"
  by (metis restrict_map_def tq_mem.select_convs(2) tq_mem.surjective tq_mem.update_convs(2))

lemma cq_insert_pointers:
  assumes "cq_pointers h w m"
  shows "case cq_insert_tail c w of
      Inr w' \<Rightarrow> \<exists>m'. TAILQ_INSERT_TAIL h c m = Inr m' \<and> cq_pointers h w' m'
    | Inl f \<Rightarrow> c \<in> set (ln_cq_waiting w) \<or> TAILQ_INSERT_TAIL h c m = Inl f"
proof -
  from assms obtain E where d: "distinct (ln_cq_waiting w)"
    and hd: "tq_heads m h = Some \<lparr>tqh_first = first_of (ln_cq_waiting w) None,
      tqh_last = last_cell (First h) (ln_cq_waiting w)\<rparr>"
    and ch: "chain E (First h) (ln_cq_waiting w) None"
    and m: "m = m\<lparr>tq_elems := E |` Collect (conn_live w)\<rparr>" and dom: "Collect (conn_live w) \<subseteq> dom E"
    by (rule cq_pointersE)
  note el = elems_restricted [OF m]
  show ?thesis
  proof (cases "c \<in> set (ln_cq_waiting w) \<or> \<not> conn_live w c")
    case True
    then show ?thesis
      by (auto simp: cq_insert_tail_def Let_def TAILQ_INSERT_TAIL_def tq_mem_simps el)
  next
    case False
    then obtain x0 where "E c = Some x0" using dom by auto
    then obtain n p where x: "E c = Some \<lparr>tqe_next = n, tqe_prev = p\<rparr>" by (cases x0) simp
    show ?thesis
    proof (cases "ln_cq_waiting w" rule: rev_cases)
      case Nil
      let ?E = "E(c \<mapsto> \<lparr>tqe_next = None, tqe_prev = First h\<rparr>)"
      have "TAILQ_INSERT_TAIL h c m = Inr (m\<lparr>tq_heads := (tq_heads m)(h \<mapsto> \<lparr>tqh_first = Some c, tqh_last = Next c\<rparr>),
          tq_elems := ?E |` Collect (conn_live w)\<rparr>)"
        using False Nil hd x
        by (subst m) (simp add: TAILQ_INSERT_TAIL_def tq_mem_simps restrict_upd_in del: restrict_fun_upd fun_upd_restrict_conv)
      moreover have "cq_insert_tail c w = Inr (w\<lparr>ln_cq_waiting := [c]\<rparr>)"
        using False Nil by (simp add: cq_insert_tail_def)
      moreover have "cq_pointers h (w\<lparr>ln_cq_waiting := [c]\<rparr>) (m\<lparr>tq_heads := (tq_heads m)(h \<mapsto> \<lparr>tqh_first = Some c, tqh_last = Next c\<rparr>),
          tq_elems := ?E |` Collect (conn_live w)\<rparr>)"
        by (rule cq_pointersI [where E = ?E]) (use dom in \<open>auto simp: tailq_def\<close>)
      ultimately show ?thesis by simp
    next
      case (snoc q z)
      then have z: "z \<noteq> c" "E z = Some \<lparr>tqe_next = None, tqe_prev = last_cell (First h) q\<rparr>" "z \<notin> set q" "c \<notin> set q"
        using False ch d by auto
      show ?thesis
      proof (cases "conn_live w z")
        case live: False
        then have "TAILQ_INSERT_TAIL h c m = Inl Use_after_free"
          using False snoc hd x z
          by (simp add: TAILQ_INSERT_TAIL_def tq_mem_simps el)
        then show ?thesis using False live snoc by (simp add: cq_insert_tail_def Let_def)
      next
        case live: True
        let ?E = "E(c \<mapsto> \<lparr>tqe_next = None, tqe_prev = Next z\<rparr>, z \<mapsto> \<lparr>tqe_next = Some c, tqe_prev = last_cell (First h) q\<rparr>)"
        let ?m = "m\<lparr>tq_heads := (tq_heads m)(h \<mapsto> \<lparr>tqh_first = first_of (q @ [z]) None, tqh_last = Next c\<rparr>),
          tq_elems := ?E |` Collect (conn_live w)\<rparr>"
        have "TAILQ_INSERT_TAIL h c m = Inr ?m"
          using False live snoc hd x z
          by (subst m) (simp add: TAILQ_INSERT_TAIL_def tq_mem_simps restrict_upd_in del: restrict_fun_upd fun_upd_restrict_conv)
        moreover have "cq_insert_tail c w = Inr (w\<lparr>ln_cq_waiting := q @ [z, c]\<rparr>)"
          using False live snoc by (simp add: cq_insert_tail_def Let_def)
        moreover have "cq_pointers h (w\<lparr>ln_cq_waiting := q @ [z, c]\<rparr>) ?m"
          by (rule cq_pointersI [where E = ?E]) (use dom z d snoc ch in \<open>auto simp: tailq_def\<close>)
        ultimately show ?thesis by simp
      qed
    qed
  qed
qed

text \<open>Removing, when the element and its two neighbours are allocated, and when one of them is not.\<close>

lemma remove_restrict:
  assumes "tq_elems m c = Some \<lparr>tqe_next = n, tqe_prev = l\<rparr>" and "c \<in> L"
    and "\<forall>x. n = Some x \<longrightarrow> x \<in> L" and "\<forall>x. l = Next x \<longrightarrow> x \<in> L"
    and "TAILQ_REMOVE h c m = Inr m1"
  shows "TAILQ_REMOVE h c (m\<lparr>tq_elems := tq_elems m |` L\<rparr>) = Inr (m1\<lparr>tq_elems := tq_elems m1 |` L\<rparr>)"
  using assms
  by (cases n; cases l)
    (auto simp: TAILQ_REMOVE_def tq_mem_simps restrict_upd_in
      simp del: restrict_fun_upd fun_upd_restrict_conv split: option.splits if_splits)

lemma remove_dangling:
  assumes "tq_elems m c = Some \<lparr>tqe_next = n, tqe_prev = l\<rparr>" and "tq_heads m h \<noteq> None"
    and "c \<notin> L \<or> (\<exists>x. n = Some x \<and> x \<notin> L) \<or> (\<exists>x. l = Next x \<and> x \<notin> L \<and> x \<noteq> c)"
    and "n \<noteq> Some c"
  shows "TAILQ_REMOVE h c (m\<lparr>tq_elems := tq_elems m |` L\<rparr>) = Inl Use_after_free"
  using assms
  by (cases n; cases l; cases "c \<in> L")
    (auto simp: TAILQ_REMOVE_def tq_mem_simps restrict_upd_in restrict_map_def
      simp del: restrict_fun_upd fun_upd_restrict_conv split: option.splits if_splits)

lemma cq_remove_pointers:
  assumes "cq_pointers h w m"
  shows "case cq_remove c w of
      Inr w' \<Rightarrow> \<exists>m'. TAILQ_REMOVE h c m = Inr m' \<and> cq_pointers h w' m'
    | Inl f \<Rightarrow> c \<notin> set (ln_cq_waiting w) \<or> TAILQ_REMOVE h c m = Inl f"
proof (cases "c \<in> set (ln_cq_waiting w)")
  case False
  then show ?thesis by (simp add: cq_remove_def)
next
  case True
  from assms obtain E where t: "tailq (m\<lparr>tq_elems := E\<rparr>) h (ln_cq_waiting w)"
    and el: "tq_elems m = E |` Collect (conn_live w)" and dom: "Collect (conn_live w) \<subseteq> dom E"
    by (auto simp: cq_pointers_def)
  let ?L = "Collect (conn_live w)"
  let ?m = "m\<lparr>tq_elems := E\<rparr>"
  have m: "m = ?m\<lparr>tq_elems := tq_elems ?m |` ?L\<rparr>" using el by simp
  from split_list [OF True] obtain xs ys where q: "ln_cq_waiting w = xs @ c # ys" by blast
  have d: "distinct (xs @ c # ys)" using t q by (simp add: tailq_def)
  have c: "tq_elems ?m c = Some \<lparr>tqe_next = first_of ys None, tqe_prev = last_cell (First h) xs\<rparr>"
    using t q by (simp add: tailq_def)
  have prev: "last_cell (First h) xs = Next x \<longleftrightarrow> xs \<noteq> [] \<and> x = last xs" for x
    by (cases xs rule: rev_cases) auto
  have nxt: "first_of ys None = Some y \<longleftrightarrow> ys \<noteq> [] \<and> y = hd ys" for y
    by (cases ys) auto
  have nb: "set (neighbours c (ln_cq_waiting w)) = (if xs = [] then {} else {last xs}) \<union> (if ys = [] then {} else {hd ys})"
    using neighbours_split [OF d] q by (cases ys) auto
  have rm: "remove1 c (ln_cq_waiting w) = xs @ ys" using d q by (simp add: remove1_append)
  show ?thesis
  proof (cases "conn_live w c \<and> list_all (conn_live w) (neighbours c (ln_cq_waiting w))")
    case False
    then have "c \<notin> ?L \<or> (\<exists>x. first_of ys None = Some x \<and> x \<notin> ?L)
        \<or> (\<exists>x. last_cell (First h) xs = Next x \<and> x \<notin> ?L \<and> x \<noteq> c)"
      using nb d by (auto simp: list_all_iff prev nxt split: if_split_asm)
    moreover have "first_of ys None \<noteq> Some c" using d by (cases ys) auto
    moreover have "tq_heads ?m h \<noteq> None" using t by (simp add: tailq_def)
    ultimately have "TAILQ_REMOVE h c m = Inl Use_after_free"
      using remove_dangling [OF c, of h ?L] by (subst m) blast
    then show ?thesis using False True by (auto simp: cq_remove_def Let_def)
  next
    case live: True
    from tailq_remove [of ?m h xs c ys] t q obtain m1 where
      m1: "TAILQ_REMOVE h c ?m = Inr m1" "tailq m1 h (xs @ ys)" "only_changes {h} (set (xs @ c # ys)) ?m m1"
      by auto
    have "TAILQ_REMOVE h c m = Inr (m1\<lparr>tq_elems := tq_elems m1 |` ?L\<rparr>)"
      by (subst m, rule remove_restrict [OF c _ _ _ m1(1)])
        (use live nb in \<open>auto simp: list_all_iff prev nxt split: if_split_asm\<close>)
    moreover have "cq_remove c w = Inr (w\<lparr>ln_cq_waiting := xs @ ys\<rparr>)"
      using live True rm by (simp add: cq_remove_def Let_def)
    moreover have "cq_pointers h (w\<lparr>ln_cq_waiting := xs @ ys\<rparr>) (m1\<lparr>tq_elems := tq_elems m1 |` ?L\<rparr>)"
      by (rule cq_pointersI [where E = "tq_elems m1"])
        (use m1(2,3) dom in \<open>auto simp: only_changes_def\<close>)
    ultimately show ?thesis by auto
  qed
qed

subsection \<open>Properties\<close>

text \<open>C18: The list that stands for the queue of waiting connections is exact, freed connections included:
  on the pointers, \<open>TAILQ_INSERT_TAIL\<close> and \<open>TAILQ_REMOVE\<close> succeed where the operations on the
  list do, with corresponding results, and touch freed memory where those report it; and
  freeing a connection takes its links with it.\<close>

theorem waiting_queue_refined:
  assumes "cq_pointers h w m"
  shows "(case cq_insert_tail c w of
        Inr w' \<Rightarrow> \<exists>m'. TAILQ_INSERT_TAIL h c m = Inr m' \<and> cq_pointers h w' m'
      | Inl f \<Rightarrow> c \<in> set (ln_cq_waiting w) \<or> TAILQ_INSERT_TAIL h c m = Inl f)
    \<and> (case cq_remove c w of
        Inr w' \<Rightarrow> \<exists>m'. TAILQ_REMOVE h c m = Inr m' \<and> cq_pointers h w' m'
      | Inl f \<Rightarrow> c \<notin> set (ln_cq_waiting w) \<or> TAILQ_REMOVE h c m = Inl f)
    \<and> cq_pointers h (w\<lparr>w_conns := (w_conns w)(c := None)\<rparr>) (m\<lparr>tq_elems := (tq_elems m)(c := None)\<rparr>)"
proof -
  have "cq_pointers h (w\<lparr>w_conns := (w_conns w)(c := None)\<rparr>) (m\<lparr>tq_elems := (tq_elems m)(c := None)\<rparr>)"
  proof -
    from assms obtain E where t: "tailq (m\<lparr>tq_elems := E\<rparr>) h (ln_cq_waiting w)"
      and el: "tq_elems m = E |` Collect (conn_live w)" and dom: "Collect (conn_live w) \<subseteq> dom E"
      by (auto simp: cq_pointers_def)
    have live: "Collect (conn_live (w\<lparr>w_conns := (w_conns w)(c := None)\<rparr>)) = Collect (conn_live w) - {c}"
      by (auto simp: conn_live_def split: if_split_asm)
    show ?thesis
      by (rule cq_pointersI [where E = E])
        (use t el dom in \<open>auto simp: live restrict_map_def fun_eq_iff\<close>)
  qed
  with cq_insert_pointers [OF assms] cq_remove_pointers [OF assms] show ?thesis by blast
qed

text \<open>Three connections wait; the last one's memory has gone, as after the timeout of a waiting connection.\<close>

definition dangling_world :: world where
  "dangling_world = (blank_world (plain_conf []) small_pool)\<lparr>ln_cq_waiting := [1, 2, 3],
     w_conns := [1 \<mapsto> zero_conn, 2 \<mapsto> zero_conn, 4 \<mapsto> zero_conn]\<rparr>"

definition dangling_mem :: tq_mem where
  "dangling_mem = \<lparr>tq_heads = [0 \<mapsto> \<lparr>tqh_first = Some 1, tqh_last = Next 3\<rparr>],
     tq_elems = [1 \<mapsto> \<lparr>tqe_next = Some 2, tqe_prev = First 0\<rparr>,
                 2 \<mapsto> \<lparr>tqe_next = Some 3, tqe_prev = Next 1\<rparr>,
                 4 \<mapsto> \<lparr>tqe_next = None, tqe_prev = First 9\<rparr>]\<rparr>"

theorem waiting_queue_refined_witness:
  "cq_pointers 0 dangling_world dangling_mem
    \<and> TAILQ_INSERT_TAIL 0 4 dangling_mem = Inl Use_after_free
    \<and> TAILQ_REMOVE 0 2 dangling_mem = Inl Use_after_free
    \<and> (\<exists>w' m'. cq_remove 1 dangling_world = Inr w' \<and> TAILQ_REMOVE 0 1 dangling_mem = Inr m' \<and> cq_pointers 0 w' m')"
proof -
  have live: "conn_live dangling_world = (\<lambda>c. c \<in> {1, 2, 4})"
    by (auto simp: conn_live_def dangling_world_def fun_eq_iff)
  let ?E = "(tq_elems dangling_mem)(3 \<mapsto> \<lparr>tqe_next = None, tqe_prev = Next 2\<rparr>)"
  have q: "ln_cq_waiting dangling_world = [1, 2, 3]" by (simp add: dangling_world_def)
  have p: "cq_pointers 0 dangling_world dangling_mem"
    by (rule cq_pointersI [where E = ?E])
      (auto simp: tailq_def dangling_mem_def q live restrict_map_def fun_eq_iff)
  have "cq_insert_tail 4 dangling_world = Inl Use_after_free" "cq_remove 2 dangling_world = Inl Use_after_free"
    "\<exists>w'. cq_remove 1 dangling_world = Inr w'"
    by (simp_all add: cq_insert_tail_def cq_remove_def q live)
  with waiting_queue_refined [OF p, of 4] waiting_queue_refined [OF p, of 2]
    waiting_queue_refined [OF p, of 1] p q
  show ?thesis by auto
qed

end
