(* ===== verification/Stailq.thy ===== *)
theory Stailq
  imports Queue_Contract
begin

section \<open>Singly-linked tail queues (src/queue.h, the \<open>STAILQ\<close> macros)\<close>

text \<open>
  The macros at the level of pointers, as for \<open>TAILQ\<close>, but an element has a link to the next
  only, so that removing an element searches for the one before it.  The search follows
  NULL when the element is not in the queue, and may not end on a cyclic list, which is the
  fault \<open>No_return\<close>.
\<close>

record st_head =
  stqh_first :: "nat option"
  stqh_last :: cell

record st_mem =
  st_heads :: "nat \<rightharpoonup> st_head"
  st_nexts :: "nat \<rightharpoonup> nat option"

definition get_st_head :: "nat \<Rightarrow> st_mem \<Rightarrow> fault + st_head" where
  "get_st_head h m = (case st_heads m h of None \<Rightarrow> Inl Use_after_free | Some x \<Rightarrow> Inr x)"

definition upd_st_head :: "nat \<Rightarrow> (st_head \<Rightarrow> st_head) \<Rightarrow> st_mem \<Rightarrow> fault + st_mem" where
  "upd_st_head h f m = bindR (get_st_head h m) (\<lambda>x. Inr (m\<lparr>st_heads := (st_heads m)(h \<mapsto> f x)\<rparr>))"

definition set_next :: "nat \<Rightarrow> nat option \<Rightarrow> st_mem \<Rightarrow> fault + st_mem" where
  "set_next e v m =
     (case st_nexts m e of
        None \<Rightarrow> Inl Use_after_free
      | Some _ \<Rightarrow> Inr (m\<lparr>st_nexts := (st_nexts m)(e \<mapsto> v)\<rparr>))"

fun store_st_cell :: "cell \<Rightarrow> nat option \<Rightarrow> st_mem \<Rightarrow> fault + st_mem" where
  "store_st_cell (First h) v m = upd_st_head h (stqh_first_update (\<lambda>_. v)) m"
| "store_st_cell (Next e) v m = set_next e v m"

subsection \<open>The macros\<close>

definition STAILQ_FIRST :: "nat \<Rightarrow> st_mem \<Rightarrow> fault + nat option" where
  "STAILQ_FIRST h m = bindR (get_st_head h m) (\<lambda>x. Inr (stqh_first x))"

definition STAILQ_NEXT :: "nat \<Rightarrow> st_mem \<Rightarrow> fault + nat option" where
  "STAILQ_NEXT e m = (case st_nexts m e of None \<Rightarrow> Inl Use_after_free | Some n \<Rightarrow> Inr n)"

definition STAILQ_EMPTY :: "nat \<Rightarrow> st_mem \<Rightarrow> fault + bool" where
  "STAILQ_EMPTY h m = bindR (STAILQ_FIRST h m) (\<lambda>x. Inr (x = None))"

definition STAILQ_INIT :: "nat \<Rightarrow> st_mem \<Rightarrow> fault + st_mem" where
  "STAILQ_INIT h m =
     bindR (upd_st_head h (stqh_first_update (\<lambda>_. None)) m) (\<lambda>m1.
       upd_st_head h (stqh_last_update (\<lambda>_. First h)) m1)"

definition STAILQ_INSERT_HEAD :: "nat \<Rightarrow> nat \<Rightarrow> st_mem \<Rightarrow> fault + st_mem" where
  "STAILQ_INSERT_HEAD h elm m =
     bindR (STAILQ_FIRST h m) (\<lambda>first.
     bindR (set_next elm first m) (\<lambda>m1.
     bindR (if first = None then upd_st_head h (stqh_last_update (\<lambda>_. Next elm)) m1 else Inr m1) (\<lambda>m2.
       upd_st_head h (stqh_first_update (\<lambda>_. Some elm)) m2)))"

definition STAILQ_INSERT_TAIL :: "nat \<Rightarrow> nat \<Rightarrow> st_mem \<Rightarrow> fault + st_mem" where
  "STAILQ_INSERT_TAIL h elm m =
     bindR (set_next elm None m) (\<lambda>m1.
     bindR (get_st_head h m1) (\<lambda>x.
     bindR (store_st_cell (stqh_last x) (Some elm) m1) (\<lambda>m2.
       upd_st_head h (stqh_last_update (\<lambda>_. Next elm)) m2)))"

definition STAILQ_INSERT_AFTER :: "nat \<Rightarrow> nat \<Rightarrow> nat \<Rightarrow> st_mem \<Rightarrow> fault + st_mem" where
  "STAILQ_INSERT_AFTER h listelm elm m =
     bindR (STAILQ_NEXT listelm m) (\<lambda>n.
     bindR (set_next elm n m) (\<lambda>m1.
     bindR (if n = None then upd_st_head h (stqh_last_update (\<lambda>_. Next elm)) m1 else Inr m1) (\<lambda>m2.
       set_next listelm (Some elm) m2)))"

definition STAILQ_REMOVE_HEAD :: "nat \<Rightarrow> st_mem \<Rightarrow> fault + st_mem" where
  "STAILQ_REMOVE_HEAD h m =
     bindR (STAILQ_FIRST h m) (\<lambda>first.
       case first of
         None \<Rightarrow> Inl Null_deref
       | Some x \<Rightarrow>
           bindR (STAILQ_NEXT x m) (\<lambda>n.
           bindR (upd_st_head h (stqh_first_update (\<lambda>_. n)) m) (\<lambda>m1.
             if n = None then upd_st_head h (stqh_last_update (\<lambda>_. First h)) m1 else Inr m1)))"

partial_function (option) stailq_search :: "nat option \<Rightarrow> nat \<Rightarrow> st_mem \<Rightarrow> (fault + nat) option" where
  "stailq_search curelm elm m =
     (case curelm of
        None \<Rightarrow> Some (Inl Null_deref)
      | Some c \<Rightarrow>
          (case STAILQ_NEXT c m of
             Inl f \<Rightarrow> Some (Inl f)
           | Inr n \<Rightarrow> if n = Some elm then Some (Inr c) else stailq_search n elm m))"

definition STAILQ_REMOVE :: "nat \<Rightarrow> nat \<Rightarrow> st_mem \<Rightarrow> fault + st_mem" where
  "STAILQ_REMOVE h elm m =
     bindR (STAILQ_FIRST h m) (\<lambda>first.
       if first = Some elm then STAILQ_REMOVE_HEAD h m
       else
         bindR (case stailq_search first elm m of None \<Rightarrow> Inl No_return | Some r \<Rightarrow> r) (\<lambda>curelm.
         bindR (STAILQ_NEXT elm m) (\<lambda>n.
         bindR (set_next curelm n m) (\<lambda>m1.
           if n = None then upd_st_head h (stqh_last_update (\<lambda>_. Next curelm)) m1 else Inr m1))))"

text \<open>The element around the cell \<open>stqh_last\<close>; the head's own cell is in no element.\<close>

definition STAILQ_LAST :: "nat \<Rightarrow> st_mem \<Rightarrow> fault + nat option" where
  "STAILQ_LAST h m =
     bindR (get_st_head h m) (\<lambda>x.
       if stqh_first x = None then Inr None
       else case stqh_last x of First _ \<Rightarrow> Inl Out_of_bounds | Next e \<Rightarrow> Inr (Some e))"

definition STAILQ_CONCAT :: "nat \<Rightarrow> nat \<Rightarrow> st_mem \<Rightarrow> fault + st_mem" where
  "STAILQ_CONCAT h1 h2 m =
     bindR (STAILQ_EMPTY h2 m) (\<lambda>empty.
       if empty then Inr m
       else
         bindR (get_st_head h1 m) (\<lambda>x1.
         bindR (STAILQ_FIRST h2 m) (\<lambda>first.
         bindR (store_st_cell (stqh_last x1) first m) (\<lambda>m1.
         bindR (get_st_head h2 m1) (\<lambda>x2.
         bindR (upd_st_head h1 (stqh_last_update (\<lambda>_. stqh_last x2)) m1) (\<lambda>m2.
           STAILQ_INIT h2 m2))))))"

partial_function (option) stailq_walk :: "nat option \<Rightarrow> st_mem \<Rightarrow> (fault + nat list) option" where
  "stailq_walk var m =
     (case var of
        None \<Rightarrow> Some (Inr [])
      | Some e \<Rightarrow>
          (case STAILQ_NEXT e m of
             Inl f \<Rightarrow> Some (Inl f)
           | Inr n \<Rightarrow> Option.bind (stailq_walk n m) (\<lambda>r. Some (map_sum id ((#) e) r))))"

definition STAILQ_FOREACH :: "nat \<Rightarrow> st_mem \<Rightarrow> (fault + nat list) option" where
  "STAILQ_FOREACH h m = (case STAILQ_FIRST h m of Inl f \<Rightarrow> Some (Inl f) | Inr v \<Rightarrow> stailq_walk v m)"

definition STAILQ_FOREACH_SAFE :: "nat \<Rightarrow> (nat \<Rightarrow> st_mem \<Rightarrow> fault + st_mem) \<Rightarrow> st_mem \<Rightarrow> (fault + st_mem) option" where
  "STAILQ_FOREACH_SAFE h body m =
     (case STAILQ_FIRST h m of
        Inl f \<Rightarrow> Some (Inl f)
      | Inr first \<Rightarrow> foreach_safe STAILQ_NEXT body first m)"

definition STAILQ_HEAD_INITIALIZER :: "nat \<Rightarrow> st_head" where
  "STAILQ_HEAD_INITIALIZER h = \<lparr>stqh_first = None, stqh_last = First h\<rparr>"

declare stailq_search.simps [code] stailq_walk.simps [code]

subsection \<open>The list a queue holds\<close>

definition stailq :: "st_mem \<Rightarrow> nat \<Rightarrow> nat list \<Rightarrow> bool" where
  "stailq m h xs \<longleftrightarrow> distinct xs
     \<and> st_heads m h = Some \<lparr>stqh_first = first_of xs None, stqh_last = last_cell (First h) xs\<rparr>
     \<and> st_chain (st_nexts m) xs None"

definition st_usable :: "st_mem \<Rightarrow> nat \<Rightarrow> bool" where
  "st_usable m e \<longleftrightarrow> st_nexts m e \<noteq> None"

definition st_only_changes :: "nat set \<Rightarrow> nat set \<Rightarrow> st_mem \<Rightarrow> st_mem \<Rightarrow> bool" where
  "st_only_changes H A m m' \<longleftrightarrow> (\<forall>h. h \<notin> H \<longrightarrow> st_heads m' h = st_heads m h)
     \<and> (\<forall>x. x \<notin> A \<longrightarrow> st_nexts m' x = st_nexts m x) \<and> st_usable m' = st_usable m"

lemmas st_mem_simps = get_st_head_def upd_st_head_def set_next_def STAILQ_FIRST_def STAILQ_NEXT_def
lemmas st_rel_simps = stailq_def st_only_changes_def st_usable_def

lemma stailq_init:
  assumes "st_heads m h \<noteq> None"
  shows "\<exists>m'. STAILQ_INIT h m = Inr m' \<and> stailq m' h [] \<and> st_only_changes {h} {} m m'"
  using assms by (auto simp: STAILQ_INIT_def st_mem_simps st_rel_simps fun_eq_iff)

lemma stailq_insert_tail:
  assumes "stailq m h xs" and "e \<notin> set xs" and "st_usable m e"
  shows "\<exists>m'. STAILQ_INSERT_TAIL h e m = Inr m' \<and> stailq m' h (xs @ [e])
    \<and> st_only_changes {h} (insert e (set xs)) m m'"
  using assms
  by (cases xs rule: rev_cases)
    (auto simp: STAILQ_INSERT_TAIL_def st_mem_simps st_rel_simps fun_eq_iff)

lemma stailq_insert_head:
  assumes "stailq m h xs" and "e \<notin> set xs" and "st_usable m e"
  shows "\<exists>m'. STAILQ_INSERT_HEAD h e m = Inr m' \<and> stailq m' h (e # xs)
    \<and> st_only_changes {h} (insert e (set xs)) m m'"
  using assms
  by (cases xs) (auto simp: STAILQ_INSERT_HEAD_def st_mem_simps st_rel_simps fun_eq_iff)

lemma stailq_insert_after:
  assumes "stailq m h (xs @ x # ys)" and "e \<notin> set (xs @ x # ys)" and "st_usable m e"
  shows "\<exists>m'. STAILQ_INSERT_AFTER h x e m = Inr m' \<and> stailq m' h (xs @ x # e # ys)
    \<and> st_only_changes {h} (insert e (set (xs @ x # ys))) m m'"
  using assms
  by (cases ys) (auto simp: STAILQ_INSERT_AFTER_def st_mem_simps st_rel_simps fun_eq_iff)

lemma stailq_next: "stailq m h (xs @ x # ys) \<Longrightarrow> STAILQ_NEXT x m = Inr (first_of ys None)"
  by (simp add: STAILQ_NEXT_def stailq_def)

lemma stailq_first: "stailq m h xs \<Longrightarrow> STAILQ_FIRST h m = Inr (first_of xs None)"
  by (simp add: STAILQ_FIRST_def get_st_head_def stailq_def)

lemma stailq_search_found:
  "stailq m h (zs @ ys @ c # e # xs) \<Longrightarrow>
     stailq_search (first_of (ys @ c # e # xs) None) e m = Some (Inr c)"
proof (induction ys arbitrary: zs)
  case Nil
  then show ?case using stailq_next [of m h zs c "e # xs"] by (simp add: stailq_search.simps)
next
  case (Cons y ys)
  have "first_of (ys @ c # e # xs) None \<noteq> Some e"
    using Cons.prems by (cases ys) (auto simp: stailq_def)
  with Cons.IH [of "zs @ [y]"] Cons.prems stailq_next [of m h zs y "ys @ c # e # xs"] show ?case
    by (simp add: stailq_search.simps [of "Some y"])
qed

lemma stailq_search_missing:
  "stailq m h (zs @ ys) \<Longrightarrow> e \<notin> set ys \<Longrightarrow>
     stailq_search (first_of ys None) e m = Some (Inl Null_deref)"
proof (induction ys arbitrary: zs)
  case Nil
  then show ?case by (simp add: stailq_search.simps)
next
  case (Cons y ys)
  have "first_of ys None \<noteq> Some e" using Cons.prems(2) by (cases ys) auto
  with Cons.IH [of "zs @ [y]"] Cons.prems stailq_next [of m h zs y ys] show ?case
    by (simp add: stailq_search.simps [of "Some y"])
qed

lemma stailq_remove:
  assumes "stailq m h (xs @ e # ys)"
  shows "\<exists>m'. STAILQ_REMOVE h e m = Inr m' \<and> stailq m' h (xs @ ys)
    \<and> st_only_changes {h} (set (xs @ e # ys)) m m'"
proof (cases xs rule: rev_cases)
  case Nil
  with assms show ?thesis
    by (cases ys)
      (auto simp: STAILQ_REMOVE_def STAILQ_REMOVE_HEAD_def st_mem_simps st_rel_simps fun_eq_iff)
next
  case (snoc zs z)
  have find: "stailq_search (first_of (zs @ z # e # ys) None) e m = Some (Inr z)"
    using stailq_search_found [of m h "[]" zs z e ys] assms snoc by simp
  have "first_of (zs @ z # e # ys) None \<noteq> Some e"
    using assms snoc by (cases zs) (auto simp: stailq_def)
  with find assms snoc show ?thesis
    by (cases ys) (auto simp: STAILQ_REMOVE_def st_mem_simps st_rel_simps fun_eq_iff)
qed

lemma stailq_remove_missing:
  assumes "stailq m h xs" and "e \<notin> set xs"
  shows "STAILQ_REMOVE h e m = Inl Null_deref"
proof -
  have "first_of xs None \<noteq> Some e" using assms(2) by (cases xs) auto
  with stailq_search_missing [of m h "[]" xs e] assms show ?thesis
    by (simp add: STAILQ_REMOVE_def stailq_first)
qed

lemma stailq_last:
  "stailq m h xs \<Longrightarrow> STAILQ_LAST h m = Inr (if xs = [] then None else Some (last xs))"
  by (cases xs rule: rev_cases; cases "butlast xs") (auto simp: STAILQ_LAST_def get_st_head_def stailq_def)

lemma stailq_concat:
  assumes "stailq m h1 xs" and "stailq m h2 ys" and "h1 \<noteq> h2" and "set xs \<inter> set ys = {}"
  shows "\<exists>m'. STAILQ_CONCAT h1 h2 m = Inr m' \<and> stailq m' h1 (xs @ ys) \<and> stailq m' h2 []
    \<and> st_only_changes {h1, h2} (set (xs @ ys)) m m'"
  using assms
  by (cases xs rule: rev_cases; cases ys)
    (auto simp: STAILQ_CONCAT_def STAILQ_EMPTY_def STAILQ_INIT_def st_mem_simps st_rel_simps fun_eq_iff)

lemma stailq_walk_list:
  "stailq m h (xs @ ys) \<Longrightarrow> stailq_walk (first_of ys None) m = Some (Inr ys)"
proof (induction ys arbitrary: xs)
  case Nil
  then show ?case by (simp add: stailq_walk.simps)
next
  case (Cons y ys)
  from Cons.IH [of "xs @ [y]"] Cons.prems stailq_next [OF Cons.prems] show ?case
    by (simp add: stailq_walk.simps [of "Some y"])
qed

lemma stailq_foreach: "stailq m h xs \<Longrightarrow> STAILQ_FOREACH h m = Some (Inr xs)"
  using stailq_walk_list [of m h "[]" xs] by (simp add: STAILQ_FOREACH_def stailq_first)

lemma stailq_foreach_safe_frees:
  defines "free \<equiv> \<lambda>e m. case st_nexts m e of
      None \<Rightarrow> Inl Use_after_free | Some _ \<Rightarrow> Inr (m\<lparr>st_nexts := (st_nexts m)(e := None)\<rparr>)"
  assumes "stailq m h xs"
  shows "\<exists>m'. STAILQ_FOREACH_SAFE h free m = Some (Inr m') \<and> st_nexts m' = st_nexts m |` (- set xs)"
proof -
  have "\<exists>m'. foreach_safe STAILQ_NEXT free (first_of xs None) m = Some (Inr m')
    \<and> st_nexts m' = st_nexts m |` (- set xs)"
    by (rule foreach_safe_frees) (use assms(2) in \<open>auto simp: stailq_def STAILQ_NEXT_def free_def\<close>)
  with assms(2) show ?thesis by (simp add: STAILQ_FOREACH_SAFE_def stailq_first)
qed

lemma stailq_initializer: "stailq (m\<lparr>st_heads := (st_heads m)(h \<mapsto> STAILQ_HEAD_INITIALIZER h)\<rparr>) h []"
  by (simp add: stailq_def STAILQ_HEAD_INITIALIZER_def)

interpretation st: linked_queue "\<lambda>m. stailq m h" st_usable "STAILQ_INSERT_TAIL h" "STAILQ_REMOVE h" "STAILQ_FIRST h"
  for h
proof
  fix m xs e
  assume "stailq m h xs" and "st_usable m e" and "e \<notin> set xs"
  then show "\<exists>m'. STAILQ_INSERT_TAIL h e m = Inr m' \<and> stailq m' h (snoc e xs) \<and> st_usable m' = st_usable m"
    using stailq_insert_tail [of m h xs e] by (auto simp: st_only_changes_def snoc_def)
next
  fix m xs e
  assume q: "stailq m h xs" and "e \<in> set xs"
  from split_list_first [OF this(2)] obtain ys zs where xs: "xs = ys @ e # zs" "e \<notin> set ys" by blast
  then have "remove1 e xs = ys @ zs" by (simp add: remove1_append)
  then show "\<exists>m'. STAILQ_REMOVE h e m = Inr m' \<and> stailq m' h (remove1 e xs) \<and> st_usable m' = st_usable m"
    using stailq_remove [of m h ys e zs] q xs by (auto simp: st_only_changes_def)
qed (rule stailq_first)

subsection \<open>Properties\<close>

text \<open>C20: A singly-linked tail queue is a list, empty or not: \<open>STAILQ_INIT\<close> makes an empty queue of any head,
  on a queue that holds \<open>zs\<close> each macro that changes it does to the pointers what the list operation
  does to \<open>zs\<close> and touches nothing but the head and the elements, and \<open>STAILQ_CONCAT\<close> moves all
  of a second queue to its end; \<open>STAILQ_LAST\<close> finds the last element from the address of its link;
  removing an element searches no further than the element, and follows NULL when it is not in
  the queue, as removing the head of an empty one does.\<close>

theorem stailq_refines_list:
  assumes "stailq m h zs" and "e \<notin> set zs" and "st_usable m e"
  defines "holds op us \<equiv> \<exists>m'. op = Inr m' \<and> stailq m' h us \<and> st_only_changes {h} (insert e (set zs)) m m'"
  shows "holds (STAILQ_INSERT_HEAD h e m) (e # zs)
    \<and> holds (STAILQ_INSERT_TAIL h e m) (zs @ [e])
    \<and> (\<forall>xs x ys. zs = xs @ x # ys \<longrightarrow>
         holds (STAILQ_INSERT_AFTER h x e m) (xs @ x # e # ys)
       \<and> holds (STAILQ_REMOVE h x m) (xs @ ys)
       \<and> STAILQ_NEXT x m = Inr (if ys = [] then None else Some (hd ys)))
    \<and> (if zs = [] then STAILQ_REMOVE_HEAD h m = Inl Null_deref else holds (STAILQ_REMOVE_HEAD h m) (tl zs))
    \<and> STAILQ_REMOVE h e m = Inl Null_deref
    \<and> (\<forall>h2 us. stailq m h2 us \<and> h2 \<noteq> h \<and> set zs \<inter> set us = {} \<longrightarrow>
         (\<exists>m'. STAILQ_CONCAT h h2 m = Inr m' \<and> stailq m' h (zs @ us) \<and> stailq m' h2 []
            \<and> st_only_changes {h, h2} (set (zs @ us)) m m'))
    \<and> (\<forall>h0. st_heads m h0 \<noteq> None \<longrightarrow>
         (\<exists>m'. STAILQ_INIT h0 m = Inr m' \<and> stailq m' h0 [] \<and> st_only_changes {h0} {} m m'))
    \<and> STAILQ_FIRST h m = Inr (if zs = [] then None else Some (hd zs))
    \<and> STAILQ_LAST h m = Inr (if zs = [] then None else Some (last zs))
    \<and> STAILQ_EMPTY h m = Inr (zs = [])
    \<and> STAILQ_FOREACH h m = Some (Inr zs)"
proof (intro conjI allI impI)
  fix xs x ys
  assume zs: "zs = xs @ x # ys"
  note at = assms(1-3) [unfolded zs]
  show "holds (STAILQ_INSERT_AFTER h x e m) (xs @ x # e # ys)"
    using stailq_insert_after [OF at] by (simp add: holds_def zs)
  show "holds (STAILQ_REMOVE h x m) (xs @ ys)"
    using stailq_remove [OF at(1)] unfolding holds_def zs st_only_changes_def by blast
  show "STAILQ_NEXT x m = Inr (if ys = [] then None else Some (hd ys))"
    using stailq_next [OF at(1)] by (cases ys) simp_all
next
  show "if zs = [] then STAILQ_REMOVE_HEAD h m = Inl Null_deref else holds (STAILQ_REMOVE_HEAD h m) (tl zs)"
  proof (cases zs)
    case Nil
    with assms(1) show ?thesis by (simp add: STAILQ_REMOVE_HEAD_def stailq_first)
  next
    case (Cons x ys)
    with assms(1) stailq_remove [of m h "[]" x ys] have "holds (STAILQ_REMOVE h x m) ys"
      unfolding holds_def st_only_changes_def by auto
    with assms(1) Cons show ?thesis by (simp add: STAILQ_REMOVE_def stailq_first)
  qed
next
  fix h2 us
  assume "stailq m h2 us \<and> h2 \<noteq> h \<and> set zs \<inter> set us = {}"
  then show "\<exists>m'. STAILQ_CONCAT h h2 m = Inr m' \<and> stailq m' h (zs @ us) \<and> stailq m' h2 []
      \<and> st_only_changes {h, h2} (set (zs @ us)) m m'"
    using stailq_concat [OF assms(1), of h2 us] by simp
next
  show "STAILQ_FIRST h m = Inr (if zs = [] then None else Some (hd zs))" "STAILQ_EMPTY h m = Inr (zs = [])"
    using stailq_first [OF assms(1)] by (cases zs; simp add: STAILQ_EMPTY_def)+
qed (use assms(1-3) in \<open>simp_all add: holds_def stailq_insert_head stailq_insert_tail stailq_init
      stailq_last stailq_foreach stailq_remove_missing\<close>)

definition two_buffers :: st_mem where
  "two_buffers = \<lparr>st_heads = [0 \<mapsto> \<lparr>stqh_first = Some 1, stqh_last = Next 2\<rparr>,
       5 \<mapsto> \<lparr>stqh_first = None, stqh_last = First 5\<rparr>],
     st_nexts = [1 \<mapsto> Some 2, 2 \<mapsto> None, 3 \<mapsto> None]\<rparr>"

theorem stailq_refines_list_witness:
  "(\<exists>m'. STAILQ_REMOVE 0 2 two_buffers = Inr m' \<and> stailq m' 0 [1])
    \<and> STAILQ_LAST 0 two_buffers = Inr (Some 2) \<and> STAILQ_REMOVE 0 3 two_buffers = Inl Null_deref
    \<and> (\<exists>m'. STAILQ_INSERT_HEAD 5 3 two_buffers = Inr m' \<and> STAILQ_LAST 5 m' = Inr (Some 3))"
proof -
  have q: "stailq two_buffers 0 [1, 2]" "stailq two_buffers 5 []" "st_usable two_buffers 3"
    by (simp_all add: two_buffers_def stailq_def st_usable_def)
  have "3 \<notin> set [1, 2 :: nat]" by simp
  note two = stailq_refines_list [OF q(1) this q(3)] and none = stailq_refines_list [OF q(2) _ q(3)]
  from two [THEN conjunct2, THEN conjunct2, THEN conjunct1, rule_format, of "[1]" 2 "[]"]
  have "\<exists>m'. STAILQ_REMOVE 0 2 two_buffers = Inr m' \<and> stailq m' 0 [1]" by auto
  moreover from none obtain m2 where m2: "STAILQ_INSERT_HEAD 5 3 two_buffers = Inr m2" "stailq m2 5 [3]" by auto
  moreover have "STAILQ_LAST 0 two_buffers = Inr (Some 2)" "STAILQ_REMOVE 0 3 two_buffers = Inl Null_deref"
    using two by simp_all
  moreover have "STAILQ_LAST 5 m2 = Inr (Some 3)" using stailq_last [OF m2(2)] by simp
  ultimately show ?thesis using m2(1) by blast
qed

text \<open>Any sequence of the operations that the program uses behaves as on a list.\<close>

lemma stailq_is_queue:
  assumes "stailq m h xs" and "\<forall>e\<in>inserted ops. st_usable m e" and "list_ops snoc ops xs = Some (ys, outs)"
  shows "\<exists>m'. mem_ops (STAILQ_INSERT_TAIL h) (STAILQ_REMOVE h) (STAILQ_FIRST h) ops m = Inr (m', outs)
    \<and> stailq m' h ys"
  using st.refines_list assms .

text \<open>The loop that frees a chain, \<open>while ((buf = STAILQ_FIRST(q))) STAILQ_REMOVE(q, buf)\<close>, empties it in order.\<close>

partial_function (option) stailq_drain :: "nat \<Rightarrow> st_mem \<Rightarrow> (fault + nat list \<times> st_mem) option" where
  "stailq_drain h m =
     (case STAILQ_FIRST h m of
        Inl f \<Rightarrow> Some (Inl f)
      | Inr None \<Rightarrow> Some (Inr ([], m))
      | Inr (Some buf) \<Rightarrow>
          (case STAILQ_REMOVE h buf m of
             Inl f \<Rightarrow> Some (Inl f)
           | Inr m' \<Rightarrow> Option.bind (stailq_drain h m') (\<lambda>r. Some (map_sum id (map_prod ((#) buf) id) r))))"

lemma stailq_drain_all:
  "stailq m h xs \<Longrightarrow> \<exists>m'. stailq_drain h m = Some (Inr (xs, m')) \<and> stailq m' h []"
proof (induction xs arbitrary: m)
  case Nil
  then show ?case by (simp add: stailq_drain.simps stailq_first)
next
  case (Cons x xs)
  from stailq_remove [of m h "[]" x xs] Cons.prems obtain m1
    where m1: "STAILQ_REMOVE h x m = Inr m1" "stailq m1 h xs" by auto
  from Cons.IH [OF m1(2)] obtain m' where "stailq_drain h m1 = Some (Inr (xs, m'))" "stailq m' h []" by blast
  with m1 Cons.prems show ?case by (simp add: stailq_drain.simps [of h m] stailq_first)
qed

end
