(* ===== verification/Simpleq.thy ===== *)
theory Simpleq
  imports Stailq
begin

section \<open>Simple queues (src/queue.h, the \<open>SIMPLEQ\<close> macros)\<close>

text \<open>
  A simple queue has the layout of a singly-linked tail queue, and the macros that both families
  have do the same: \<open>as_stailq\<close> renames the fields, each macro is shown to commute with it,
  and what a simple queue does to its list follows from \<open>Stailq\<close>.
\<close>

record sq_head =
  sqh_first :: "nat option"
  sqh_last :: cell

record sq_mem =
  sq_heads :: "nat \<rightharpoonup> sq_head"
  sqe_next :: "nat \<rightharpoonup> nat option"

definition sqh_get :: "nat \<Rightarrow> sq_mem \<Rightarrow> fault + sq_head" where
  "sqh_get h m = (case sq_heads m h of None \<Rightarrow> Inl Use_after_free | Some x \<Rightarrow> Inr x)"

definition sqh_upd :: "nat \<Rightarrow> (sq_head \<Rightarrow> sq_head) \<Rightarrow> sq_mem \<Rightarrow> fault + sq_mem" where
  "sqh_upd h f m = bindR (sqh_get h m) (\<lambda>x. Inr (m\<lparr>sq_heads := (sq_heads m)(h \<mapsto> f x)\<rparr>))"

definition sqe_set :: "nat \<Rightarrow> nat option \<Rightarrow> sq_mem \<Rightarrow> fault + sq_mem" where
  "sqe_set e v m =
     (case sqe_next m e of
        None \<Rightarrow> Inl Use_after_free
      | Some _ \<Rightarrow> Inr (m\<lparr>sqe_next := (sqe_next m)(e \<mapsto> v)\<rparr>))"

fun sq_store :: "cell \<Rightarrow> nat option \<Rightarrow> sq_mem \<Rightarrow> fault + sq_mem" where
  "sq_store (First h) v m = sqh_upd h (sqh_first_update (\<lambda>_. v)) m"
| "sq_store (Next e) v m = sqe_set e v m"

subsection \<open>The macros\<close>

definition SIMPLEQ_HEAD_INITIALIZER :: "nat \<Rightarrow> sq_head" where
  "SIMPLEQ_HEAD_INITIALIZER h = \<lparr>sqh_first = None, sqh_last = First h\<rparr>"

definition SIMPLEQ_FIRST :: "nat \<Rightarrow> sq_mem \<Rightarrow> fault + nat option" where
  "SIMPLEQ_FIRST h m = bindR (sqh_get h m) (\<lambda>x. Inr (sqh_first x))"

definition SIMPLEQ_NEXT :: "nat \<Rightarrow> sq_mem \<Rightarrow> fault + nat option" where
  "SIMPLEQ_NEXT e m = (case sqe_next m e of None \<Rightarrow> Inl Use_after_free | Some n \<Rightarrow> Inr n)"

definition SIMPLEQ_EMPTY :: "nat \<Rightarrow> sq_mem \<Rightarrow> fault + bool" where
  "SIMPLEQ_EMPTY h m = bindR (SIMPLEQ_FIRST h m) (\<lambda>x. Inr (x = None))"

definition SIMPLEQ_INIT :: "nat \<Rightarrow> sq_mem \<Rightarrow> fault + sq_mem" where
  "SIMPLEQ_INIT h m =
     bindR (sqh_upd h (sqh_first_update (\<lambda>_. None)) m) (\<lambda>m1.
       sqh_upd h (sqh_last_update (\<lambda>_. First h)) m1)"

definition SIMPLEQ_INSERT_HEAD :: "nat \<Rightarrow> nat \<Rightarrow> sq_mem \<Rightarrow> fault + sq_mem" where
  "SIMPLEQ_INSERT_HEAD h elm m =
     bindR (SIMPLEQ_FIRST h m) (\<lambda>first.
     bindR (sqe_set elm first m) (\<lambda>m1.
     bindR (if first = None then sqh_upd h (sqh_last_update (\<lambda>_. Next elm)) m1 else Inr m1) (\<lambda>m2.
       sqh_upd h (sqh_first_update (\<lambda>_. Some elm)) m2)))"

definition SIMPLEQ_INSERT_TAIL :: "nat \<Rightarrow> nat \<Rightarrow> sq_mem \<Rightarrow> fault + sq_mem" where
  "SIMPLEQ_INSERT_TAIL h elm m =
     bindR (sqe_set elm None m) (\<lambda>m1.
     bindR (sqh_get h m1) (\<lambda>x.
     bindR (sq_store (sqh_last x) (Some elm) m1) (\<lambda>m2.
       sqh_upd h (sqh_last_update (\<lambda>_. Next elm)) m2)))"

definition SIMPLEQ_INSERT_AFTER :: "nat \<Rightarrow> nat \<Rightarrow> nat \<Rightarrow> sq_mem \<Rightarrow> fault + sq_mem" where
  "SIMPLEQ_INSERT_AFTER h listelm elm m =
     bindR (SIMPLEQ_NEXT listelm m) (\<lambda>n.
     bindR (sqe_set elm n m) (\<lambda>m1.
     bindR (if n = None then sqh_upd h (sqh_last_update (\<lambda>_. Next elm)) m1 else Inr m1) (\<lambda>m2.
       sqe_set listelm (Some elm) m2)))"

definition SIMPLEQ_REMOVE_HEAD :: "nat \<Rightarrow> sq_mem \<Rightarrow> fault + sq_mem" where
  "SIMPLEQ_REMOVE_HEAD h m =
     bindR (SIMPLEQ_FIRST h m) (\<lambda>first.
       case first of
         None \<Rightarrow> Inl Null_deref
       | Some x \<Rightarrow>
           bindR (SIMPLEQ_NEXT x m) (\<lambda>n.
           bindR (sqh_upd h (sqh_first_update (\<lambda>_. n)) m) (\<lambda>m1.
             if n = None then sqh_upd h (sqh_last_update (\<lambda>_. First h)) m1 else Inr m1)))"

definition SIMPLEQ_REMOVE_AFTER :: "nat \<Rightarrow> nat \<Rightarrow> sq_mem \<Rightarrow> fault + sq_mem" where
  "SIMPLEQ_REMOVE_AFTER h elm m =
     bindR (SIMPLEQ_NEXT elm m) (\<lambda>n.
       case n of
         None \<Rightarrow> Inl Null_deref
       | Some x \<Rightarrow>
           bindR (SIMPLEQ_NEXT x m) (\<lambda>n2.
           bindR (sqe_set elm n2 m) (\<lambda>m1.
             if n2 = None then sqh_upd h (sqh_last_update (\<lambda>_. Next elm)) m1 else Inr m1)))"

partial_function (option) simpleq_search :: "nat option \<Rightarrow> nat \<Rightarrow> sq_mem \<Rightarrow> (fault + nat) option" where
  "simpleq_search curelm elm m =
     (case curelm of
        None \<Rightarrow> Some (Inl Null_deref)
      | Some c \<Rightarrow>
          (case SIMPLEQ_NEXT c m of
             Inl f \<Rightarrow> Some (Inl f)
           | Inr n \<Rightarrow> if n = Some elm then Some (Inr c) else simpleq_search n elm m))"

declare simpleq_search.simps [code]

definition SIMPLEQ_REMOVE :: "nat \<Rightarrow> nat \<Rightarrow> sq_mem \<Rightarrow> fault + sq_mem" where
  "SIMPLEQ_REMOVE h elm m =
     bindR (SIMPLEQ_FIRST h m) (\<lambda>first.
       if first = Some elm then SIMPLEQ_REMOVE_HEAD h m
       else
         bindR (case simpleq_search first elm m of None \<Rightarrow> Inl No_return | Some r \<Rightarrow> r) (\<lambda>curelm.
         bindR (SIMPLEQ_NEXT elm m) (\<lambda>n.
         bindR (sqe_set curelm n m) (\<lambda>m1.
           if n = None then sqh_upd h (sqh_last_update (\<lambda>_. Next curelm)) m1 else Inr m1))))"

definition SIMPLEQ_CONCAT :: "nat \<Rightarrow> nat \<Rightarrow> sq_mem \<Rightarrow> fault + sq_mem" where
  "SIMPLEQ_CONCAT h1 h2 m =
     bindR (SIMPLEQ_EMPTY h2 m) (\<lambda>empty.
       if empty then Inr m
       else
         bindR (sqh_get h1 m) (\<lambda>x1.
         bindR (SIMPLEQ_FIRST h2 m) (\<lambda>first.
         bindR (sq_store (sqh_last x1) first m) (\<lambda>m1.
         bindR (sqh_get h2 m1) (\<lambda>x2.
         bindR (sqh_upd h1 (sqh_last_update (\<lambda>_. sqh_last x2)) m1) (\<lambda>m2.
           SIMPLEQ_INIT h2 m2))))))"

definition SIMPLEQ_LAST :: "nat \<Rightarrow> sq_mem \<Rightarrow> fault + nat option" where
  "SIMPLEQ_LAST h m =
     bindR (sqh_get h m) (\<lambda>x.
       if sqh_first x = None then Inr None
       else case sqh_last x of First _ \<Rightarrow> Inl Out_of_bounds | Next e \<Rightarrow> Inr (Some e))"

definition SIMPLEQ_FOREACH :: "nat \<Rightarrow> (nat \<Rightarrow> sq_mem \<Rightarrow> fault + sq_mem) \<Rightarrow> sq_mem \<Rightarrow> (fault + sq_mem) option" where
  "SIMPLEQ_FOREACH h body m =
     (case SIMPLEQ_FIRST h m of
        Inl f \<Rightarrow> Some (Inl f)
      | Inr first \<Rightarrow> foreach_loop SIMPLEQ_NEXT body first m)"

definition SIMPLEQ_FOREACH_SAFE :: "nat \<Rightarrow> (nat \<Rightarrow> sq_mem \<Rightarrow> fault + sq_mem) \<Rightarrow> sq_mem \<Rightarrow> (fault + sq_mem) option" where
  "SIMPLEQ_FOREACH_SAFE h body m =
     (case SIMPLEQ_FIRST h m of
        Inl f \<Rightarrow> Some (Inl f)
      | Inr first \<Rightarrow> foreach_safe SIMPLEQ_NEXT body first m)"

subsection \<open>The two families do the same\<close>

definition head_as_stailq :: "sq_head \<Rightarrow> st_head" where
  "head_as_stailq x = \<lparr>stqh_first = sqh_first x, stqh_last = sqh_last x\<rparr>"

definition as_stailq :: "sq_mem \<Rightarrow> st_mem" where
  "as_stailq m = \<lparr>st_heads = map_option head_as_stailq \<circ> sq_heads m, st_nexts = sqe_next m\<rparr>"

lemma map_sum_bindR:
  "map_sum id g (bindR a f) = bindR a (\<lambda>x. map_sum id g (f x))"
  by (cases a) simp_all

lemma bindR_map_sum: "bindR (map_sum id g a) f = bindR a (\<lambda>x. f (g x))"
  by (cases a) simp_all

lemma head_as_stailq_simps [simp]:
  "stqh_first (head_as_stailq x) = sqh_first x" "stqh_last (head_as_stailq x) = sqh_last x"
  "head_as_stailq (x\<lparr>sqh_first := v\<rparr>) = (head_as_stailq x)\<lparr>stqh_first := v\<rparr>"
  "head_as_stailq (x\<lparr>sqh_last := l\<rparr>) = (head_as_stailq x)\<lparr>stqh_last := l\<rparr>"
  by (simp_all add: head_as_stailq_def)

text \<open>The accesses commute with the renaming, and hence the macros, which are the same sequences of accesses.\<close>

lemma get_head_as [simp]: "get_st_head h (as_stailq m) = map_sum id head_as_stailq (sqh_get h m)"
  by (simp add: get_st_head_def sqh_get_def as_stailq_def split: option.split)

lemma upd_head_as:
  assumes "\<And>x. head_as_stailq (f x) = g (head_as_stailq x)"
  shows "upd_st_head h g (as_stailq m) = map_sum id as_stailq (sqh_upd h f m)"
proof -
  have "(as_stailq m)\<lparr>st_heads := (st_heads (as_stailq m))(h \<mapsto> g (head_as_stailq x))\<rparr>
      = as_stailq (m\<lparr>sq_heads := (sq_heads m)(h \<mapsto> f x)\<rparr>)" for x
    by (simp add: as_stailq_def map_option_o_map_upd assms)
  then show ?thesis
    by (simp add: upd_st_head_def sqh_upd_def map_sum_bindR bindR_map_sum)
qed

lemma upd_first_as [simp]:
  "upd_st_head h (stqh_first_update (\<lambda>_. v)) (as_stailq m)
     = map_sum id as_stailq (sqh_upd h (sqh_first_update (\<lambda>_. v)) m)"
  by (rule upd_head_as) simp

lemma upd_last_as [simp]:
  "upd_st_head h (stqh_last_update (\<lambda>_. l)) (as_stailq m)
     = map_sum id as_stailq (sqh_upd h (sqh_last_update (\<lambda>_. l)) m)"
  by (rule upd_head_as) simp

lemma set_next_as [simp]: "set_next e v (as_stailq m) = map_sum id as_stailq (sqe_set e v m)"
  by (simp add: set_next_def sqe_set_def as_stailq_def split: option.split)

lemma store_as [simp]: "store_st_cell l v (as_stailq m) = map_sum id as_stailq (sq_store l v m)"
  by (cases l) simp_all

lemma first_as [simp]: "STAILQ_FIRST h (as_stailq m) = SIMPLEQ_FIRST h m"
  by (simp add: STAILQ_FIRST_def SIMPLEQ_FIRST_def bindR_map_sum)

lemma next_as [simp]: "STAILQ_NEXT e (as_stailq m) = SIMPLEQ_NEXT e m"
  by (simp add: STAILQ_NEXT_def SIMPLEQ_NEXT_def as_stailq_def)

lemma init_as [simp]: "STAILQ_INIT h (as_stailq m) = map_sum id as_stailq (SIMPLEQ_INIT h m)"
  by (simp add: STAILQ_INIT_def SIMPLEQ_INIT_def map_sum_bindR bindR_map_sum)

lemma bindR_if: "bindR (if b then x else y) f = (if b then bindR x f else bindR y f)"
  by simp

lemmas as_simps = map_sum_bindR bindR_map_sum bindR_if if_distrib [of "map_sum id as_stailq"]
  option.case_distrib [of "map_sum id as_stailq"]

lemma insert_head_as: "STAILQ_INSERT_HEAD h e (as_stailq m) = map_sum id as_stailq (SIMPLEQ_INSERT_HEAD h e m)"
  by (simp add: STAILQ_INSERT_HEAD_def SIMPLEQ_INSERT_HEAD_def as_simps cong: if_cong)

lemma insert_tail_as: "STAILQ_INSERT_TAIL h e (as_stailq m) = map_sum id as_stailq (SIMPLEQ_INSERT_TAIL h e m)"
  by (simp add: STAILQ_INSERT_TAIL_def SIMPLEQ_INSERT_TAIL_def as_simps)

lemma insert_after_as: "STAILQ_INSERT_AFTER h x e (as_stailq m) = map_sum id as_stailq (SIMPLEQ_INSERT_AFTER h x e m)"
  by (simp add: STAILQ_INSERT_AFTER_def SIMPLEQ_INSERT_AFTER_def as_simps cong: if_cong)

lemma remove_head_as: "STAILQ_REMOVE_HEAD h (as_stailq m) = map_sum id as_stailq (SIMPLEQ_REMOVE_HEAD h m)"
  by (simp add: STAILQ_REMOVE_HEAD_def SIMPLEQ_REMOVE_HEAD_def as_simps cong: if_cong option.case_cong)

lemma search_as_some:
  assumes "simpleq_search c e m = Some r"
  shows "stailq_search c e (as_stailq m) = Some r"
proof (induction rule: simpleq_search.raw_induct [OF _ assms])
  case (1 search c e m r)
  then show ?case
    by (cases c) (simp_all add: stailq_search.simps [of None] stailq_search.simps [of "Some a" for a] split: sum.splits if_splits)
qed

lemma search_as_some':
  assumes "stailq_search c e sm = Some r" and "sm = as_stailq m"
  shows "simpleq_search c e m = Some r"
proof -
  have "\<forall>m. sm = as_stailq m \<longrightarrow> simpleq_search c e m = Some r"
  proof (induction rule: stailq_search.raw_induct [OF _ assms(1)])
    case (1 search c e sm r)
    then show ?case
      by (cases c) (auto simp: simpleq_search.simps [of None] simpleq_search.simps [of "Some a" for a] split: sum.splits if_splits)
  qed
  with assms(2) show ?thesis by blast
qed

lemma search_as [simp]: "stailq_search c e (as_stailq m) = simpleq_search c e m"
  using search_as_some [of c e m] search_as_some' [of c e "as_stailq m" _ m]
  by (cases "simpleq_search c e m"; cases "stailq_search c e (as_stailq m)") auto

lemma remove_as: "STAILQ_REMOVE h e (as_stailq m) = map_sum id as_stailq (SIMPLEQ_REMOVE h e m)"
  by (simp add: STAILQ_REMOVE_def SIMPLEQ_REMOVE_def as_simps remove_head_as cong: if_cong)

lemma empty_as: "STAILQ_EMPTY h (as_stailq m) = SIMPLEQ_EMPTY h m"
  by (simp add: STAILQ_EMPTY_def SIMPLEQ_EMPTY_def)

lemma last_as: "STAILQ_LAST h (as_stailq m) = SIMPLEQ_LAST h m"
  by (simp add: STAILQ_LAST_def SIMPLEQ_LAST_def bindR_map_sum cong: if_cong)

lemma concat_as: "STAILQ_CONCAT h1 h2 (as_stailq m) = map_sum id as_stailq (SIMPLEQ_CONCAT h1 h2 m)"
  by (simp add: STAILQ_CONCAT_def SIMPLEQ_CONCAT_def as_simps empty_as cong: if_cong)

subsection \<open>The list a queue holds\<close>

definition simpleq :: "sq_mem \<Rightarrow> nat \<Rightarrow> nat list \<Rightarrow> bool" where
  "simpleq m h xs \<longleftrightarrow> stailq (as_stailq m) h xs"

definition sq_usable :: "sq_mem \<Rightarrow> nat \<Rightarrow> bool" where
  "sq_usable m e \<longleftrightarrow> sqe_next m e \<noteq> None"

lemma usable_as [simp]: "st_usable (as_stailq m) = sq_usable m"
  by (simp add: fun_eq_iff st_usable_def sq_usable_def as_stailq_def)

text \<open>Whatever a macro of the other family is known to do, the macro it corresponds to does.\<close>

lemma transfer_op:
  assumes "\<exists>m'. map_sum id as_stailq op = Inr m' \<and> stailq m' h ys \<and> st_only_changes H A (as_stailq m) m'"
  shows "\<exists>m'. op = Inr m' \<and> simpleq m' h ys \<and> sq_usable m' = sq_usable m"
proof (cases op)
  case (Inl f)
  with assms show ?thesis by simp
next
  case (Inr m1)
  with assms show ?thesis by (auto simp: simpleq_def st_only_changes_def)
qed

lemma simpleq_initializer:
  "simpleq (m\<lparr>sq_heads := (sq_heads m)(h \<mapsto> SIMPLEQ_HEAD_INITIALIZER h)\<rparr>) h []"
  by (simp add: simpleq_def stailq_def as_stailq_def SIMPLEQ_HEAD_INITIALIZER_def head_as_stailq_def)

lemma simpleq_first: "simpleq m h xs \<Longrightarrow> SIMPLEQ_FIRST h m = Inr (first_of xs None)"
  using stailq_first [of "as_stailq m" h xs] by (simp add: simpleq_def)

lemma simpleq_next: "simpleq m h (xs @ x # ys) \<Longrightarrow> SIMPLEQ_NEXT x m = Inr (first_of ys None)"
  using stailq_next [of "as_stailq m" h xs x ys] by (simp add: simpleq_def)

text \<open>\<open>SIMPLEQ_REMOVE_AFTER\<close> has no counterpart.\<close>

lemma simpleq_remove_after:
  assumes "simpleq m h (xs @ x # y # ys)"
  shows "\<exists>m'. SIMPLEQ_REMOVE_AFTER h x m = Inr m' \<and> simpleq m' h (xs @ x # ys) \<and> sq_usable m' = sq_usable m"
proof -
  from assms have x: "sqe_next m x = Some (Some y)" and y: "sqe_next m y = Some (first_of ys None)"
    and h: "\<exists>hd. sq_heads m h = Some hd"
    by (auto simp: simpleq_def stailq_def as_stailq_def)
  from h obtain hd where hd: "sq_heads m h = Some hd" ..
  have "SIMPLEQ_REMOVE_AFTER h x m = Inr (if ys = []
      then m\<lparr>sqe_next := (sqe_next m)(x \<mapsto> None), sq_heads := (sq_heads m)(h \<mapsto> hd\<lparr>sqh_last := Next x\<rparr>)\<rparr>
      else m\<lparr>sqe_next := (sqe_next m)(x \<mapsto> first_of ys None)\<rparr>)"
    using x y hd by (cases ys) (simp_all add: SIMPLEQ_REMOVE_AFTER_def SIMPLEQ_NEXT_def sqe_set_def sqh_upd_def sqh_get_def)
  with assms hd show ?thesis
    by (cases ys) (auto simp: simpleq_def stailq_def as_stailq_def head_as_stailq_def sq_usable_def fun_eq_iff)
qed

lemma simpleq_remove_after_last:
  "simpleq m h (xs @ [x]) \<Longrightarrow> SIMPLEQ_REMOVE_AFTER h x m = Inl Null_deref"
  by (simp add: SIMPLEQ_REMOVE_AFTER_def simpleq_next)

interpretation sq: linked_queue "\<lambda>m. simpleq m h" sq_usable "SIMPLEQ_INSERT_TAIL h" "SIMPLEQ_REMOVE h" "SIMPLEQ_FIRST h"
  for h
proof
  fix m xs e
  assume "simpleq m h xs" and "sq_usable m e" and "e \<notin> set xs"
  then show "\<exists>m'. SIMPLEQ_INSERT_TAIL h e m = Inr m' \<and> simpleq m' h (snoc e xs) \<and> sq_usable m' = sq_usable m"
    using transfer_op [of "SIMPLEQ_INSERT_TAIL h e m"] stailq_insert_tail [of "as_stailq m" h xs e]
    by (simp add: insert_tail_as snoc_def simpleq_def)
next
  fix m xs e
  assume q: "simpleq m h xs" and "e \<in> set xs"
  from split_list_first [OF this(2)] obtain ys zs where xs: "xs = ys @ e # zs" "e \<notin> set ys" by blast
  then have "remove1 e xs = ys @ zs" by (simp add: remove1_append)
  then show "\<exists>m'. SIMPLEQ_REMOVE h e m = Inr m' \<and> simpleq m' h (remove1 e xs) \<and> sq_usable m' = sq_usable m"
    using transfer_op [of "SIMPLEQ_REMOVE h e m"] stailq_remove [of "as_stailq m" h ys e zs] q xs
    by (simp add: remove_as simpleq_def)
qed (rule simpleq_first)

subsection \<open>Properties\<close>

text \<open>Simple queues and singly-linked tail queues are one data structure under two sets of names: every
  macro that both families have does the same to the same memory, faults and endless searches
  included, so that all that holds of one family holds of the other.\<close>

theorem simpleq_is_stailq:
  defines "same op op' \<equiv> op' = map_sum id as_stailq op"
  shows "same (SIMPLEQ_INIT h m) (STAILQ_INIT h (as_stailq m))
    \<and> same (SIMPLEQ_INSERT_HEAD h e m) (STAILQ_INSERT_HEAD h e (as_stailq m))
    \<and> same (SIMPLEQ_INSERT_TAIL h e m) (STAILQ_INSERT_TAIL h e (as_stailq m))
    \<and> same (SIMPLEQ_INSERT_AFTER h x e m) (STAILQ_INSERT_AFTER h x e (as_stailq m))
    \<and> same (SIMPLEQ_REMOVE_HEAD h m) (STAILQ_REMOVE_HEAD h (as_stailq m))
    \<and> same (SIMPLEQ_REMOVE h e m) (STAILQ_REMOVE h e (as_stailq m))
    \<and> same (SIMPLEQ_CONCAT h h2 m) (STAILQ_CONCAT h h2 (as_stailq m))
    \<and> SIMPLEQ_FIRST h m = STAILQ_FIRST h (as_stailq m)
    \<and> SIMPLEQ_NEXT e m = STAILQ_NEXT e (as_stailq m)
    \<and> SIMPLEQ_EMPTY h m = STAILQ_EMPTY h (as_stailq m)
    \<and> SIMPLEQ_LAST h m = STAILQ_LAST h (as_stailq m)"
  unfolding same_def
  by (simp add: insert_head_as insert_tail_as insert_after_as remove_head_as remove_as concat_as
      empty_as last_as)

lemma simpleq_foreach_safe_frees:
  defines "free \<equiv> \<lambda>e m. case sqe_next m e of
      None \<Rightarrow> Inl Use_after_free | Some _ \<Rightarrow> Inr (m\<lparr>sqe_next := (sqe_next m)(e := None)\<rparr>)"
  assumes "simpleq m h xs"
  shows "\<exists>m'. SIMPLEQ_FOREACH_SAFE h free m = Some (Inr m') \<and> sqe_next m' = sqe_next m |` (- set xs)"
    and "xs \<noteq> [] \<Longrightarrow> SIMPLEQ_FOREACH h free m = Some (Inl Use_after_free)"
proof -
  have ch: "distinct xs" "st_chain (sqe_next m) xs None"
    using assms(2) by (simp_all add: simpleq_def stailq_def as_stailq_def)
  have "\<exists>m'. foreach_safe SIMPLEQ_NEXT free (first_of xs None) m = Some (Inr m')
    \<and> sqe_next m' = sqe_next m |` (- set xs)"
    by (rule foreach_safe_frees) (use ch in \<open>auto simp: SIMPLEQ_NEXT_def free_def\<close>)
  then show "\<exists>m'. SIMPLEQ_FOREACH_SAFE h free m = Some (Inr m') \<and> sqe_next m' = sqe_next m |` (- set xs)"
    using assms(2) by (simp add: SIMPLEQ_FOREACH_SAFE_def simpleq_first)
  show "SIMPLEQ_FOREACH h free m = Some (Inl Use_after_free)" if xs: "xs \<noteq> []"
  proof -
    from xs obtain x ys where x: "xs = x # ys" by (cases xs) auto
    with ch(2) have "free x m = Inr (m\<lparr>sqe_next := (sqe_next m)(x := None)\<rparr>)" by (simp add: free_def)
    from foreach_loop_first [of free, OF this, of SIMPLEQ_NEXT Use_after_free] assms(2) x show ?thesis
      by (simp add: SIMPLEQ_FOREACH_def simpleq_first SIMPLEQ_NEXT_def)
  qed
qed

end
