(* ===== verification/Slist.thy ===== *)
theory Slist
  imports Queue_Contract
begin

section \<open>Singly-linked lists (src/queue.h, the \<open>SLIST\<close> macros)\<close>

text \<open>
  A head is one pointer and an element's entry is one link.  \<open>SLIST_REMOVE\<close> searches for the
  element before the one to remove; when there is none the search follows NULL, and on a
  cyclic list it may not end, which is the fault \<open>No_return\<close>.
\<close>

record sl_mem =
  slh_first :: "nat \<rightharpoonup> nat option"
  sle_next :: "nat \<rightharpoonup> nat option"

definition slh_set :: "nat \<Rightarrow> nat option \<Rightarrow> sl_mem \<Rightarrow> fault + sl_mem" where
  "slh_set h v m =
     (case slh_first m h of
        None \<Rightarrow> Inl Use_after_free
      | Some _ \<Rightarrow> Inr (m\<lparr>slh_first := (slh_first m)(h \<mapsto> v)\<rparr>))"

definition sle_set :: "nat \<Rightarrow> nat option \<Rightarrow> sl_mem \<Rightarrow> fault + sl_mem" where
  "sle_set e v m =
     (case sle_next m e of
        None \<Rightarrow> Inl Use_after_free
      | Some _ \<Rightarrow> Inr (m\<lparr>sle_next := (sle_next m)(e \<mapsto> v)\<rparr>))"

subsection \<open>The macros\<close>

definition SLIST_HEAD_INITIALIZER :: "nat option" where
  "SLIST_HEAD_INITIALIZER = None"

definition SLIST_FIRST :: "nat \<Rightarrow> sl_mem \<Rightarrow> fault + nat option" where
  "SLIST_FIRST h m = (case slh_first m h of None \<Rightarrow> Inl Use_after_free | Some x \<Rightarrow> Inr x)"

definition SLIST_NEXT :: "nat \<Rightarrow> sl_mem \<Rightarrow> fault + nat option" where
  "SLIST_NEXT e m = (case sle_next m e of None \<Rightarrow> Inl Use_after_free | Some n \<Rightarrow> Inr n)"

definition SLIST_EMPTY :: "nat \<Rightarrow> sl_mem \<Rightarrow> fault + bool" where
  "SLIST_EMPTY h m = bindR (SLIST_FIRST h m) (\<lambda>x. Inr (x = None))"

definition SLIST_INIT :: "nat \<Rightarrow> sl_mem \<Rightarrow> fault + sl_mem" where
  "SLIST_INIT h m = slh_set h None m"

definition SLIST_INSERT_AFTER :: "nat \<Rightarrow> nat \<Rightarrow> sl_mem \<Rightarrow> fault + sl_mem" where
  "SLIST_INSERT_AFTER slistelm elm m =
     bindR (SLIST_NEXT slistelm m) (\<lambda>n.
     bindR (sle_set elm n m) (\<lambda>m1.
       sle_set slistelm (Some elm) m1))"

definition SLIST_INSERT_HEAD :: "nat \<Rightarrow> nat \<Rightarrow> sl_mem \<Rightarrow> fault + sl_mem" where
  "SLIST_INSERT_HEAD h elm m =
     bindR (SLIST_FIRST h m) (\<lambda>first.
     bindR (sle_set elm first m) (\<lambda>m1.
       slh_set h (Some elm) m1))"

definition SLIST_REMOVE_AFTER :: "nat \<Rightarrow> sl_mem \<Rightarrow> fault + sl_mem" where
  "SLIST_REMOVE_AFTER slistelm m =
     bindR (SLIST_NEXT slistelm m) (\<lambda>n.
       case n of
         None \<Rightarrow> Inl Null_deref
       | Some x \<Rightarrow> bindR (SLIST_NEXT x m) (\<lambda>n2. sle_set slistelm n2 m))"

definition SLIST_REMOVE_HEAD :: "nat \<Rightarrow> sl_mem \<Rightarrow> fault + sl_mem" where
  "SLIST_REMOVE_HEAD h m =
     bindR (SLIST_FIRST h m) (\<lambda>first.
       case first of
         None \<Rightarrow> Inl Null_deref
       | Some x \<Rightarrow> bindR (SLIST_NEXT x m) (\<lambda>n. slh_set h n m))"

partial_function (option) slist_search :: "nat option \<Rightarrow> nat \<Rightarrow> sl_mem \<Rightarrow> (fault + nat) option" where
  "slist_search curelm elm m =
     (case curelm of
        None \<Rightarrow> Some (Inl Null_deref)
      | Some c \<Rightarrow>
          (case SLIST_NEXT c m of
             Inl f \<Rightarrow> Some (Inl f)
           | Inr n \<Rightarrow> if n = Some elm then Some (Inr c) else slist_search n elm m))"

declare slist_search.simps [code]

definition SLIST_REMOVE :: "nat \<Rightarrow> nat \<Rightarrow> sl_mem \<Rightarrow> fault + sl_mem" where
  "SLIST_REMOVE h elm m =
     bindR (SLIST_FIRST h m) (\<lambda>first.
       if first = Some elm then SLIST_REMOVE_HEAD h m
       else
         bindR (case slist_search first elm m of None \<Rightarrow> Inl No_return | Some r \<Rightarrow> r) (\<lambda>curelm.
         bindR (SLIST_NEXT elm m) (\<lambda>n.
           sle_set curelm n m)))"

definition SLIST_FOREACH :: "nat \<Rightarrow> (nat \<Rightarrow> sl_mem \<Rightarrow> fault + sl_mem) \<Rightarrow> sl_mem \<Rightarrow> (fault + sl_mem) option" where
  "SLIST_FOREACH h body m =
     (case SLIST_FIRST h m of
        Inl f \<Rightarrow> Some (Inl f)
      | Inr first \<Rightarrow> foreach_loop SLIST_NEXT body first m)"

definition SLIST_FOREACH_SAFE :: "nat \<Rightarrow> (nat \<Rightarrow> sl_mem \<Rightarrow> fault + sl_mem) \<Rightarrow> sl_mem \<Rightarrow> (fault + sl_mem) option" where
  "SLIST_FOREACH_SAFE h body m =
     (case SLIST_FIRST h m of
        Inl f \<Rightarrow> Some (Inl f)
      | Inr first \<Rightarrow> foreach_safe SLIST_NEXT body first m)"

subsection \<open>The list a head holds\<close>

definition slist :: "sl_mem \<Rightarrow> nat \<Rightarrow> nat list \<Rightarrow> bool" where
  "slist m h xs \<longleftrightarrow> distinct xs \<and> slh_first m h = Some (first_of xs None)
     \<and> st_chain (sle_next m) xs None"

definition sl_usable :: "sl_mem \<Rightarrow> nat \<Rightarrow> bool" where
  "sl_usable m e \<longleftrightarrow> sle_next m e \<noteq> None"

definition sl_only_changes :: "nat set \<Rightarrow> nat set \<Rightarrow> sl_mem \<Rightarrow> sl_mem \<Rightarrow> bool" where
  "sl_only_changes H A m m' \<longleftrightarrow> (\<forall>h. h \<notin> H \<longrightarrow> slh_first m' h = slh_first m h)
     \<and> (\<forall>x. x \<notin> A \<longrightarrow> sle_next m' x = sle_next m x) \<and> sl_usable m' = sl_usable m"

lemmas sl_mem_simps = slh_set_def sle_set_def SLIST_FIRST_def SLIST_NEXT_def
lemmas sl_rel_simps = slist_def sl_only_changes_def sl_usable_def

lemma slist_init:
  assumes "slh_first m h \<noteq> None"
  shows "\<exists>m'. SLIST_INIT h m = Inr m' \<and> slist m' h [] \<and> sl_only_changes {h} {} m m'"
  using assms by (auto simp: SLIST_INIT_def sl_mem_simps sl_rel_simps fun_eq_iff)

lemma slist_initializer: "slist (m\<lparr>slh_first := (slh_first m)(h \<mapsto> SLIST_HEAD_INITIALIZER)\<rparr>) h []"
  by (simp add: slist_def SLIST_HEAD_INITIALIZER_def)

lemma slist_first: "slist m h xs \<Longrightarrow> SLIST_FIRST h m = Inr (first_of xs None)"
  by (simp add: SLIST_FIRST_def slist_def)

lemma slist_empty: "slist m h xs \<Longrightarrow> SLIST_EMPTY h m = Inr (xs = [])"
  by (cases xs) (simp_all add: SLIST_EMPTY_def slist_first)

lemma slist_next: "slist m h (xs @ x # ys) \<Longrightarrow> SLIST_NEXT x m = Inr (first_of ys None)"
  by (simp add: SLIST_NEXT_def slist_def)

lemma slist_insert_head:
  assumes "slist m h xs" and "e \<notin> set xs" and "sl_usable m e"
  shows "\<exists>m'. SLIST_INSERT_HEAD h e m = Inr m' \<and> slist m' h (e # xs) \<and> sl_only_changes {h} {e} m m'"
  using assms by (auto simp: SLIST_INSERT_HEAD_def sl_mem_simps sl_rel_simps fun_eq_iff)

lemma slist_insert_after:
  assumes "slist m h (xs @ x # ys)" and "e \<notin> set (xs @ x # ys)" and "sl_usable m e"
  shows "\<exists>m'. SLIST_INSERT_AFTER x e m = Inr m' \<and> slist m' h (xs @ x # e # ys)
    \<and> sl_only_changes {} {x, e} m m'"
  using assms by (auto simp: SLIST_INSERT_AFTER_def sl_mem_simps sl_rel_simps fun_eq_iff)

lemma slist_remove_after:
  assumes "slist m h (xs @ x # y # ys)"
  shows "\<exists>m'. SLIST_REMOVE_AFTER x m = Inr m' \<and> slist m' h (xs @ x # ys) \<and> sl_only_changes {} {x} m m'"
  using assms by (auto simp: SLIST_REMOVE_AFTER_def sl_mem_simps sl_rel_simps fun_eq_iff)

lemma slist_remove_after_last:
  "slist m h (xs @ [x]) \<Longrightarrow> SLIST_REMOVE_AFTER x m = Inl Null_deref"
  by (simp add: SLIST_REMOVE_AFTER_def slist_next)

lemma slist_remove_head:
  assumes "slist m h (x # xs)"
  shows "\<exists>m'. SLIST_REMOVE_HEAD h m = Inr m' \<and> slist m' h xs \<and> sl_only_changes {h} {} m m'"
  using assms by (auto simp: SLIST_REMOVE_HEAD_def sl_mem_simps sl_rel_simps)

lemma slist_search_found:
  "slist m h (zs @ ys @ c # e # xs) \<Longrightarrow> slist_search (first_of (ys @ c # e # xs) None) e m = Some (Inr c)"
proof (induction ys arbitrary: zs)
  case Nil
  then show ?case using slist_next [of m h zs c "e # xs"] by (simp add: slist_search.simps)
next
  case (Cons y ys)
  have "first_of (ys @ c # e # xs) None \<noteq> Some e"
    using Cons.prems by (cases ys) (auto simp: slist_def)
  with Cons.IH [of "zs @ [y]"] Cons.prems slist_next [of m h zs y "ys @ c # e # xs"] show ?case
    by (simp add: slist_search.simps [of "Some y"])
qed

lemma slist_search_missing:
  "slist m h (zs @ ys) \<Longrightarrow> e \<notin> set ys \<Longrightarrow> slist_search (first_of ys None) e m = Some (Inl Null_deref)"
proof (induction ys arbitrary: zs)
  case Nil
  then show ?case by (simp add: slist_search.simps)
next
  case (Cons y ys)
  have "first_of ys None \<noteq> Some e" using Cons.prems(2) by (cases ys) auto
  with Cons.IH [of "zs @ [y]"] Cons.prems slist_next [of m h zs y ys] show ?case
    by (simp add: slist_search.simps [of "Some y"])
qed

lemma slist_remove:
  assumes "slist m h (xs @ e # ys)"
  shows "\<exists>m'. SLIST_REMOVE h e m = Inr m' \<and> slist m' h (xs @ ys) \<and> sl_only_changes {h} (set xs) m m'"
proof (cases xs rule: rev_cases)
  case Nil
  with slist_remove_head [of m h e ys] assms show ?thesis
    by (auto simp: SLIST_REMOVE_def slist_first)
next
  case (snoc zs z)
  have find: "slist_search (first_of (zs @ z # e # ys) None) e m = Some (Inr z)"
    using slist_search_found [of m h "[]" zs z e ys] assms snoc by simp
  have "first_of (zs @ z # e # ys) None \<noteq> Some e"
    using assms snoc by (cases zs) (auto simp: slist_def)
  with find assms snoc show ?thesis
    by (auto simp: SLIST_REMOVE_def sl_mem_simps sl_rel_simps fun_eq_iff)
qed

lemma slist_remove_missing:
  assumes "slist m h xs" and "e \<notin> set xs"
  shows "SLIST_REMOVE h e m = Inl Null_deref"
proof -
  have "first_of xs None \<noteq> Some e" using assms(2) by (cases xs) auto
  with slist_search_missing [of m h "[]" xs e] assms show ?thesis
    by (simp add: SLIST_REMOVE_def slist_first)
qed

interpretation sl: linked_stack "\<lambda>m. slist m h" sl_usable "SLIST_INSERT_HEAD h" "SLIST_REMOVE h" "SLIST_FIRST h"
  for h
proof
  fix m xs e
  assume "slist m h xs" and "sl_usable m e" and "e \<notin> set xs"
  then show "\<exists>m'. SLIST_INSERT_HEAD h e m = Inr m' \<and> slist m' h (e # xs) \<and> sl_usable m' = sl_usable m"
    using slist_insert_head [of m h xs e] by (auto simp: sl_only_changes_def)
next
  fix m xs e
  assume q: "slist m h xs" and "e \<in> set xs"
  from split_list_first [OF this(2)] obtain ys zs where xs: "xs = ys @ e # zs" "e \<notin> set ys" by blast
  then have "remove1 e xs = ys @ zs" by (simp add: remove1_append)
  then show "\<exists>m'. SLIST_REMOVE h e m = Inr m' \<and> slist m' h (remove1 e xs) \<and> sl_usable m' = sl_usable m"
    using slist_remove [of m h ys e zs] q xs by (auto simp: sl_only_changes_def)
qed (rule slist_first)

subsection \<open>Freeing a list from within its own traversal\<close>

text \<open>The usual body of a \<open>SAFE\<close> traversal: the element is given back, its memory is gone.\<close>

definition sl_free :: "nat \<Rightarrow> sl_mem \<Rightarrow> fault + sl_mem" where
  "sl_free e m = (case sle_next m e of
     None \<Rightarrow> Inl Use_after_free | Some _ \<Rightarrow> Inr (m\<lparr>sle_next := (sle_next m)(e := None)\<rparr>))"

lemma slist_foreach_safe_frees:
  assumes "slist m h xs"
  shows "\<exists>m'. SLIST_FOREACH_SAFE h sl_free m = Some (Inr m') \<and> sle_next m' = sle_next m |` (- set xs)"
proof -
  have "\<exists>m'. foreach_safe SLIST_NEXT sl_free (first_of xs None) m = Some (Inr m')
    \<and> sle_next m' = sle_next m |` (- set xs)"
    by (rule foreach_safe_frees) (use assms in \<open>auto simp: slist_def SLIST_NEXT_def sl_free_def\<close>)
  with assms show ?thesis by (simp add: SLIST_FOREACH_SAFE_def slist_first)
qed

lemma slist_foreach_frees_faults:
  assumes "slist m h (x # xs)"
  shows "SLIST_FOREACH h sl_free m = Some (Inl Use_after_free)"
proof -
  have "sl_free x m = Inr (m\<lparr>sle_next := (sle_next m)(x := None)\<rparr>)"
    using assms by (simp add: sl_free_def slist_def)
  from foreach_loop_first [of sl_free, OF this, of SLIST_NEXT Use_after_free] assms show ?thesis
    by (simp add: SLIST_FOREACH_def slist_first SLIST_NEXT_def)
qed

subsection \<open>Properties\<close>

text \<open>A singly-linked list is a list: on a head that holds \<open>xs\<close> each macro does to the pointers what the
  list operation does to \<open>xs\<close>; removing an element that is not in the list, or the one after
  the last, follows NULL; a SAFE traversal whose body frees the element visits all elements and
  ends, a plain one reads the link of the element it has just freed.\<close>

theorem slist_refines_list:
  assumes "slist m h (xs @ x # ys)" and "e \<notin> set (xs @ x # ys)" and "sl_usable m e"
  defines "holds op zs \<equiv> \<exists>m'. op = Inr m' \<and> slist m' h zs
      \<and> sl_only_changes {h} (insert e (set (xs @ x # ys))) m m'"
  shows "holds (SLIST_INSERT_HEAD h e m) (e # xs @ x # ys)
    \<and> holds (SLIST_INSERT_AFTER x e m) (xs @ x # e # ys)
    \<and> holds (SLIST_REMOVE h x m) (xs @ ys)
    \<and> (if ys = [] then SLIST_REMOVE_AFTER x m = Inl Null_deref
       else holds (SLIST_REMOVE_AFTER x m) (xs @ x # tl ys))
    \<and> SLIST_REMOVE h e m = Inl Null_deref
    \<and> (\<exists>m'. SLIST_FOREACH_SAFE h sl_free m = Some (Inr m')
         \<and> sle_next m' = sle_next m |` (- set (xs @ x # ys)))
    \<and> SLIST_FOREACH h sl_free m = Some (Inl Use_after_free)"
proof -
  have grow: "sl_only_changes {h} (insert e (set (xs @ x # ys))) m m'"
    if "sl_only_changes H A m m'" and "H \<subseteq> {h}" and "A \<subseteq> insert e (set (xs @ x # ys))" for H A m'
    using that unfolding sl_only_changes_def by blast
  have "holds (SLIST_REMOVE h x m) (xs @ ys)"
    using slist_remove [OF assms(1)] grow [of "{h}" "set xs"] unfolding holds_def by auto
  moreover have "holds (SLIST_INSERT_HEAD h e m) (e # xs @ x # ys)"
    using slist_insert_head [OF assms(1-3)] grow [of "{h}" "{e}"] unfolding holds_def by auto
  moreover have "holds (SLIST_INSERT_AFTER x e m) (xs @ x # e # ys)"
    using slist_insert_after [OF assms(1-3)] grow [of "{}" "{x, e}"] unfolding holds_def by auto
  moreover have "holds (SLIST_REMOVE_AFTER x m) (xs @ x # tl ys)" if "ys \<noteq> []"
    using slist_remove_after [of m h xs x "hd ys" "tl ys"] assms(1) that grow [of "{}" "{x}"]
    unfolding holds_def by auto
  moreover have "SLIST_FOREACH h sl_free m = Some (Inl Use_after_free)"
    using slist_foreach_frees_faults [of m h "hd (xs @ [x])" "tl (xs @ x # ys)"] assms(1) by (cases xs) auto
  moreover have "SLIST_REMOVE_AFTER x m = Inl Null_deref" if "ys = []"
    using slist_remove_after_last [of m h xs x] assms(1) that by simp
  ultimately show ?thesis
    using slist_remove_missing [OF assms(1,2)] slist_foreach_safe_frees [OF assms(1)] by simp
qed

definition three_links :: sl_mem where
  "three_links = \<lparr>slh_first = [10 \<mapsto> Some 2], sle_next = [2 \<mapsto> Some 3, 3 \<mapsto> None, 4 \<mapsto> None]\<rparr>"

theorem slist_refines_list_witness:
  "(\<exists>m'. SLIST_REMOVE 10 3 three_links = Inr m' \<and> slist m' 10 [2])
    \<and> SLIST_REMOVE_AFTER 3 three_links = Inl Null_deref"
proof -
  have "slist three_links 10 ([2] @ 3 # [])" "sl_usable three_links 4"
    by (simp_all add: three_links_def slist_def sl_usable_def)
  from slist_refines_list [OF this(1) _ this(2)] show ?thesis by auto
qed

end
