(* ===== verification/Lists.thy ===== *)
theory Lists
  imports Queue_Contract
begin

section \<open>Doubly-linked lists (src/queue.h, the \<open>LIST\<close> macros)\<close>

text \<open>
  A head is one pointer; an entry has a link to the next element and the address of the cell
  that points to the element.  The checks that \<open>QUEUEDEBUG\<close> compiles into the macros are part
  of the definitions: \<open>dbg\<close> says whether it is defined.  A failed check is \<open>err(1, ...)\<close>,
  the fault \<open>Exited 1\<close>; a removed element is then filled with the address 1 (\<open>WILD\<close>), which is
  the address of no object, so that following it is a fault.
\<close>

record list_entry =
  le_next :: "nat option"
  le_prev :: cell

record ls_mem =
  lh_first :: "nat \<rightharpoonup> nat option"
  ls_elems :: "nat \<rightharpoonup> list_entry"

definition WILD :: nat where "WILD = 1"

definition lh_set :: "nat \<Rightarrow> nat option \<Rightarrow> ls_mem \<Rightarrow> fault + ls_mem" where
  "lh_set h v m =
     (case lh_first m h of
        None \<Rightarrow> Inl Use_after_free
      | Some _ \<Rightarrow> Inr (m\<lparr>lh_first := (lh_first m)(h \<mapsto> v)\<rparr>))"

definition le_get :: "nat \<Rightarrow> ls_mem \<Rightarrow> fault + list_entry" where
  "le_get e m = (case ls_elems m e of None \<Rightarrow> Inl Use_after_free | Some x \<Rightarrow> Inr x)"

definition le_upd :: "nat \<Rightarrow> (list_entry \<Rightarrow> list_entry) \<Rightarrow> ls_mem \<Rightarrow> fault + ls_mem" where
  "le_upd e f m = bindR (le_get e m) (\<lambda>x. Inr (m\<lparr>ls_elems := (ls_elems m)(e \<mapsto> f x)\<rparr>))"

subsection \<open>Access\<close>

definition LIST_HEAD_INITIALIZER :: "nat option" where
  "LIST_HEAD_INITIALIZER = None"

definition LIST_FIRST :: "nat \<Rightarrow> ls_mem \<Rightarrow> fault + nat option" where
  "LIST_FIRST h m = (case lh_first m h of None \<Rightarrow> Inl Use_after_free | Some x \<Rightarrow> Inr x)"

definition LIST_NEXT :: "nat \<Rightarrow> ls_mem \<Rightarrow> fault + nat option" where
  "LIST_NEXT e m = bindR (le_get e m) (\<lambda>x. Inr (le_next x))"

definition LIST_EMPTY :: "nat \<Rightarrow> ls_mem \<Rightarrow> fault + bool" where
  "LIST_EMPTY h m = bindR (LIST_FIRST h m) (\<lambda>x. Inr (x = None))"

fun le_load :: "cell \<Rightarrow> ls_mem \<Rightarrow> fault + nat option" where
  "le_load (First h) m = LIST_FIRST h m"
| "le_load (Next e) m = LIST_NEXT e m"

fun le_store :: "cell \<Rightarrow> nat option \<Rightarrow> ls_mem \<Rightarrow> fault + ls_mem" where
  "le_store (First h) v m = lh_set h v m"
| "le_store (Next e) v m = le_upd e (le_next_update (\<lambda>_. v)) m"

definition LIST_FOREACH :: "nat \<Rightarrow> (nat \<Rightarrow> ls_mem \<Rightarrow> fault + ls_mem) \<Rightarrow> ls_mem \<Rightarrow> (fault + ls_mem) option" where
  "LIST_FOREACH h body m =
     (case LIST_FIRST h m of
        Inl f \<Rightarrow> Some (Inl f)
      | Inr first \<Rightarrow> foreach_loop LIST_NEXT body first m)"

definition LIST_FOREACH_SAFE :: "nat \<Rightarrow> (nat \<Rightarrow> ls_mem \<Rightarrow> fault + ls_mem) \<Rightarrow> ls_mem \<Rightarrow> (fault + ls_mem) option" where
  "LIST_FOREACH_SAFE h body m =
     (case LIST_FIRST h m of
        Inl f \<Rightarrow> Some (Inl f)
      | Inr first \<Rightarrow> foreach_safe LIST_NEXT body first m)"

subsection \<open>The checks\<close>

definition QUEUEDEBUG_LIST_INSERT_HEAD :: "bool \<Rightarrow> nat \<Rightarrow> ls_mem \<Rightarrow> fault + unit" where
  "QUEUEDEBUG_LIST_INSERT_HEAD dbg h m =
     (if \<not> dbg then Inr ()
      else
        bindR (LIST_FIRST h m) (\<lambda>first.
          case first of
            None \<Rightarrow> Inr ()
          | Some x \<Rightarrow> bindR (le_get x m) (\<lambda>y. if le_prev y \<noteq> First h then Inl (Exited 1) else Inr ())))"

definition QUEUEDEBUG_LIST_OP :: "bool \<Rightarrow> nat \<Rightarrow> ls_mem \<Rightarrow> fault + unit" where
  "QUEUEDEBUG_LIST_OP dbg elm m =
     (if \<not> dbg then Inr ()
      else
        bindR (le_get elm m) (\<lambda>x.
        bindR (case le_next x of
                 None \<Rightarrow> Inr ()
               | Some n \<Rightarrow> bindR (le_get n m) (\<lambda>y. if le_prev y \<noteq> Next elm then Inl (Exited 1) else Inr ())) (\<lambda>_.
        bindR (le_load (le_prev x) m) (\<lambda>v. if v \<noteq> Some elm then Inl (Exited 1) else Inr ()))))"

definition QUEUEDEBUG_LIST_POSTREMOVE :: "bool \<Rightarrow> nat \<Rightarrow> ls_mem \<Rightarrow> fault + ls_mem" where
  "QUEUEDEBUG_LIST_POSTREMOVE dbg elm m =
     (if \<not> dbg then Inr m
      else
        bindR (le_upd elm (le_next_update (\<lambda>_. Some WILD)) m) (\<lambda>m1.
          le_upd elm (le_prev_update (\<lambda>_. First WILD)) m1))"

subsection \<open>The macros\<close>

definition LIST_INIT :: "nat \<Rightarrow> ls_mem \<Rightarrow> fault + ls_mem" where
  "LIST_INIT h m = lh_set h None m"

definition LIST_MOVE :: "nat \<Rightarrow> nat \<Rightarrow> ls_mem \<Rightarrow> fault + ls_mem" where
  "LIST_MOVE h1 h2 m =
     bindR (LIST_INIT h2 m) (\<lambda>m1.
     bindR (LIST_EMPTY h1 m1) (\<lambda>empty.
       if empty then Inr m1
       else
         bindR (LIST_FIRST h1 m1) (\<lambda>first.
         bindR (lh_set h2 first m1) (\<lambda>m2.
           LIST_INIT h1 m2))))"

definition LIST_INSERT_AFTER :: "bool \<Rightarrow> nat \<Rightarrow> nat \<Rightarrow> ls_mem \<Rightarrow> fault + ls_mem" where
  "LIST_INSERT_AFTER dbg listelm elm m =
     bindR (QUEUEDEBUG_LIST_OP dbg listelm m) (\<lambda>_.
     bindR (LIST_NEXT listelm m) (\<lambda>n.
     bindR (le_upd elm (le_next_update (\<lambda>_. n)) m) (\<lambda>m1.
     bindR (if n = None then Inr m1
            else
              bindR (LIST_NEXT listelm m1) (\<lambda>x.
                case x of
                  None \<Rightarrow> Inl Null_deref
                | Some x' \<Rightarrow> le_upd x' (le_prev_update (\<lambda>_. Next elm)) m1)) (\<lambda>m2.
     bindR (le_upd listelm (le_next_update (\<lambda>_. Some elm)) m2) (\<lambda>m3.
       le_upd elm (le_prev_update (\<lambda>_. Next listelm)) m3)))))"

definition LIST_INSERT_BEFORE :: "bool \<Rightarrow> nat \<Rightarrow> nat \<Rightarrow> ls_mem \<Rightarrow> fault + ls_mem" where
  "LIST_INSERT_BEFORE dbg listelm elm m =
     bindR (QUEUEDEBUG_LIST_OP dbg listelm m) (\<lambda>_.
     bindR (le_get listelm m) (\<lambda>l.
     bindR (le_upd elm (le_prev_update (\<lambda>_. le_prev l)) m) (\<lambda>m1.
     bindR (le_upd elm (le_next_update (\<lambda>_. Some listelm)) m1) (\<lambda>m2.
     bindR (le_get listelm m2) (\<lambda>l2.
     bindR (le_store (le_prev l2) (Some elm) m2) (\<lambda>m3.
       le_upd listelm (le_prev_update (\<lambda>_. Next elm)) m3))))))"

definition LIST_INSERT_HEAD :: "bool \<Rightarrow> nat \<Rightarrow> nat \<Rightarrow> ls_mem \<Rightarrow> fault + ls_mem" where
  "LIST_INSERT_HEAD dbg h elm m =
     bindR (QUEUEDEBUG_LIST_INSERT_HEAD dbg h m) (\<lambda>_.
     bindR (LIST_FIRST h m) (\<lambda>first.
     bindR (le_upd elm (le_next_update (\<lambda>_. first)) m) (\<lambda>m1.
     bindR (case first of
              None \<Rightarrow> Inr m1
            | Some x \<Rightarrow> le_upd x (le_prev_update (\<lambda>_. Next elm)) m1) (\<lambda>m2.
     bindR (lh_set h (Some elm) m2) (\<lambda>m3.
       le_upd elm (le_prev_update (\<lambda>_. First h)) m3)))))"

definition LIST_REMOVE :: "bool \<Rightarrow> nat \<Rightarrow> ls_mem \<Rightarrow> fault + ls_mem" where
  "LIST_REMOVE dbg elm m =
     bindR (QUEUEDEBUG_LIST_OP dbg elm m) (\<lambda>_.
     bindR (le_get elm m) (\<lambda>x.
     bindR (case le_next x of
              None \<Rightarrow> Inr m
            | Some n \<Rightarrow> le_upd n (le_prev_update (\<lambda>_. le_prev x)) m) (\<lambda>m1.
     bindR (le_get elm m1) (\<lambda>x1.
     bindR (le_store (le_prev x1) (le_next x1) m1) (\<lambda>m2.
       QUEUEDEBUG_LIST_POSTREMOVE dbg elm m2)))))"

definition LIST_REPLACE :: "bool \<Rightarrow> nat \<Rightarrow> nat \<Rightarrow> ls_mem \<Rightarrow> fault + ls_mem" where
  "LIST_REPLACE dbg elm elm2 m =
     bindR (le_get elm m) (\<lambda>x.
     bindR (le_upd elm2 (le_next_update (\<lambda>_. le_next x)) m) (\<lambda>m1.
     bindR (case le_next x of
              None \<Rightarrow> Inr m1
            | Some n \<Rightarrow> le_upd n (le_prev_update (\<lambda>_. Next elm2)) m1) (\<lambda>m2.
     bindR (le_get elm m2) (\<lambda>x1.
     bindR (le_upd elm2 (le_prev_update (\<lambda>_. le_prev x1)) m2) (\<lambda>m3.
     bindR (le_store (le_prev x1) (Some elm2) m3) (\<lambda>m4.
       QUEUEDEBUG_LIST_POSTREMOVE dbg elm m4))))))"

subsection \<open>The list a head holds\<close>

fun le_chain :: "(nat \<rightharpoonup> list_entry) \<Rightarrow> cell \<Rightarrow> nat list \<Rightarrow> nat option \<Rightarrow> bool" where
  "le_chain E l [] n = True"
| "le_chain E l (x # xs) n =
     (E x = Some \<lparr>le_next = first_of xs n, le_prev = l\<rparr> \<and> le_chain E (Next x) xs n)"

definition lists_at :: "ls_mem \<Rightarrow> nat \<Rightarrow> nat list \<Rightarrow> bool" where
  "lists_at m h xs \<longleftrightarrow> distinct xs \<and> lh_first m h = Some (first_of xs None)
     \<and> le_chain (ls_elems m) (First h) xs None"

definition ls_usable :: "ls_mem \<Rightarrow> nat \<Rightarrow> bool" where
  "ls_usable m e \<longleftrightarrow> ls_elems m e \<noteq> None"

definition ls_only_changes :: "nat set \<Rightarrow> nat set \<Rightarrow> ls_mem \<Rightarrow> ls_mem \<Rightarrow> bool" where
  "ls_only_changes H A m m' \<longleftrightarrow> (\<forall>h. h \<notin> H \<longrightarrow> lh_first m' h = lh_first m h)
     \<and> (\<forall>x. x \<notin> A \<longrightarrow> ls_elems m' x = ls_elems m x) \<and> ls_usable m' = ls_usable m"

lemma le_chain_append [simp]:
  "le_chain E l (xs @ ys) n \<longleftrightarrow> le_chain E l xs (first_of ys n) \<and> le_chain E (last_cell l xs) ys n"
  by (induction xs arbitrary: l) auto

lemma le_chain_upd [simp]: "x \<notin> set xs \<Longrightarrow> le_chain (E(x := v)) l xs n = le_chain E l xs n"
  by (induction xs arbitrary: l) auto

lemmas ls_mem_simps = lh_set_def le_get_def le_upd_def LIST_FIRST_def LIST_NEXT_def
lemmas ls_debug_simps = QUEUEDEBUG_LIST_OP_def QUEUEDEBUG_LIST_INSERT_HEAD_def QUEUEDEBUG_LIST_POSTREMOVE_def
lemmas ls_rel_simps = lists_at_def ls_only_changes_def ls_usable_def fun_eq_iff

lemma list_init:
  assumes "lh_first m h \<noteq> None"
  shows "\<exists>m'. LIST_INIT h m = Inr m' \<and> lists_at m' h [] \<and> ls_only_changes {h} {} m m'"
  using assms by (auto simp: LIST_INIT_def ls_mem_simps ls_rel_simps)

lemma list_first: "lists_at m h xs \<Longrightarrow> LIST_FIRST h m = Inr (first_of xs None)"
  by (simp add: LIST_FIRST_def lists_at_def)

lemma list_empty: "lists_at m h xs \<Longrightarrow> LIST_EMPTY h m = Inr (xs = [])"
  by (cases xs) (simp_all add: LIST_EMPTY_def list_first)

lemma list_next: "lists_at m h (xs @ x # ys) \<Longrightarrow> LIST_NEXT x m = Inr (first_of ys None)"
  by (simp add: LIST_NEXT_def le_get_def lists_at_def)

text \<open>On an element of a list the check of both its neighbours succeeds.\<close>

lemma list_check:
  assumes "lists_at m h (xs @ x # ys)"
  shows "QUEUEDEBUG_LIST_OP dbg x m = Inr ()"
  using assms
  by (cases xs rule: rev_cases; cases ys) (auto simp: ls_debug_simps ls_mem_simps lists_at_def)

lemma list_insert_head:
  assumes "lists_at m h xs" and "e \<notin> set xs" and "ls_usable m e"
  shows "\<exists>m'. LIST_INSERT_HEAD dbg h e m = Inr m' \<and> lists_at m' h (e # xs)
    \<and> ls_only_changes {h} (insert e (set xs)) m m'"
  using assms
  by (cases xs) (auto simp: LIST_INSERT_HEAD_def QUEUEDEBUG_LIST_INSERT_HEAD_def ls_mem_simps ls_rel_simps)

lemma list_insert_after:
  assumes "lists_at m h (xs @ x # ys)" and "e \<notin> set (xs @ x # ys)" and "ls_usable m e"
  shows "\<exists>m'. LIST_INSERT_AFTER dbg x e m = Inr m' \<and> lists_at m' h (xs @ x # e # ys)
    \<and> ls_only_changes {} (insert e (set (x # ys))) m m'"
  using list_check [OF assms(1)] assms
  by (cases ys) (auto simp: LIST_INSERT_AFTER_def ls_mem_simps ls_rel_simps)

lemma list_insert_before:
  assumes "lists_at m h (xs @ x # ys)" and "e \<notin> set (xs @ x # ys)" and "ls_usable m e"
  shows "\<exists>m'. LIST_INSERT_BEFORE dbg x e m = Inr m' \<and> lists_at m' h (xs @ e # x # ys)
    \<and> ls_only_changes {h} (insert e (set (xs @ [x]))) m m'"
  using list_check [OF assms(1)] assms
  by (cases xs rule: rev_cases) (auto simp: LIST_INSERT_BEFORE_def ls_mem_simps ls_rel_simps)

lemma list_remove:
  assumes "lists_at m h (xs @ e # ys)"
  shows "\<exists>m'. LIST_REMOVE dbg e m = Inr m' \<and> lists_at m' h (xs @ ys)
    \<and> ls_only_changes {h} (set (xs @ e # ys)) m m'
    \<and> ls_elems m' e = Some (if dbg then \<lparr>le_next = Some WILD, le_prev = First WILD\<rparr>
        else \<lparr>le_next = first_of ys None, le_prev = last_cell (First h) xs\<rparr>)"
  using list_check [OF assms] assms
  by (cases xs rule: rev_cases; cases ys)
    (auto simp: LIST_REMOVE_def QUEUEDEBUG_LIST_POSTREMOVE_def ls_mem_simps ls_rel_simps)

lemma list_replace:
  assumes "lists_at m h (xs @ x # ys)" and "e \<notin> set (xs @ x # ys)" and "ls_usable m e"
  shows "\<exists>m'. LIST_REPLACE dbg x e m = Inr m' \<and> lists_at m' h (xs @ e # ys)
    \<and> ls_only_changes {h} (insert e (set (xs @ x # ys))) m m'"
  using assms
  by (cases xs rule: rev_cases; cases ys; cases dbg)
    (auto simp: LIST_REPLACE_def QUEUEDEBUG_LIST_POSTREMOVE_def ls_mem_simps ls_rel_simps)

interpretation ls: linked_stack "\<lambda>m. lists_at m h" ls_usable "LIST_INSERT_HEAD dbg h" "LIST_REMOVE dbg" "LIST_FIRST h"
  for dbg h
proof
  fix m xs e
  assume "lists_at m h xs" and "ls_usable m e" and "e \<notin> set xs"
  then show "\<exists>m'. LIST_INSERT_HEAD dbg h e m = Inr m' \<and> lists_at m' h (e # xs) \<and> ls_usable m' = ls_usable m"
    using list_insert_head [of m h xs e dbg] by (auto simp: ls_only_changes_def)
next
  fix m xs e
  assume q: "lists_at m h xs" and "e \<in> set xs"
  from split_list_first [OF this(2)] obtain ys zs where xs: "xs = ys @ e # zs" "e \<notin> set ys" by blast
  then have "remove1 e xs = ys @ zs" by (simp add: remove1_append)
  then show "\<exists>m'. LIST_REMOVE dbg e m = Inr m' \<and> lists_at m' h (remove1 e xs) \<and> ls_usable m' = ls_usable m"
    using list_remove [of m h ys e zs dbg] q xs by (auto simp: ls_only_changes_def)
qed (rule list_first)

subsection \<open>Traversals that free\<close>

definition ls_free :: "nat \<Rightarrow> ls_mem \<Rightarrow> fault + ls_mem" where
  "ls_free e m = (case ls_elems m e of
     None \<Rightarrow> Inl Use_after_free | Some _ \<Rightarrow> Inr (m\<lparr>ls_elems := (ls_elems m)(e := None)\<rparr>))"

lemma list_foreach_safe_frees:
  assumes "lists_at m h xs"
  shows "\<exists>m'. LIST_FOREACH_SAFE h ls_free m = Some (Inr m') \<and> ls_elems m' = ls_elems m |` (- set xs)"
proof -
  have "\<exists>m'. foreach_safe LIST_NEXT ls_free (first_of xs None) m = Some (Inr m')
    \<and> ls_elems m' = ls_elems m |` (- set xs)"
    by (rule foreach_safe_frees) (use assms in \<open>auto simp: lists_at_def LIST_NEXT_def le_get_def ls_free_def\<close>)
  with assms show ?thesis by (simp add: LIST_FOREACH_SAFE_def list_first)
qed

lemma list_foreach_frees_faults:
  assumes "lists_at m h (x # xs)"
  shows "LIST_FOREACH h ls_free m = Some (Inl Use_after_free)"
proof -
  have "ls_free x m = Inr (m\<lparr>ls_elems := (ls_elems m)(x := None)\<rparr>)"
    using assms by (simp add: ls_free_def lists_at_def)
  from foreach_loop_first [of ls_free, OF this, of LIST_NEXT Use_after_free] assms show ?thesis
    by (simp add: LIST_FOREACH_def list_first LIST_NEXT_def le_get_def)
qed

subsection \<open>\<open>LIST_MOVE\<close>\<close>

text \<open>
  The macro moves the head's pointer and leaves the back pointer of the first element at the
  old head.  What it makes can be traversed (the links are those of \<open>xs\<close>), but is no list.
\<close>

lemma list_move_links:
  assumes "lists_at m h1 (x # xs)" and "lh_first m h2 \<noteq> None" and "h1 \<noteq> h2"
  shows "\<exists>m'. LIST_MOVE h1 h2 m = Inr m' \<and> lists_at m' h1 []
    \<and> lh_first m' h2 = Some (Some x) \<and> ls_elems m' = ls_elems m"
  using assms by (auto simp: LIST_MOVE_def LIST_INIT_def LIST_EMPTY_def ls_mem_simps lists_at_def ex_bool_eq)

lemma list_move_empty:
  assumes "lists_at m h1 []" and "lh_first m h2 \<noteq> None"
  shows "\<exists>m'. LIST_MOVE h1 h2 m = Inr m' \<and> lists_at m' h1 [] \<and> lists_at m' h2 []"
  using assms by (auto simp: LIST_MOVE_def LIST_INIT_def LIST_EMPTY_def ls_mem_simps lists_at_def ex_bool_eq)

lemma list_move_effect:
  assumes "lists_at m h1 zs" and "lh_first m h2 \<noteq> None" and "h2 \<noteq> h1"
  shows "\<exists>m'. LIST_MOVE h1 h2 m = Inr m' \<and> lists_at m' h1 [] \<and> LIST_FIRST h2 m' = LIST_FIRST h1 m
    \<and> ls_only_changes {h1, h2} {} m m' \<and> ((\<exists>us. lists_at m' h2 us) \<longleftrightarrow> zs = [])"
proof (cases zs)
  case Nil
  with assms have "\<exists>m'. LIST_MOVE h1 h2 m = Inr m' \<and> lists_at m' h1 [] \<and> LIST_FIRST h2 m' = LIST_FIRST h1 m
      \<and> ls_only_changes {h1, h2} {} m m' \<and> lists_at m' h2 []"
    by (auto simp: LIST_MOVE_def LIST_INIT_def LIST_EMPTY_def ls_mem_simps ls_rel_simps ex_bool_eq)
  with Nil show ?thesis by blast
next
  case (Cons x xs)
  let ?m = "m\<lparr>lh_first := (lh_first m)(h2 \<mapsto> Some x, h1 \<mapsto> None)\<rparr>"
  have "LIST_MOVE h1 h2 m = Inr ?m"
    using assms Cons by (auto simp: LIST_MOVE_def LIST_INIT_def LIST_EMPTY_def ls_mem_simps lists_at_def ex_bool_eq)
  moreover have "lists_at ?m h1 []" "LIST_FIRST h2 ?m = LIST_FIRST h1 m" "ls_only_changes {h1, h2} {} m ?m"
    using assms Cons by (auto simp: ls_mem_simps ls_rel_simps)
  moreover have "\<not> lists_at ?m h2 us" for us
    using assms Cons by (cases us) (auto simp: lists_at_def)
  ultimately show ?thesis using Cons by blast
qed

text \<open>
  Removing the first element of a list that was moved takes it from the old head, which
  then points to the second element, and leaves it on the new one; the checks catch it.
\<close>

lemma list_move_remove:
  assumes "lists_at m h1 (x # xs)" and "lh_first m h2 \<noteq> None" and "h1 \<noteq> h2"
    and "LIST_MOVE h1 h2 m = Inr m1"
  shows "\<exists>m2. LIST_REMOVE False x m1 = Inr m2 \<and> lh_first m2 h2 = Some (Some x)
      \<and> lists_at m2 h1 xs"
    and "LIST_REMOVE True x m1 = Inl (Exited 1)"
proof -
  from list_move_links [OF assms(1-3)] assms(4) have m1: "lists_at m1 h1 []"
    "lh_first m1 h2 = Some (Some x)" "ls_elems m1 = ls_elems m" by auto
  with assms(1,3) show "\<exists>m2. LIST_REMOVE False x m1 = Inr m2 \<and> lh_first m2 h2 = Some (Some x)
      \<and> lists_at m2 h1 xs"
    by (cases xs) (auto simp: LIST_REMOVE_def ls_debug_simps ls_mem_simps lists_at_def)
  from m1 assms(1) show "LIST_REMOVE True x m1 = Inl (Exited 1)"
    by (cases xs) (auto simp: LIST_REMOVE_def ls_debug_simps ls_mem_simps lists_at_def)
qed

subsection \<open>Properties\<close>

text \<open>C35: A doubly-linked list is a list, empty or not, in the build with the checks of QUEUEDEBUG and in the
  one without: \<open>LIST_INIT\<close> makes an empty list of any head, each insertion, removal and replacement
  on a head that holds \<open>zs\<close> does to the pointers what the list operation does to \<open>zs\<close>, no check
  fails, and nothing is touched but the head and the elements; \<open>LIST_MOVE\<close> empties the first head and
  makes the second point to the first element, but leaves the elements as they are, so that the
  second head holds a list only if there was none to move; freeing the elements from a SAFE
  traversal visits all of them and ends, from a plain one it reads the link of the element that
  was just freed.\<close>

theorem lists_refine_list:
  assumes "lists_at m h zs" and "e \<notin> set zs" and "ls_usable m e"
  defines "holds op us \<equiv> \<exists>m'. op = Inr m' \<and> lists_at m' h us \<and> ls_only_changes {h} (insert e (set zs)) m m'"
  shows "holds (LIST_INSERT_HEAD dbg h e m) (e # zs)
    \<and> (\<forall>xs x ys. zs = xs @ x # ys \<longrightarrow>
         holds (LIST_INSERT_AFTER dbg x e m) (xs @ x # e # ys)
       \<and> holds (LIST_INSERT_BEFORE dbg x e m) (xs @ e # x # ys)
       \<and> holds (LIST_REPLACE dbg x e m) (xs @ e # ys)
       \<and> holds (LIST_REMOVE dbg x m) (xs @ ys)
       \<and> LIST_NEXT x m = Inr (if ys = [] then None else Some (hd ys)))
    \<and> (\<forall>h0. lh_first m h0 \<noteq> None \<longrightarrow>
         (\<exists>m'. LIST_INIT h0 m = Inr m' \<and> lists_at m' h0 [] \<and> ls_only_changes {h0} {} m m'))
    \<and> (\<forall>h2. lh_first m h2 \<noteq> None \<and> h2 \<noteq> h \<longrightarrow>
         (\<exists>m'. LIST_MOVE h h2 m = Inr m' \<and> lists_at m' h [] \<and> LIST_FIRST h2 m' = LIST_FIRST h m
            \<and> ls_only_changes {h, h2} {} m m' \<and> ((\<exists>us. lists_at m' h2 us) \<longleftrightarrow> zs = [])))
    \<and> LIST_FIRST h m = Inr (if zs = [] then None else Some (hd zs))
    \<and> LIST_EMPTY h m = Inr (zs = [])
    \<and> (\<exists>m'. LIST_FOREACH_SAFE h ls_free m = Some (Inr m') \<and> ls_elems m' = ls_elems m |` (- set zs))
    \<and> LIST_FOREACH h ls_free m = Some (if zs = [] then Inr m else Inl Use_after_free)"
proof (intro conjI allI impI)
  fix xs x ys
  assume zs: "zs = xs @ x # ys"
  note at = assms(1-3) [unfolded zs]
  show "holds (LIST_INSERT_AFTER dbg x e m) (xs @ x # e # ys)"
    using list_insert_after [OF at, of dbg] unfolding holds_def zs ls_only_changes_def by auto
  show "holds (LIST_INSERT_BEFORE dbg x e m) (xs @ e # x # ys)"
    using list_insert_before [OF at, of dbg] unfolding holds_def zs ls_only_changes_def by auto
  show "holds (LIST_REPLACE dbg x e m) (xs @ e # ys)"
    using list_replace [OF at, of dbg] by (simp add: holds_def zs)
  show "holds (LIST_REMOVE dbg x m) (xs @ ys)"
    using list_remove [OF at(1), of dbg] unfolding holds_def zs ls_only_changes_def by blast
  show "LIST_NEXT x m = Inr (if ys = [] then None else Some (hd ys))"
    using list_next [OF at(1)] by (cases ys) simp_all
next
  fix h2
  assume h2: "lh_first m h2 \<noteq> None \<and> h2 \<noteq> h"
  show "\<exists>m'. LIST_MOVE h h2 m = Inr m' \<and> lists_at m' h [] \<and> LIST_FIRST h2 m' = LIST_FIRST h m
      \<and> ls_only_changes {h, h2} {} m m' \<and> ((\<exists>us. lists_at m' h2 us) \<longleftrightarrow> zs = [])"
    using list_move_effect [OF assms(1)] h2 by simp
next
  show "LIST_FIRST h m = Inr (if zs = [] then None else Some (hd zs))"
    using list_first [OF assms(1)] by (cases zs) simp_all
  show "LIST_FOREACH h ls_free m = Some (if zs = [] then Inr m else Inl Use_after_free)"
  proof (cases zs)
    case Nil
    with assms(1) show ?thesis by (simp add: LIST_FOREACH_def list_first foreach_loop.simps)
  next
    case (Cons x xs)
    with assms(1) list_foreach_frees_faults show ?thesis by simp
  qed
qed (use assms(1-3) in \<open>simp_all add: holds_def list_insert_head list_init list_empty list_foreach_safe_frees\<close>)

definition two_entries :: ls_mem where
  "two_entries = \<lparr>lh_first = [10 \<mapsto> Some 2, 20 \<mapsto> None],
     ls_elems = [2 \<mapsto> \<lparr>le_next = Some 3, le_prev = First 10\<rparr>,
                 3 \<mapsto> \<lparr>le_next = None, le_prev = Next 2\<rparr>,
                 4 \<mapsto> \<lparr>le_next = None, le_prev = First 99\<rparr>]\<rparr>"

lemma two_entries_list: "lists_at two_entries 10 [2, 3]"
  by (simp add: two_entries_def lists_at_def)

theorem lists_refine_list_witness:
  "(\<exists>m'. LIST_INSERT_BEFORE True 3 4 two_entries = Inr m' \<and> lists_at m' 10 [2, 4, 3])
    \<and> (\<exists>m'. LIST_INSERT_HEAD True 20 4 two_entries = Inr m' \<and> lists_at m' 20 [4])
    \<and> (\<exists>m'. LIST_MOVE 10 20 two_entries = Inr m' \<and> lists_at m' 10 [] \<and> LIST_FIRST 20 m' = Inr (Some 2)
         \<and> (\<nexists>us. lists_at m' 20 us))"
proof -
  have q: "lists_at two_entries 20 []" "ls_usable two_entries 4" "4 \<notin> set [2, 3 :: nat]" "4 \<notin> set ([] :: nat list)"
    by (simp_all add: two_entries_def ls_usable_def lists_at_def)
  note two = lists_refine_list [OF two_entries_list q(3,2), of True] and none = lists_refine_list [OF q(1,4,2), of True]
  from two [THEN conjunct2, THEN conjunct1, rule_format, of "[2]" 3 "[]"]
  have "\<exists>m'. LIST_INSERT_BEFORE True 3 4 two_entries = Inr m' \<and> lists_at m' 10 [2, 4, 3]" by auto
  moreover from none have "\<exists>m'. LIST_INSERT_HEAD True 20 4 two_entries = Inr m' \<and> lists_at m' 20 [4]" by auto
  moreover from two [THEN conjunct2, THEN conjunct2, THEN conjunct2, THEN conjunct1, rule_format, of 20]
  have "\<exists>m'. LIST_MOVE 10 20 two_entries = Inr m' \<and> lists_at m' 10 [] \<and> LIST_FIRST 20 m' = Inr (Some 2)
      \<and> (\<nexists>us. lists_at m' 20 us)"
    using list_first [OF two_entries_list] by (auto simp: two_entries_def)
  ultimately show ?thesis by blast
qed

text \<open>LIST_MOVE does not make a list of the second head: the first element keeps the address of the
  first head as the cell that points to it.  Removing that element afterwards takes it off the
  old head, which then points to the rest of the elements, while the new head still points
  to the removed element; in a build with QUEUEDEBUG the removal stops the program.\<close>

theorem list_move_dangles:
  assumes "lists_at m h1 (x # xs)" and "lh_first m h2 \<noteq> None" and "h1 \<noteq> h2"
  shows "\<exists>m1. LIST_MOVE h1 h2 m = Inr m1 \<and> lists_at m1 h1 []
    \<and> LIST_FIRST h2 m1 = Inr (Some x) \<and> (\<forall>zs. \<not> lists_at m1 h2 zs)
    \<and> (\<exists>m2. LIST_REMOVE False x m1 = Inr m2 \<and> LIST_FIRST h2 m2 = Inr (Some x) \<and> lists_at m2 h1 xs)
    \<and> LIST_REMOVE True x m1 = Inl (Exited 1)"
proof -
  from list_move_links [OF assms] obtain m1 where m1: "LIST_MOVE h1 h2 m = Inr m1"
    "lists_at m1 h1 []" "lh_first m1 h2 = Some (Some x)" "ls_elems m1 = ls_elems m" by blast
  have "\<not> lists_at m1 h2 zs" for zs
    using m1(3,4) assms(1,3) by (cases zs) (auto simp: lists_at_def)
  with list_move_remove [OF assms m1(1)] m1 show ?thesis by (auto simp: LIST_FIRST_def)
qed

theorem list_move_dangles_witness:
  "\<exists>m1 m2. LIST_MOVE 10 20 two_entries = Inr m1 \<and> LIST_REMOVE False 2 m1 = Inr m2
    \<and> LIST_FIRST 20 m2 = Inr (Some 2) \<and> lists_at m2 10 [3]"
  using list_move_dangles [OF two_entries_list, of 20] by (auto simp: two_entries_def)

text \<open>Removing an element twice, with another inserted in its place in between: without QUEUEDEBUG the
  second removal silently takes the other element out of the list; with QUEUEDEBUG the
  removed element's links are filled with the address 1, and the second removal is a fault at
  once.\<close>

theorem double_removal:
  assumes "lists_at m h (xs @ x # e # ys)" and "f \<notin> set (xs @ x # e # ys)" and "ls_usable m f"
    and "ls_elems m WILD = None" and "lh_first m WILD = None"
  defines "run dbg \<equiv> bindR (LIST_REMOVE dbg e m) (\<lambda>m1.
      bindR (LIST_INSERT_AFTER dbg x f m1) (\<lambda>m2. LIST_REMOVE dbg e m2))"
  shows "(\<exists>m'. run False = Inr m' \<and> lists_at m' h (xs @ x # ys)) \<and> run True = Inl Use_after_free"
proof -
  have step: "\<exists>m2. bindR (LIST_REMOVE dbg e m) (LIST_INSERT_AFTER dbg x f) = Inr m2
      \<and> lists_at m2 h (xs @ x # f # ys) \<and> ls_usable m2 = ls_usable m
      \<and> ls_elems m2 e = Some (if dbg then \<lparr>le_next = Some WILD, le_prev = First WILD\<rparr>
          else \<lparr>le_next = first_of ys None, le_prev = Next x\<rparr>)" for dbg
  proof -
    from list_remove [of m h "xs @ [x]" e ys dbg] assms(1) obtain m1 where
      m1: "LIST_REMOVE dbg e m = Inr m1" "lists_at m1 h (xs @ x # ys)" "ls_usable m1 = ls_usable m"
        "ls_elems m1 e = Some (if dbg then \<lparr>le_next = Some WILD, le_prev = First WILD\<rparr>
          else \<lparr>le_next = first_of ys None, le_prev = Next x\<rparr>)" by (auto simp: ls_only_changes_def)
    from list_insert_after [OF m1(2), of f dbg] assms(2,3) m1(3) obtain m2 where
      m2: "LIST_INSERT_AFTER dbg x f m1 = Inr m2" "lists_at m2 h (xs @ x # f # ys)"
        "ls_usable m2 = ls_usable m1" "ls_elems m2 e = ls_elems m1 e"
      using assms(1,2) by (auto simp: ls_only_changes_def lists_at_def)
    with m1 show ?thesis by auto
  qed
  have run: "run dbg = bindR (bindR (LIST_REMOVE dbg e m) (LIST_INSERT_AFTER dbg x f)) (LIST_REMOVE dbg e)" for dbg
    unfolding run_def by (cases "LIST_REMOVE dbg e m") simp_all
  from step [of False] obtain m2 where m2: "bindR (LIST_REMOVE False e m) (LIST_INSERT_AFTER False x f) = Inr m2"
    "lists_at m2 h (xs @ x # f # ys)" "ls_elems m2 e = Some \<lparr>le_next = first_of ys None, le_prev = Next x\<rparr>" by auto
  have "e \<notin> set ys \<and> e \<noteq> x" using assms(1) by (simp add: lists_at_def)
  with m2(2,3) have "\<exists>m'. LIST_REMOVE False e m2 = Inr m' \<and> lists_at m' h (xs @ x # ys)"
    by (cases ys) (auto simp: LIST_REMOVE_def ls_debug_simps ls_mem_simps lists_at_def)
  moreover from step [of True] obtain m3 where m3: "bindR (LIST_REMOVE True e m) (LIST_INSERT_AFTER True x f) = Inr m3"
    "ls_usable m3 = ls_usable m" "ls_elems m3 e = Some \<lparr>le_next = Some WILD, le_prev = First WILD\<rparr>" by auto
  have "ls_elems m3 WILD = None" using m3(2) assms(4) by (metis ls_usable_def)
  with m3(3) have "LIST_REMOVE True e m3 = Inl Use_after_free"
    by (simp add: LIST_REMOVE_def ls_debug_simps ls_mem_simps)
  ultimately show ?thesis unfolding run m2(1) m3(1) bindR_simps by blast
qed

theorem double_removal_witness:
  "\<exists>m'. bindR (LIST_REMOVE False 3 two_entries) (\<lambda>m1. bindR (LIST_INSERT_AFTER False 2 4 m1)
      (\<lambda>m2. LIST_REMOVE False 3 m2)) = Inr m' \<and> lists_at m' 10 [2]"
proof -
  have "lists_at two_entries 10 ([] @ 2 # 3 # [])" "ls_usable two_entries 4"
    "ls_elems two_entries WILD = None" "lh_first two_entries WILD = None"
    using two_entries_list by (simp_all add: two_entries_def ls_usable_def WILD_def)
  from double_removal [OF this(1) _ this(2-4)] show ?thesis by simp
qed

end
