(* ===== verification/Circleq.thy ===== *)
theory Circleq
  imports Queue_Contract
begin

section \<open>Circular queues (src/queue.h, the \<open>CIRCLEQ\<close> macros)\<close>

text \<open>
  The first and the last element of a circular queue point to the head, cast to an element:
  a pointer is an element or a head (\<open>circ_ptr\<close>), and following one that is a head as if it
  were an element is the fault \<open>Out_of_bounds\<close>.  \<open>dbg\<close> says whether \<open>QUEUEDEBUG\<close> is defined,
  as in \<open>Lists\<close>; a removed element is then filled with the address 1, which no object has.
\<close>

datatype circ_ptr = Elm nat | End nat

record circ_head =
  cqh_first :: circ_ptr
  cqh_last :: circ_ptr

record circ_entry =
  cqe_next :: circ_ptr
  cqe_prev :: circ_ptr

record circ_mem =
  cq_heads :: "nat \<rightharpoonup> circ_head"
  cq_elems :: "nat \<rightharpoonup> circ_entry"

definition CIRC_WILD :: circ_ptr where "CIRC_WILD = Elm 1"

definition cqh_get :: "nat \<Rightarrow> circ_mem \<Rightarrow> fault + circ_head" where
  "cqh_get h m = (case cq_heads m h of None \<Rightarrow> Inl Use_after_free | Some x \<Rightarrow> Inr x)"

definition cqh_upd :: "nat \<Rightarrow> (circ_head \<Rightarrow> circ_head) \<Rightarrow> circ_mem \<Rightarrow> fault + circ_mem" where
  "cqh_upd h f m = bindR (cqh_get h m) (\<lambda>x. Inr (m\<lparr>cq_heads := (cq_heads m)(h \<mapsto> f x)\<rparr>))"

fun cqe_get :: "circ_ptr \<Rightarrow> circ_mem \<Rightarrow> fault + circ_entry" where
  "cqe_get (Elm e) m = (case cq_elems m e of None \<Rightarrow> Inl Use_after_free | Some x \<Rightarrow> Inr x)"
| "cqe_get (End h) m = Inl Out_of_bounds"

fun cqe_upd :: "circ_ptr \<Rightarrow> (circ_entry \<Rightarrow> circ_entry) \<Rightarrow> circ_mem \<Rightarrow> fault + circ_mem" where
  "cqe_upd (Elm e) f m =
     (case cq_elems m e of
        None \<Rightarrow> Inl Use_after_free
      | Some x \<Rightarrow> Inr (m\<lparr>cq_elems := (cq_elems m)(e \<mapsto> f x)\<rparr>))"
| "cqe_upd (End h) f m = Inl Out_of_bounds"

subsection \<open>Access\<close>

text \<open>The head as a pointer for assignments, and laundered for comparisons: the same address.\<close>

definition launder_type :: "circ_ptr \<Rightarrow> circ_ptr" where
  "launder_type x = x"

definition CIRCLEQ_END :: "nat \<Rightarrow> circ_ptr" where
  "CIRCLEQ_END h = End h"

definition CIRCLEQ_ENDC :: "nat \<Rightarrow> circ_ptr" where
  "CIRCLEQ_ENDC h = launder_type (End h)"

definition CIRCLEQ_HEAD_INITIALIZER :: "nat \<Rightarrow> circ_head" where
  "CIRCLEQ_HEAD_INITIALIZER h = \<lparr>cqh_first = CIRCLEQ_END h, cqh_last = CIRCLEQ_END h\<rparr>"

definition CIRCLEQ_FIRST :: "nat \<Rightarrow> circ_mem \<Rightarrow> fault + circ_ptr" where
  "CIRCLEQ_FIRST h m = bindR (cqh_get h m) (\<lambda>x. Inr (cqh_first x))"

definition CIRCLEQ_LAST :: "nat \<Rightarrow> circ_mem \<Rightarrow> fault + circ_ptr" where
  "CIRCLEQ_LAST h m = bindR (cqh_get h m) (\<lambda>x. Inr (cqh_last x))"

definition CIRCLEQ_NEXT :: "circ_ptr \<Rightarrow> circ_mem \<Rightarrow> fault + circ_ptr" where
  "CIRCLEQ_NEXT elm m = bindR (cqe_get elm m) (\<lambda>x. Inr (cqe_next x))"

definition CIRCLEQ_PREV :: "circ_ptr \<Rightarrow> circ_mem \<Rightarrow> fault + circ_ptr" where
  "CIRCLEQ_PREV elm m = bindR (cqe_get elm m) (\<lambda>x. Inr (cqe_prev x))"

definition CIRCLEQ_EMPTY :: "nat \<Rightarrow> circ_mem \<Rightarrow> fault + bool" where
  "CIRCLEQ_EMPTY h m = bindR (CIRCLEQ_FIRST h m) (\<lambda>x. Inr (x = CIRCLEQ_ENDC h))"

definition CIRCLEQ_LOOP_NEXT :: "nat \<Rightarrow> circ_ptr \<Rightarrow> circ_mem \<Rightarrow> fault + circ_ptr" where
  "CIRCLEQ_LOOP_NEXT h elm m =
     bindR (CIRCLEQ_NEXT elm m) (\<lambda>n. if n = CIRCLEQ_ENDC h then CIRCLEQ_FIRST h m else Inr n)"

definition CIRCLEQ_LOOP_PREV :: "nat \<Rightarrow> circ_ptr \<Rightarrow> circ_mem \<Rightarrow> fault + circ_ptr" where
  "CIRCLEQ_LOOP_PREV h elm m =
     bindR (CIRCLEQ_PREV elm m) (\<lambda>p. if p = CIRCLEQ_ENDC h then CIRCLEQ_LAST h m else Inr p)"

subsection \<open>The checks\<close>

definition QUEUEDEBUG_CIRCLEQ_HEAD :: "bool \<Rightarrow> nat \<Rightarrow> circ_mem \<Rightarrow> fault + unit" where
  "QUEUEDEBUG_CIRCLEQ_HEAD dbg h m =
     (if \<not> dbg then Inr ()
      else
        bindR (cqh_get h m) (\<lambda>x.
        bindR (if cqh_first x = CIRCLEQ_ENDC h then Inr ()
               else bindR (CIRCLEQ_PREV (cqh_first x) m) (\<lambda>p. if p \<noteq> CIRCLEQ_ENDC h then Inl (Exited 1) else Inr ())) (\<lambda>_.
          if cqh_last x = CIRCLEQ_ENDC h then Inr ()
          else bindR (CIRCLEQ_NEXT (cqh_last x) m) (\<lambda>n. if n \<noteq> CIRCLEQ_ENDC h then Inl (Exited 1) else Inr ()))))"

definition QUEUEDEBUG_CIRCLEQ_ELM :: "bool \<Rightarrow> nat \<Rightarrow> circ_ptr \<Rightarrow> circ_mem \<Rightarrow> fault + unit" where
  "QUEUEDEBUG_CIRCLEQ_ELM dbg h elm m =
     (if \<not> dbg then Inr ()
      else
        bindR (cqe_get elm m) (\<lambda>x.
        bindR (if cqe_next x = CIRCLEQ_ENDC h
               then bindR (CIRCLEQ_LAST h m) (\<lambda>l. if l \<noteq> elm then Inl (Exited 1) else Inr ())
               else bindR (CIRCLEQ_PREV (cqe_next x) m) (\<lambda>p. if p \<noteq> elm then Inl (Exited 1) else Inr ())) (\<lambda>_.
          if cqe_prev x = CIRCLEQ_ENDC h
          then bindR (CIRCLEQ_FIRST h m) (\<lambda>f. if f \<noteq> elm then Inl (Exited 1) else Inr ())
          else bindR (CIRCLEQ_NEXT (cqe_prev x) m) (\<lambda>n. if n \<noteq> elm then Inl (Exited 1) else Inr ()))))"

definition QUEUEDEBUG_CIRCLEQ_POSTREMOVE :: "bool \<Rightarrow> circ_ptr \<Rightarrow> circ_mem \<Rightarrow> fault + circ_mem" where
  "QUEUEDEBUG_CIRCLEQ_POSTREMOVE dbg elm m =
     (if \<not> dbg then Inr m
      else
        bindR (cqe_upd elm (cqe_next_update (\<lambda>_. CIRC_WILD)) m) (\<lambda>m1.
          cqe_upd elm (cqe_prev_update (\<lambda>_. CIRC_WILD)) m1))"

subsection \<open>The macros\<close>

definition CIRCLEQ_INIT :: "nat \<Rightarrow> circ_mem \<Rightarrow> fault + circ_mem" where
  "CIRCLEQ_INIT h m =
     bindR (cqh_upd h (cqh_first_update (\<lambda>_. CIRCLEQ_END h)) m) (\<lambda>m1.
       cqh_upd h (cqh_last_update (\<lambda>_. CIRCLEQ_END h)) m1)"

definition CIRCLEQ_INSERT_AFTER :: "bool \<Rightarrow> nat \<Rightarrow> circ_ptr \<Rightarrow> circ_ptr \<Rightarrow> circ_mem \<Rightarrow> fault + circ_mem" where
  "CIRCLEQ_INSERT_AFTER dbg h listelm elm m =
     bindR (QUEUEDEBUG_CIRCLEQ_HEAD dbg h m) (\<lambda>_.
     bindR (QUEUEDEBUG_CIRCLEQ_ELM dbg h listelm m) (\<lambda>_.
     bindR (CIRCLEQ_NEXT listelm m) (\<lambda>n.
     bindR (cqe_upd elm (cqe_next_update (\<lambda>_. n)) m) (\<lambda>m1.
     bindR (cqe_upd elm (cqe_prev_update (\<lambda>_. listelm)) m1) (\<lambda>m2.
     bindR (CIRCLEQ_NEXT listelm m2) (\<lambda>n2.
     bindR (if n2 = CIRCLEQ_ENDC h then cqh_upd h (cqh_last_update (\<lambda>_. elm)) m2
            else cqe_upd n2 (cqe_prev_update (\<lambda>_. elm)) m2) (\<lambda>m3.
       cqe_upd listelm (cqe_next_update (\<lambda>_. elm)) m3)))))))"

definition CIRCLEQ_INSERT_BEFORE :: "bool \<Rightarrow> nat \<Rightarrow> circ_ptr \<Rightarrow> circ_ptr \<Rightarrow> circ_mem \<Rightarrow> fault + circ_mem" where
  "CIRCLEQ_INSERT_BEFORE dbg h listelm elm m =
     bindR (QUEUEDEBUG_CIRCLEQ_HEAD dbg h m) (\<lambda>_.
     bindR (QUEUEDEBUG_CIRCLEQ_ELM dbg h listelm m) (\<lambda>_.
     bindR (cqe_upd elm (cqe_next_update (\<lambda>_. listelm)) m) (\<lambda>m1.
     bindR (CIRCLEQ_PREV listelm m1) (\<lambda>p.
     bindR (cqe_upd elm (cqe_prev_update (\<lambda>_. p)) m1) (\<lambda>m2.
     bindR (CIRCLEQ_PREV listelm m2) (\<lambda>p2.
     bindR (if p2 = CIRCLEQ_ENDC h then cqh_upd h (cqh_first_update (\<lambda>_. elm)) m2
            else cqe_upd p2 (cqe_next_update (\<lambda>_. elm)) m2) (\<lambda>m3.
       cqe_upd listelm (cqe_prev_update (\<lambda>_. elm)) m3)))))))"

definition CIRCLEQ_INSERT_HEAD :: "bool \<Rightarrow> nat \<Rightarrow> circ_ptr \<Rightarrow> circ_mem \<Rightarrow> fault + circ_mem" where
  "CIRCLEQ_INSERT_HEAD dbg h elm m =
     bindR (QUEUEDEBUG_CIRCLEQ_HEAD dbg h m) (\<lambda>_.
     bindR (CIRCLEQ_FIRST h m) (\<lambda>first.
     bindR (cqe_upd elm (cqe_next_update (\<lambda>_. first)) m) (\<lambda>m1.
     bindR (cqe_upd elm (cqe_prev_update (\<lambda>_. CIRCLEQ_END h)) m1) (\<lambda>m2.
     bindR (cqh_get h m2) (\<lambda>x.
     bindR (if cqh_last x = CIRCLEQ_ENDC h then cqh_upd h (cqh_last_update (\<lambda>_. elm)) m2
            else cqe_upd (cqh_first x) (cqe_prev_update (\<lambda>_. elm)) m2) (\<lambda>m3.
       cqh_upd h (cqh_first_update (\<lambda>_. elm)) m3))))))"

definition CIRCLEQ_INSERT_TAIL :: "bool \<Rightarrow> nat \<Rightarrow> circ_ptr \<Rightarrow> circ_mem \<Rightarrow> fault + circ_mem" where
  "CIRCLEQ_INSERT_TAIL dbg h elm m =
     bindR (QUEUEDEBUG_CIRCLEQ_HEAD dbg h m) (\<lambda>_.
     bindR (cqe_upd elm (cqe_next_update (\<lambda>_. CIRCLEQ_END h)) m) (\<lambda>m1.
     bindR (CIRCLEQ_LAST h m1) (\<lambda>l.
     bindR (cqe_upd elm (cqe_prev_update (\<lambda>_. l)) m1) (\<lambda>m2.
     bindR (cqh_get h m2) (\<lambda>x.
     bindR (if cqh_first x = CIRCLEQ_ENDC h then cqh_upd h (cqh_first_update (\<lambda>_. elm)) m2
            else cqe_upd (cqh_last x) (cqe_next_update (\<lambda>_. elm)) m2) (\<lambda>m3.
       cqh_upd h (cqh_last_update (\<lambda>_. elm)) m3))))))"

definition CIRCLEQ_REMOVE :: "bool \<Rightarrow> nat \<Rightarrow> circ_ptr \<Rightarrow> circ_mem \<Rightarrow> fault + circ_mem" where
  "CIRCLEQ_REMOVE dbg h elm m =
     bindR (QUEUEDEBUG_CIRCLEQ_HEAD dbg h m) (\<lambda>_.
     bindR (QUEUEDEBUG_CIRCLEQ_ELM dbg h elm m) (\<lambda>_.
     bindR (cqe_get elm m) (\<lambda>x.
     bindR (if cqe_next x = CIRCLEQ_ENDC h then cqh_upd h (cqh_last_update (\<lambda>_. cqe_prev x)) m
            else cqe_upd (cqe_next x) (cqe_prev_update (\<lambda>_. cqe_prev x)) m) (\<lambda>m1.
     bindR (cqe_get elm m1) (\<lambda>x1.
     bindR (if cqe_prev x1 = CIRCLEQ_ENDC h then cqh_upd h (cqh_first_update (\<lambda>_. cqe_next x1)) m1
            else cqe_upd (cqe_prev x1) (cqe_next_update (\<lambda>_. cqe_next x1)) m1) (\<lambda>m2.
       QUEUEDEBUG_CIRCLEQ_POSTREMOVE dbg elm m2))))))"

text \<open>The elements that a traversal in either direction visits, in order.\<close>

partial_function (option) circleq_walk ::
  "(circ_ptr \<Rightarrow> circ_mem \<Rightarrow> fault + circ_ptr) \<Rightarrow> nat \<Rightarrow> circ_ptr \<Rightarrow> circ_mem \<Rightarrow> (fault + circ_ptr list) option"
  where
  "circleq_walk step h var m =
     (if var = CIRCLEQ_ENDC h then Some (Inr [])
      else
        (case step var m of
           Inl f \<Rightarrow> Some (Inl f)
         | Inr n \<Rightarrow> Option.bind (circleq_walk step h n m) (\<lambda>r. Some (map_sum id ((#) var) r))))"

declare circleq_walk.simps [code]

definition CIRCLEQ_FOREACH :: "nat \<Rightarrow> circ_mem \<Rightarrow> (fault + circ_ptr list) option" where
  "CIRCLEQ_FOREACH h m =
     (case CIRCLEQ_FIRST h m of Inl f \<Rightarrow> Some (Inl f) | Inr v \<Rightarrow> circleq_walk CIRCLEQ_NEXT h v m)"

definition CIRCLEQ_FOREACH_REVERSE :: "nat \<Rightarrow> circ_mem \<Rightarrow> (fault + circ_ptr list) option" where
  "CIRCLEQ_FOREACH_REVERSE h m =
     (case CIRCLEQ_LAST h m of Inl f \<Rightarrow> Some (Inl f) | Inr v \<Rightarrow> circleq_walk CIRCLEQ_PREV h v m)"

subsection \<open>The list a queue holds\<close>

text \<open>The first element of a stretch, or what follows it, and its last element, or what precedes it.\<close>

fun cfirst :: "nat list \<Rightarrow> circ_ptr \<Rightarrow> circ_ptr" where
  "cfirst [] n = n"
| "cfirst (x # xs) n = Elm x"

fun clast :: "circ_ptr \<Rightarrow> nat list \<Rightarrow> circ_ptr" where
  "clast p [] = p"
| "clast p (x # xs) = clast (Elm x) xs"

fun circ_chain :: "(nat \<rightharpoonup> circ_entry) \<Rightarrow> circ_ptr \<Rightarrow> nat list \<Rightarrow> circ_ptr \<Rightarrow> bool" where
  "circ_chain E p [] n = True"
| "circ_chain E p (x # xs) n =
     (E x = Some \<lparr>cqe_next = cfirst xs n, cqe_prev = p\<rparr> \<and> circ_chain E (Elm x) xs n)"

definition circleq :: "circ_mem \<Rightarrow> nat \<Rightarrow> nat list \<Rightarrow> bool" where
  "circleq m h xs \<longleftrightarrow> distinct xs
     \<and> cq_heads m h = Some \<lparr>cqh_first = cfirst xs (End h), cqh_last = clast (End h) xs\<rparr>
     \<and> circ_chain (cq_elems m) (End h) xs (End h)"

definition circ_usable :: "circ_mem \<Rightarrow> nat \<Rightarrow> bool" where
  "circ_usable m e \<longleftrightarrow> cq_elems m e \<noteq> None"

definition circ_only_changes :: "nat set \<Rightarrow> nat set \<Rightarrow> circ_mem \<Rightarrow> circ_mem \<Rightarrow> bool" where
  "circ_only_changes H A m m' \<longleftrightarrow> (\<forall>h. h \<notin> H \<longrightarrow> cq_heads m' h = cq_heads m h)
     \<and> (\<forall>x. x \<notin> A \<longrightarrow> cq_elems m' x = cq_elems m x) \<and> circ_usable m' = circ_usable m"

lemma cfirst_append [simp]: "cfirst (xs @ ys) n = cfirst xs (cfirst ys n)"
  by (cases xs) simp_all

lemma clast_append [simp]: "clast p (xs @ ys) = clast (clast p xs) ys"
  by (induction xs arbitrary: p) simp_all

lemma clast_last: "xs \<noteq> [] \<Longrightarrow> clast p xs = Elm (last xs)"
  by (cases xs rule: rev_cases) simp_all

lemma clast_Elm [simp]: "clast (Elm a) xs \<noteq> End h"
  by (induction xs arbitrary: a) simp_all

lemma circ_chain_append [simp]:
  "circ_chain E p (xs @ ys) n \<longleftrightarrow> circ_chain E p xs (cfirst ys n) \<and> circ_chain E (clast p xs) ys n"
  by (induction xs arbitrary: p) auto

lemma circ_chain_upd [simp]: "x \<notin> set xs \<Longrightarrow> circ_chain (E(x := v)) p xs n = circ_chain E p xs n"
  by (induction xs arbitrary: p) auto

lemma circ_ends [simp]: "CIRCLEQ_END h = End h" "CIRCLEQ_ENDC h = End h"
  by (simp_all add: CIRCLEQ_END_def CIRCLEQ_ENDC_def launder_type_def)

lemmas circ_mem_simps = cqh_get_def cqh_upd_def CIRCLEQ_FIRST_def CIRCLEQ_LAST_def CIRCLEQ_NEXT_def CIRCLEQ_PREV_def
lemmas circ_rel_simps = circleq_def circ_only_changes_def circ_usable_def fun_eq_iff

lemma circleq_init:
  assumes "cq_heads m h \<noteq> None"
  shows "\<exists>m'. CIRCLEQ_INIT h m = Inr m' \<and> circleq m' h [] \<and> circ_only_changes {h} {} m m'"
  using assms by (auto simp: CIRCLEQ_INIT_def circ_mem_simps circ_rel_simps)

lemma circleq_initializer:
  "circleq (m\<lparr>cq_heads := (cq_heads m)(h \<mapsto> CIRCLEQ_HEAD_INITIALIZER h)\<rparr>) h []"
  by (simp add: circleq_def CIRCLEQ_HEAD_INITIALIZER_def)

text \<open>On a well-formed queue no check fails, so that both builds do the same.\<close>

lemma circleq_check_head:
  assumes "circleq m h xs"
  shows "QUEUEDEBUG_CIRCLEQ_HEAD dbg h m = Inr ()"
  using assms
  by (cases xs rule: rev_cases; cases "butlast xs")
    (auto simp: QUEUEDEBUG_CIRCLEQ_HEAD_def circ_mem_simps circleq_def)

lemma circleq_check_elm:
  assumes "circleq m h (xs @ x # ys)"
  shows "QUEUEDEBUG_CIRCLEQ_ELM dbg h (Elm x) m = Inr ()"
  using assms
  by (cases xs rule: rev_cases; cases ys)
    (auto simp: QUEUEDEBUG_CIRCLEQ_ELM_def circ_mem_simps circleq_def)

lemma circleq_first: "circleq m h xs \<Longrightarrow> CIRCLEQ_FIRST h m = Inr (cfirst xs (End h))"
  by (simp add: circ_mem_simps circleq_def)

lemma circleq_last: "circleq m h xs \<Longrightarrow> CIRCLEQ_LAST h m = Inr (clast (End h) xs)"
  by (simp add: circ_mem_simps circleq_def)

lemma circleq_empty: "circleq m h xs \<Longrightarrow> CIRCLEQ_EMPTY h m = Inr (xs = [])"
  by (cases xs) (simp_all add: CIRCLEQ_EMPTY_def circleq_first)

lemma circleq_next: "circleq m h (xs @ x # ys) \<Longrightarrow> CIRCLEQ_NEXT (Elm x) m = Inr (cfirst ys (End h))"
  by (simp add: circ_mem_simps circleq_def)

lemma circleq_prev: "circleq m h (xs @ x # ys) \<Longrightarrow> CIRCLEQ_PREV (Elm x) m = Inr (clast (End h) xs)"
  by (simp add: circ_mem_simps circleq_def)

lemma circleq_insert_head:
  assumes "circleq m h xs" and "e \<notin> set xs" and "circ_usable m e"
  shows "\<exists>m'. CIRCLEQ_INSERT_HEAD dbg h (Elm e) m = Inr m' \<and> circleq m' h (e # xs)
    \<and> circ_only_changes {h} (insert e (set xs)) m m'"
  using circleq_check_head [OF assms(1)] assms
  by (cases xs) (auto simp: CIRCLEQ_INSERT_HEAD_def clast_last circ_mem_simps circ_rel_simps simp del: bindR_Inr_iff)

lemma circleq_insert_tail:
  assumes "circleq m h xs" and "e \<notin> set xs" and "circ_usable m e"
  shows "\<exists>m'. CIRCLEQ_INSERT_TAIL dbg h (Elm e) m = Inr m' \<and> circleq m' h (xs @ [e])
    \<and> circ_only_changes {h} (insert e (set xs)) m m'"
  using circleq_check_head [OF assms(1)] assms
  by (cases xs rule: rev_cases; cases "butlast xs") (auto simp: CIRCLEQ_INSERT_TAIL_def circ_mem_simps circ_rel_simps simp del: bindR_Inr_iff)

lemma circleq_insert_after:
  assumes "circleq m h (xs @ x # ys)" and "e \<notin> set (xs @ x # ys)" and "circ_usable m e"
  shows "\<exists>m'. CIRCLEQ_INSERT_AFTER dbg h (Elm x) (Elm e) m = Inr m' \<and> circleq m' h (xs @ x # e # ys)
    \<and> circ_only_changes {h} (insert e (set (xs @ x # ys))) m m'"
  using circleq_check_head [OF assms(1)] circleq_check_elm [OF assms(1)] assms
  by (cases ys) (auto simp: CIRCLEQ_INSERT_AFTER_def circ_mem_simps circ_rel_simps simp del: bindR_Inr_iff)

lemma circleq_insert_before:
  assumes "circleq m h (xs @ x # ys)" and "e \<notin> set (xs @ x # ys)" and "circ_usable m e"
  shows "\<exists>m'. CIRCLEQ_INSERT_BEFORE dbg h (Elm x) (Elm e) m = Inr m' \<and> circleq m' h (xs @ e # x # ys)
    \<and> circ_only_changes {h} (insert e (set (xs @ x # ys))) m m'"
  using circleq_check_head [OF assms(1)] circleq_check_elm [OF assms(1)] assms
  by (cases xs rule: rev_cases) (auto simp: CIRCLEQ_INSERT_BEFORE_def circ_mem_simps circ_rel_simps simp del: bindR_Inr_iff)

lemma circleq_remove:
  assumes "circleq m h (xs @ e # ys)"
  shows "\<exists>m'. CIRCLEQ_REMOVE dbg h (Elm e) m = Inr m' \<and> circleq m' h (xs @ ys)
    \<and> circ_only_changes {h} (set (xs @ e # ys)) m m'"
  using circleq_check_head [OF assms] circleq_check_elm [OF assms] assms
  by (cases xs rule: rev_cases; cases ys; cases dbg)
    (auto simp: CIRCLEQ_REMOVE_def QUEUEDEBUG_CIRCLEQ_POSTREMOVE_def circ_mem_simps circ_rel_simps simp del: bindR_Inr_iff)

lemma circleq_walk_list:
  "circleq m h (xs @ ys) \<Longrightarrow> circleq_walk CIRCLEQ_NEXT h (cfirst ys (End h)) m = Some (Inr (map Elm ys))"
proof (induction ys arbitrary: xs)
  case Nil
  then show ?case by (simp add: circleq_walk.simps)
next
  case (Cons y ys)
  from Cons.IH [of "xs @ [y]"] Cons.prems circleq_next [OF Cons.prems] show ?case
    by (simp add: circleq_walk.simps [of _ _ "Elm y"])
qed

lemma circleq_walk_back_list:
  "circleq m h (xs @ ys) \<Longrightarrow> circleq_walk CIRCLEQ_PREV h (clast (End h) xs) m = Some (Inr (map Elm (rev xs)))"
proof (induction xs arbitrary: ys rule: rev_induct)
  case Nil
  then show ?case by (simp add: circleq_walk.simps)
next
  case (snoc x xs)
  from snoc.IH [of "x # ys"] snoc.prems circleq_prev [of m h xs x ys] show ?case
    by (simp add: circleq_walk.simps [of _ _ "Elm x"])
qed

lemma circleq_foreach: "circleq m h xs \<Longrightarrow> CIRCLEQ_FOREACH h m = Some (Inr (map Elm xs))"
  using circleq_walk_list [of m h "[]" xs] by (simp add: CIRCLEQ_FOREACH_def circleq_first)

lemma circleq_foreach_reverse: "circleq m h xs \<Longrightarrow> CIRCLEQ_FOREACH_REVERSE h m = Some (Inr (map Elm (rev xs)))"
  using circleq_walk_back_list [of m h xs "[]"] by (simp add: CIRCLEQ_FOREACH_REVERSE_def circleq_last)

text \<open>The looping accesses go around the circle.\<close>

lemma circleq_loop_next:
  "circleq m h (xs @ x # ys) \<Longrightarrow> CIRCLEQ_LOOP_NEXT h (Elm x) m = Inr (Elm (hd (ys @ xs @ [x])))"
  using circleq_next [of m h xs x ys] circleq_first [of m h "xs @ x # ys"]
  by (cases ys; cases xs) (simp_all add: CIRCLEQ_LOOP_NEXT_def)

lemma circleq_loop_prev:
  "circleq m h (xs @ x # ys) \<Longrightarrow> CIRCLEQ_LOOP_PREV h (Elm x) m = Inr (Elm (last (x # ys @ xs)))"
  using circleq_prev [of m h xs x ys] circleq_last [of m h "xs @ x # ys"]
  by (cases "xs = []"; cases "ys = []") (simp_all add: CIRCLEQ_LOOP_PREV_def clast_last)

subsection \<open>The contract\<close>

text \<open>The first element, or that there is none, as the queues of the other families give it.\<close>

definition circ_elm :: "circ_ptr \<Rightarrow> nat option" where
  "circ_elm p = (case p of Elm e \<Rightarrow> Some e | End _ \<Rightarrow> None)"

definition circ_first :: "nat \<Rightarrow> circ_mem \<Rightarrow> fault + nat option" where
  "circ_first h m = map_sum id circ_elm (CIRCLEQ_FIRST h m)"

interpretation circ: linked_queue "\<lambda>m. circleq m h" circ_usable "\<lambda>e. CIRCLEQ_INSERT_TAIL dbg h (Elm e)"
  "\<lambda>e. CIRCLEQ_REMOVE dbg h (Elm e)" "circ_first h"
  for dbg h
proof
  fix m xs e
  assume "circleq m h xs" and "circ_usable m e" and "e \<notin> set xs"
  then show "\<exists>m'. CIRCLEQ_INSERT_TAIL dbg h (Elm e) m = Inr m' \<and> circleq m' h (snoc e xs)
      \<and> circ_usable m' = circ_usable m"
    using circleq_insert_tail [of m h xs e dbg] by (auto simp: circ_only_changes_def snoc_def)
next
  fix m xs e
  assume q: "circleq m h xs" and "e \<in> set xs"
  from split_list_first [OF this(2)] obtain ys zs where xs: "xs = ys @ e # zs" "e \<notin> set ys" by blast
  then have "remove1 e xs = ys @ zs" by (simp add: remove1_append)
  then show "\<exists>m'. CIRCLEQ_REMOVE dbg h (Elm e) m = Inr m' \<and> circleq m' h (remove1 e xs)
      \<and> circ_usable m' = circ_usable m"
    using circleq_remove [of m h ys e zs dbg] q xs by (auto simp: circ_only_changes_def)
next
  fix m xs
  assume "circleq m h xs"
  then show "circ_first h m = Inr (first_of xs None)"
    by (cases xs) (simp_all add: circ_first_def circleq_first circ_elm_def)
qed

text \<open>
  Once around: \<open>n\<close> times the looping access from an element of a queue of \<open>n\<close> elements comes
  back to it.
\<close>

fun circ_go :: "nat \<Rightarrow> nat \<Rightarrow> circ_ptr \<Rightarrow> circ_mem \<Rightarrow> fault + circ_ptr" where
  "circ_go 0 h p m = Inr p"
| "circ_go (Suc n) h p m = bindR (CIRCLEQ_LOOP_NEXT h p m) (\<lambda>q. circ_go n h q m)"

lemma circ_go_nth:
  assumes "circleq m h xs" and "i < length xs"
  shows "circ_go n h (Elm (xs ! i)) m = Inr (Elm (xs ! ((i + n) mod length xs)))"
  using assms(2)
proof (induction n arbitrary: i)
  case 0
  then show ?case by simp
next
  case (Suc n)
  have xs: "xs = take i xs @ xs ! i # drop (Suc i) xs" using Suc.prems by (rule id_take_nth_drop)
  have "hd (drop (Suc i) xs @ take i xs @ [xs ! i]) = xs ! (Suc i mod length xs)"
  proof (cases "Suc i < length xs")
    case True
    then show ?thesis by (simp add: hd_append hd_drop_conv_nth)
  next
    case False
    with Suc.prems have "Suc i = length xs" by simp
    with Suc.prems show ?thesis by (cases i) (auto simp: hd_append hd_conv_nth)
  qed
  with circleq_loop_next [of m h "take i xs" "xs ! i" "drop (Suc i) xs"] assms(1) xs
  have "CIRCLEQ_LOOP_NEXT h (Elm (xs ! i)) m = Inr (Elm (xs ! (Suc i mod length xs)))" by simp
  moreover have "Suc i mod length xs < length xs" using Suc.prems by (cases xs) simp_all
  ultimately show ?case
    using Suc.IH [of "Suc i mod length xs"] by (simp add: mod_add_left_eq)
qed

subsection \<open>Properties\<close>

text \<open>C36: A circular queue is a list, empty or not, with the checks of QUEUEDEBUG and without: \<open>CIRCLEQ_INIT\<close>
  makes an empty queue of any head, on a head that holds \<open>zs\<close> each macro that changes it does to the
  pointers what the list operation does to \<open>zs\<close>, no check fails and the head is never followed
  as an element; the accesses at the ends give the head itself where there is no element; the two
  traversals visit the list in order and in reverse and end; CIRCLEQ_LOOP_NEXT walks the list
  round and round, and CIRCLEQ_LOOP_PREV takes the steps back.\<close>

theorem circleq_refines_list:
  assumes "circleq m h zs" and "e \<notin> set zs" and "circ_usable m e"
  defines "holds op us \<equiv> \<exists>m'. op = Inr m' \<and> circleq m' h us \<and> circ_only_changes {h} (insert e (set zs)) m m'"
  shows "holds (CIRCLEQ_INSERT_HEAD dbg h (Elm e) m) (e # zs)
    \<and> holds (CIRCLEQ_INSERT_TAIL dbg h (Elm e) m) (zs @ [e])
    \<and> (\<forall>xs x ys. zs = xs @ x # ys \<longrightarrow>
         holds (CIRCLEQ_INSERT_AFTER dbg h (Elm x) (Elm e) m) (xs @ x # e # ys)
       \<and> holds (CIRCLEQ_INSERT_BEFORE dbg h (Elm x) (Elm e) m) (xs @ e # x # ys)
       \<and> holds (CIRCLEQ_REMOVE dbg h (Elm x) m) (xs @ ys)
       \<and> CIRCLEQ_NEXT (Elm x) m = Inr (if ys = [] then End h else Elm (hd ys))
       \<and> CIRCLEQ_PREV (Elm x) m = Inr (if xs = [] then End h else Elm (last xs))
       \<and> CIRCLEQ_LOOP_PREV h (Elm x) m = Inr (Elm (last (x # ys @ xs)))
       \<and> (\<forall>n. circ_go n h (Elm x) m = Inr (Elm (zs ! ((length xs + n) mod length zs)))))
    \<and> (\<forall>h0. cq_heads m h0 \<noteq> None \<longrightarrow>
         (\<exists>m'. CIRCLEQ_INIT h0 m = Inr m' \<and> circleq m' h0 [] \<and> circ_only_changes {h0} {} m m'))
    \<and> CIRCLEQ_FIRST h m = Inr (if zs = [] then End h else Elm (hd zs))
    \<and> CIRCLEQ_LAST h m = Inr (if zs = [] then End h else Elm (last zs))
    \<and> CIRCLEQ_EMPTY h m = Inr (zs = [])
    \<and> CIRCLEQ_FOREACH h m = Some (Inr (map Elm zs))
    \<and> CIRCLEQ_FOREACH_REVERSE h m = Some (Inr (map Elm (rev zs)))"
proof (intro conjI allI impI)
  fix xs x ys
  assume zs: "zs = xs @ x # ys"
  note at = assms(1-3) [unfolded zs]
  show "holds (CIRCLEQ_INSERT_AFTER dbg h (Elm x) (Elm e) m) (xs @ x # e # ys)"
    "holds (CIRCLEQ_INSERT_BEFORE dbg h (Elm x) (Elm e) m) (xs @ e # x # ys)"
    using circleq_insert_after [OF at, of dbg] circleq_insert_before [OF at, of dbg] by (simp_all add: holds_def zs)
  show "holds (CIRCLEQ_REMOVE dbg h (Elm x) m) (xs @ ys)"
    using circleq_remove [OF at(1), of dbg] unfolding holds_def zs circ_only_changes_def by blast
  show "CIRCLEQ_NEXT (Elm x) m = Inr (if ys = [] then End h else Elm (hd ys))"
    using circleq_next [OF at(1)] by (cases ys) simp_all
  show "CIRCLEQ_PREV (Elm x) m = Inr (if xs = [] then End h else Elm (last xs))"
    using circleq_prev [OF at(1)] by (cases "xs = []") (simp_all add: clast_last)
  show "CIRCLEQ_LOOP_PREV h (Elm x) m = Inr (Elm (last (x # ys @ xs)))"
    by (rule circleq_loop_prev [OF at(1)])
  show "circ_go n h (Elm x) m = Inr (Elm (zs ! ((length xs + n) mod length zs)))" for n
    using circ_go_nth [OF assms(1), of "length xs"] by (simp add: zs nth_append)
next
  show "CIRCLEQ_FIRST h m = Inr (if zs = [] then End h else Elm (hd zs))"
    using circleq_first [OF assms(1)] by (cases zs) simp_all
  show "CIRCLEQ_LAST h m = Inr (if zs = [] then End h else Elm (last zs))"
    using circleq_last [OF assms(1)] by (cases "zs = []") (simp_all add: clast_last)
qed (use assms(1-3) in \<open>simp_all add: holds_def circleq_insert_head circleq_insert_tail circleq_init
      circleq_empty circleq_foreach circleq_foreach_reverse\<close>)

definition ring :: circ_mem where
  "ring = \<lparr>cq_heads = [10 \<mapsto> \<lparr>cqh_first = Elm 2, cqh_last = Elm 3\<rparr>,
                20 \<mapsto> \<lparr>cqh_first = End 20, cqh_last = End 20\<rparr>],
     cq_elems = [2 \<mapsto> \<lparr>cqe_next = Elm 3, cqe_prev = End 10\<rparr>,
                 3 \<mapsto> \<lparr>cqe_next = End 10, cqe_prev = Elm 2\<rparr>,
                 4 \<mapsto> \<lparr>cqe_next = CIRC_WILD, cqe_prev = CIRC_WILD\<rparr>]\<rparr>"

theorem circleq_refines_list_witness:
  "(\<exists>m'. CIRCLEQ_INSERT_AFTER True 10 (Elm 3) (Elm 4) ring = Inr m' \<and> circleq m' 10 [2, 3, 4])
    \<and> (\<exists>m'. CIRCLEQ_INSERT_HEAD True 20 (Elm 4) ring = Inr m' \<and> circleq m' 20 [4])
    \<and> circ_go 3 10 (Elm 3) ring = Inr (Elm 2) \<and> CIRCLEQ_LOOP_PREV 10 (Elm 2) ring = Inr (Elm 3)"
proof -
  have q: "circleq ring 10 [2, 3]" "circleq ring 20 []" "circ_usable ring 4" "4 \<notin> set [2, 3 :: nat]" "4 \<notin> set ([] :: nat list)"
    by (simp_all add: ring_def circleq_def circ_usable_def)
  note two = circleq_refines_list [OF q(1,4,3), of True] and none = circleq_refines_list [OF q(2,5,3), of True]
  note at = two [THEN conjunct2, THEN conjunct2, THEN conjunct1, rule_format]
  have "\<exists>m'. CIRCLEQ_INSERT_AFTER True 10 (Elm 3) (Elm 4) ring = Inr m' \<and> circleq m' 10 [2, 3, 4]"
    using at [of "[2]" 3 "[]"] by auto
  moreover have "circ_go 3 10 (Elm 3) ring = Inr (Elm 2)"
    using at [of "[2]" 3 "[]"] by (auto simp: numeral_2_eq_2 [symmetric])
  moreover have "CIRCLEQ_LOOP_PREV 10 (Elm 2) ring = Inr (Elm 3)" using at [of "[]" 2 "[3]"] by simp
  moreover from none have "\<exists>m'. CIRCLEQ_INSERT_HEAD True 20 (Elm 4) ring = Inr m' \<and> circleq m' 20 [4]" by auto
  ultimately show ?thesis by blast
qed

text \<open>An element removed twice is caught by the checks; an empty queue yields its head.\<close>

lemma circleq_double_remove:
  assumes "circleq m h (xs @ e # ys)" and "cq_elems m 1 = None"
  shows "\<exists>m'. CIRCLEQ_REMOVE True h (Elm e) m = Inr m'
    \<and> CIRCLEQ_REMOVE True h (Elm e) m' = Inl Use_after_free"
proof -
  from circleq_remove [OF assms(1), of True] obtain m' where
    m': "CIRCLEQ_REMOVE True h (Elm e) m = Inr m'" "circleq m' h (xs @ ys)"
      "circ_usable m' = circ_usable m" by (auto simp: circ_only_changes_def)
  have "cq_elems m' 1 = None" using m'(3) assms(2) by (metis circ_usable_def)
  moreover have "cq_elems m' e = Some \<lparr>cqe_next = CIRC_WILD, cqe_prev = CIRC_WILD\<rparr>"
    using m'(1) by (auto simp: CIRCLEQ_REMOVE_def QUEUEDEBUG_CIRCLEQ_POSTREMOVE_def split: option.splits)
  ultimately have "CIRCLEQ_REMOVE True h (Elm e) m' = Inl Use_after_free"
    using circleq_check_head [OF m'(2), of True]
    by (simp add: CIRCLEQ_REMOVE_def QUEUEDEBUG_CIRCLEQ_ELM_def CIRC_WILD_def CIRCLEQ_PREV_def)
  with m'(1) show ?thesis by blast
qed

end
