(* ===== verification/Tailq_Debug.thy ===== *)
theory Tailq_Debug
  imports Tailq
begin

section \<open>Tail queues: the checks of \<open>QUEUEDEBUG\<close> and the \<open>SAFE\<close> traversals\<close>

text \<open>
  With \<open>QUEUEDEBUG\<close> defined, checks run before the statements of a macro and a removed entry is
  filled with the address 1, which no object has.  A failed check is \<open>err(1, ...)\<close>.  The program
  is built without it; on well-formed queues the two builds are shown to do the same, and
  where the queue is misused the checks find some of the misuse and not the rest.
\<close>

definition TAILQ_HEAD_INITIALIZER :: "nat \<Rightarrow> tq_head" where
  "TAILQ_HEAD_INITIALIZER h = \<lparr>tqh_first = None, tqh_last = First h\<rparr>"

subsection \<open>The checks\<close>

definition QUEUEDEBUG_TAILQ_INSERT_HEAD :: "nat \<Rightarrow> tq_mem \<Rightarrow> fault + unit" where
  "QUEUEDEBUG_TAILQ_INSERT_HEAD h m =
     bindR (TAILQ_FIRST h m) (\<lambda>first.
       case first of
         None \<Rightarrow> Inr ()
       | Some x \<Rightarrow> bindR (get_entry x m) (\<lambda>y. if tqe_prev y \<noteq> First h then Inl (Exited 1) else Inr ()))"

definition QUEUEDEBUG_TAILQ_INSERT_TAIL :: "nat \<Rightarrow> tq_mem \<Rightarrow> fault + unit" where
  "QUEUEDEBUG_TAILQ_INSERT_TAIL h m =
     bindR (get_head h m) (\<lambda>x.
     bindR (load_cell (tqh_last x) m) (\<lambda>v. if v \<noteq> None then Inl (Exited 1) else Inr ()))"

definition QUEUEDEBUG_TAILQ_OP :: "nat \<Rightarrow> tq_mem \<Rightarrow> fault + unit" where
  "QUEUEDEBUG_TAILQ_OP elm m =
     bindR (get_entry elm m) (\<lambda>x.
     bindR (case tqe_next x of
              None \<Rightarrow> Inr ()
            | Some n \<Rightarrow> bindR (get_entry n m) (\<lambda>y. if tqe_prev y \<noteq> Next elm then Inl (Exited 1) else Inr ())) (\<lambda>_.
     bindR (load_cell (tqe_prev x) m) (\<lambda>v. if v \<noteq> Some elm then Inl (Exited 1) else Inr ())))"

definition QUEUEDEBUG_TAILQ_PREREMOVE :: "nat \<Rightarrow> nat \<Rightarrow> tq_mem \<Rightarrow> fault + unit" where
  "QUEUEDEBUG_TAILQ_PREREMOVE h elm m =
     bindR (get_entry elm m) (\<lambda>x.
       if tqe_next x \<noteq> None then Inr ()
       else bindR (get_head h m) (\<lambda>y. if tqh_last y \<noteq> Next elm then Inl (Exited 1) else Inr ()))"

definition QUEUEDEBUG_TAILQ_POSTREMOVE :: "nat \<Rightarrow> tq_mem \<Rightarrow> fault + tq_mem" where
  "QUEUEDEBUG_TAILQ_POSTREMOVE elm m =
     bindR (upd_entry elm (tqe_next_update (\<lambda>_. Some 1)) m) (\<lambda>m1.
       upd_entry elm (tqe_prev_update (\<lambda>_. First 1)) m1)"

subsection \<open>The macros with their checks\<close>

definition TAILQ_INSERT_HEAD_debug :: "nat \<Rightarrow> nat \<Rightarrow> tq_mem \<Rightarrow> fault + tq_mem" where
  "TAILQ_INSERT_HEAD_debug h elm m =
     bindR (QUEUEDEBUG_TAILQ_INSERT_HEAD h m) (\<lambda>_. TAILQ_INSERT_HEAD h elm m)"

definition TAILQ_INSERT_TAIL_debug :: "nat \<Rightarrow> nat \<Rightarrow> tq_mem \<Rightarrow> fault + tq_mem" where
  "TAILQ_INSERT_TAIL_debug h elm m =
     bindR (QUEUEDEBUG_TAILQ_INSERT_TAIL h m) (\<lambda>_. TAILQ_INSERT_TAIL h elm m)"

definition TAILQ_INSERT_AFTER_debug :: "nat \<Rightarrow> nat \<Rightarrow> nat \<Rightarrow> tq_mem \<Rightarrow> fault + tq_mem" where
  "TAILQ_INSERT_AFTER_debug h listelm elm m =
     bindR (QUEUEDEBUG_TAILQ_OP listelm m) (\<lambda>_. TAILQ_INSERT_AFTER h listelm elm m)"

definition TAILQ_INSERT_BEFORE_debug :: "nat \<Rightarrow> nat \<Rightarrow> tq_mem \<Rightarrow> fault + tq_mem" where
  "TAILQ_INSERT_BEFORE_debug listelm elm m =
     bindR (QUEUEDEBUG_TAILQ_OP listelm m) (\<lambda>_. TAILQ_INSERT_BEFORE listelm elm m)"

definition TAILQ_REMOVE_debug :: "nat \<Rightarrow> nat \<Rightarrow> tq_mem \<Rightarrow> fault + tq_mem" where
  "TAILQ_REMOVE_debug h elm m =
     bindR (QUEUEDEBUG_TAILQ_PREREMOVE h elm m) (\<lambda>_.
     bindR (QUEUEDEBUG_TAILQ_OP elm m) (\<lambda>_.
     bindR (TAILQ_REMOVE h elm m) (QUEUEDEBUG_TAILQ_POSTREMOVE elm)))"

definition TAILQ_REPLACE_debug :: "nat \<Rightarrow> nat \<Rightarrow> nat \<Rightarrow> tq_mem \<Rightarrow> fault + tq_mem" where
  "TAILQ_REPLACE_debug h elm elm2 m =
     bindR (TAILQ_REPLACE h elm elm2 m) (QUEUEDEBUG_TAILQ_POSTREMOVE elm)"

definition TAILQ_FOREACH_SAFE :: "nat \<Rightarrow> (nat \<Rightarrow> tq_mem \<Rightarrow> fault + tq_mem) \<Rightarrow> tq_mem \<Rightarrow> (fault + tq_mem) option" where
  "TAILQ_FOREACH_SAFE h body m =
     (case TAILQ_FIRST h m of
        Inl f \<Rightarrow> Some (Inl f)
      | Inr first \<Rightarrow> foreach_safe TAILQ_NEXT body first m)"

definition TAILQ_FOREACH_REVERSE_SAFE :: "nat \<Rightarrow> (nat \<Rightarrow> tq_mem \<Rightarrow> fault + tq_mem) \<Rightarrow> tq_mem \<Rightarrow> (fault + tq_mem) option" where
  "TAILQ_FOREACH_REVERSE_SAFE h body m =
     (case TAILQ_LAST h m of
        Inl f \<Rightarrow> Some (Inl f)
      | Inr l \<Rightarrow> foreach_safe TAILQ_PREV body l m)"

subsection \<open>On well-formed queues\<close>

lemma tailq_initializer: "tailq (m\<lparr>tq_heads := (tq_heads m)(h \<mapsto> TAILQ_HEAD_INITIALIZER h)\<rparr>) h []"
  by (simp add: tailq_def TAILQ_HEAD_INITIALIZER_def)

lemma tailq_check_op: "tailq m h (xs @ x # ys) \<Longrightarrow> QUEUEDEBUG_TAILQ_OP x m = Inr ()"
  by (cases xs rule: rev_cases; cases ys) (auto simp: QUEUEDEBUG_TAILQ_OP_def tq_mem_simps tailq_def)

lemma tailq_check_head: "tailq m h xs \<Longrightarrow> QUEUEDEBUG_TAILQ_INSERT_HEAD h m = Inr ()"
  by (cases xs) (auto simp: QUEUEDEBUG_TAILQ_INSERT_HEAD_def TAILQ_FIRST_def tq_mem_simps tailq_def)

lemma tailq_check_tail: "tailq m h xs \<Longrightarrow> QUEUEDEBUG_TAILQ_INSERT_TAIL h m = Inr ()"
  using load_last_cell [of m h xs "[]"]
  by (simp add: QUEUEDEBUG_TAILQ_INSERT_TAIL_def get_head_def tailq_def)

lemma tailq_check_preremove: "tailq m h (xs @ x # ys) \<Longrightarrow> QUEUEDEBUG_TAILQ_PREREMOVE h x m = Inr ()"
  by (cases ys) (auto simp: QUEUEDEBUG_TAILQ_PREREMOVE_def tq_mem_simps tailq_def)

text \<open>Filling the links of an element that is not in the queue.\<close>

lemma tailq_filled:
  assumes "tailq m h xs" and "x \<notin> set xs" and "tq_elems m x \<noteq> None"
  shows "QUEUEDEBUG_TAILQ_POSTREMOVE x m
      = Inr (m\<lparr>tq_elems := (tq_elems m)(x \<mapsto> \<lparr>tqe_next = Some 1, tqe_prev = First 1\<rparr>)\<rparr>)"
    and "tailq (m\<lparr>tq_elems := (tq_elems m)(x \<mapsto> \<lparr>tqe_next = Some 1, tqe_prev = First 1\<rparr>)\<rparr>) h xs"
proof -
  from assms(3) obtain n p where "tq_elems m x = Some \<lparr>tqe_next = n, tqe_prev = p\<rparr>"
    by (metis not_None_eq tq_entry.surjective old.unit.exhaust)
  then show "QUEUEDEBUG_TAILQ_POSTREMOVE x m
      = Inr (m\<lparr>tq_elems := (tq_elems m)(x \<mapsto> \<lparr>tqe_next = Some 1, tqe_prev = First 1\<rparr>)\<rparr>)"
    by (simp add: QUEUEDEBUG_TAILQ_POSTREMOVE_def tq_mem_simps)
  show "tailq (m\<lparr>tq_elems := (tq_elems m)(x \<mapsto> \<lparr>tqe_next = Some 1, tqe_prev = First 1\<rparr>)\<rparr>) h xs"
    using assms(1,2) by (simp add: tailq_def)
qed

lemma entry_stays: "only_changes H A m m' \<Longrightarrow> tq_elems m x \<noteq> None \<Longrightarrow> tq_elems m' x \<noteq> None"
  by (auto simp: only_changes_def dom_def)

subsection \<open>Traversals that free\<close>

definition tq_free :: "nat \<Rightarrow> tq_mem \<Rightarrow> fault + tq_mem" where
  "tq_free e m = (case tq_elems m e of
     None \<Rightarrow> Inl Use_after_free | Some _ \<Rightarrow> Inr (m\<lparr>tq_elems := (tq_elems m)(e := None)\<rparr>))"

lemma tailq_foreach_safe_frees:
  assumes "tailq m h xs"
  shows "\<exists>m'. TAILQ_FOREACH_SAFE h tq_free m = Some (Inr m') \<and> tq_elems m' = tq_elems m |` (- set xs)"
proof -
  have "\<exists>m'. foreach_safe TAILQ_NEXT tq_free (first_of xs None) m = Some (Inr m')
    \<and> tq_elems m' = tq_elems m |` (- set xs)"
    by (rule foreach_safe_frees) (use assms in \<open>auto simp: tailq_def TAILQ_NEXT_def get_entry_def tq_free_def\<close>)
  with assms show ?thesis by (simp add: TAILQ_FOREACH_SAFE_def tailq_first)
qed

subsection \<open>An element inserted twice\<close>

text \<open>A chain of links that leads to an element whose link is itself is never left.\<close>

lemma walk_self_loop:
  assumes "tq_elems m e = Some x" and "tqe_next x = Some e"
  shows "tailq_walk (Some e) m = None"
proof (rule ccontr)
  assume "tailq_walk (Some e) m \<noteq> None"
  then obtain r where r: "tailq_walk (Some e) m = Some r" by blast
  have "Some e = Some e \<and> m = m \<longrightarrow> False"
  proof (rule tailq_walk.raw_induct [where P = "\<lambda>v mm r. v = Some e \<and> mm = m \<longrightarrow> False", OF _ r])
    fix walk var mm r
    assume IH: "\<And>v mm r. walk v mm = Some r \<Longrightarrow> v = Some e \<and> mm = m \<longrightarrow> False"
      and body: "(case var of None \<Rightarrow> Some (Inr [])
        | Some e \<Rightarrow> (case TAILQ_NEXT e mm of Inl f \<Rightarrow> Some (Inl f)
            | Inr n \<Rightarrow> Option.bind (walk n mm) (\<lambda>r. Some (map_sum id ((#) e) r)))) = Some r"
    have "TAILQ_NEXT e m = Inr (Some e)" using assms by (simp add: TAILQ_NEXT_def get_entry_def)
    with body IH [of "Some e" m] show "var = Some e \<and> mm = m \<longrightarrow> False"
      by (auto split: Option.bind_splits)
  qed
  then show False by simp
qed

lemma walk_leads_to_loop:
  assumes "chain (tq_elems m) l xs (Some e)" and "tq_elems m e = Some x" and "tqe_next x = Some e"
  shows "tailq_walk (first_of xs (Some e)) m = None"
  using assms(1)
proof (induction xs arbitrary: l)
  case Nil
  then show ?case using walk_self_loop [OF assms(2,3)] by simp
next
  case (Cons y ys)
  then have "TAILQ_NEXT y m = Inr (first_of ys (Some e))" by (simp add: TAILQ_NEXT_def get_entry_def)
  moreover have "tailq_walk (first_of ys (Some e)) m = None"
    using Cons.IH [of "Next y"] Cons.prems by simp
  ultimately show ?case by (simp add: tailq_walk.simps [of "Some y"])
qed

text \<open>The element that is inserted again is made its own successor, and the check for it passes.\<close>

lemma tailq_insert_last_again:
  assumes "tailq m h (xs @ [e])"
  shows "\<exists>m'. TAILQ_INSERT_TAIL h e m = Inr m' \<and> TAILQ_INSERT_TAIL_debug h e m = Inr m'
    \<and> TAILQ_FOREACH h m' = None"
proof -
  from assms have e: "tq_elems m e = Some \<lparr>tqe_next = None, tqe_prev = last_cell (First h) xs\<rparr>"
    and hd: "tq_heads m h = Some \<lparr>tqh_first = first_of xs (Some e), tqh_last = Next e\<rparr>"
    and ch: "chain (tq_elems m) (First h) xs (Some e)" and d: "e \<notin> set xs" by (simp_all add: tailq_def)
  let ?m' = "m\<lparr>tq_elems := (tq_elems m)(e \<mapsto> \<lparr>tqe_next = Some e, tqe_prev = Next e\<rparr>),
    tq_heads := (tq_heads m)(h \<mapsto> \<lparr>tqh_first = first_of xs (Some e), tqh_last = Next e\<rparr>)\<rparr>"
  have ins: "TAILQ_INSERT_TAIL h e m = Inr ?m'"
    using e hd by (simp add: TAILQ_INSERT_TAIL_def tq_mem_simps)
  have "tailq_walk (first_of xs (Some e)) ?m' = None"
    by (rule walk_leads_to_loop [where l = "First h" and x = "\<lparr>tqe_next = Some e, tqe_prev = Next e\<rparr>"])
      (use ch d in \<open>simp_all\<close>)
  then have "TAILQ_FOREACH h ?m' = None" by (simp add: TAILQ_FOREACH_def TAILQ_FIRST_def get_head_def)
  with ins tailq_check_tail [OF assms] show ?thesis by (simp add: TAILQ_INSERT_TAIL_debug_def)
qed

subsection \<open>Properties\<close>

text \<open>C37: The build with QUEUEDEBUG and the one without do the same to a well-formed tail queue, empty or not:
  every insertion returns in both, with the same memory, which holds the list with the new
  element; replacing and removing an element return in both, and the memories differ only in that
  the build with QUEUEDEBUG has filled the links of the element that was taken out with the address
  1.  In that build, as long as no element is at the address 1, removing the element a second time is a
  fault.\<close>

theorem tailq_debug_equivalent:
  assumes "tailq m h zs" and "e \<notin> set zs" and "tq_elems m e \<noteq> None"
  defines "same op_debug op us \<equiv> \<exists>m'. op_debug = Inr m' \<and> op = Inr m' \<and> tailq m' h us
      \<and> only_changes {h} (insert e (set zs)) m m'"
    and "same_but op_debug op x us \<equiv> \<exists>m'. op = Inr m' \<and> tailq m' h us
      \<and> only_changes {h} (insert e (set zs)) m m'
      \<and> op_debug = Inr (m'\<lparr>tq_elems := (tq_elems m')(x \<mapsto> \<lparr>tqe_next = Some 1, tqe_prev = First 1\<rparr>)\<rparr>)
      \<and> tailq (m'\<lparr>tq_elems := (tq_elems m')(x \<mapsto> \<lparr>tqe_next = Some 1, tqe_prev = First 1\<rparr>)\<rparr>) h us"
  shows "same (TAILQ_INSERT_HEAD_debug h e m) (TAILQ_INSERT_HEAD h e m) (e # zs)
    \<and> same (TAILQ_INSERT_TAIL_debug h e m) (TAILQ_INSERT_TAIL h e m) (zs @ [e])
    \<and> (\<forall>xs x ys. zs = xs @ x # ys \<longrightarrow>
         same (TAILQ_INSERT_AFTER_debug h x e m) (TAILQ_INSERT_AFTER h x e m) (xs @ x # e # ys)
       \<and> same (TAILQ_INSERT_BEFORE_debug x e m) (TAILQ_INSERT_BEFORE x e m) (xs @ e # x # ys)
       \<and> same_but (TAILQ_REPLACE_debug h x e m) (TAILQ_REPLACE h x e m) x (xs @ e # ys)
       \<and> same_but (TAILQ_REMOVE_debug h x m) (TAILQ_REMOVE h x m) x (xs @ ys)
       \<and> (tq_elems m 1 = None \<longrightarrow>
            bindR (TAILQ_REMOVE_debug h x m) (TAILQ_REMOVE_debug h x) = Inl Use_after_free))"
proof (intro conjI allI impI)
  show "same (TAILQ_INSERT_HEAD_debug h e m) (TAILQ_INSERT_HEAD h e m) (e # zs)"
    using tailq_insert_head [OF assms(1-3)] tailq_check_head [OF assms(1)]
    by (simp add: same_def TAILQ_INSERT_HEAD_debug_def)
  show "same (TAILQ_INSERT_TAIL_debug h e m) (TAILQ_INSERT_TAIL h e m) (zs @ [e])"
    using tailq_insert_tail [OF assms(1-3)] tailq_check_tail [OF assms(1)]
    by (simp add: same_def TAILQ_INSERT_TAIL_debug_def)
next
  fix xs x ys
  assume zs: "zs = xs @ x # ys"
  note at = assms(1-3) [unfolded zs]
  show "same (TAILQ_INSERT_AFTER_debug h x e m) (TAILQ_INSERT_AFTER h x e m) (xs @ x # e # ys)"
    "same (TAILQ_INSERT_BEFORE_debug x e m) (TAILQ_INSERT_BEFORE x e m) (xs @ e # x # ys)"
    using tailq_insert_after [OF at] tailq_insert_before [OF at] tailq_check_op [OF at(1)]
    by (simp_all add: same_def zs TAILQ_INSERT_AFTER_debug_def TAILQ_INSERT_BEFORE_debug_def)
  show "same_but (TAILQ_REPLACE_debug h x e m) (TAILQ_REPLACE h x e m) x (xs @ e # ys)"
  proof -
    from tailq_replace [OF at] obtain m' where m': "TAILQ_REPLACE h x e m = Inr m'" "tailq m' h (xs @ e # ys)"
      "only_changes {h} (insert e (set zs)) m m'" unfolding zs by blast
    have x: "x \<notin> set (xs @ e # ys)" using at by (auto simp: tailq_def)
    from tailq_filled [OF m'(2) x entry_stays [OF m'(3)]] at(1) m' show ?thesis
      by (simp add: same_but_def TAILQ_REPLACE_debug_def tailq_def)
  qed
  obtain m' where m': "TAILQ_REMOVE h x m = Inr m'" "tailq m' h (xs @ ys)"
    "only_changes {h} (insert e (set zs)) m m'"
    using tailq_remove [OF at(1)] unfolding zs only_changes_def by blast
  have x: "x \<notin> set (xs @ ys)" using at(1) by (simp add: tailq_def)
  note filled = tailq_filled [OF m'(2) x entry_stays [OF m'(3)]]
  have rem: "TAILQ_REMOVE_debug h x m
      = Inr (m'\<lparr>tq_elems := (tq_elems m')(x \<mapsto> \<lparr>tqe_next = Some 1, tqe_prev = First 1\<rparr>)\<rparr>)"
    using filled(1) at(1) m'(1) tailq_check_op [OF at(1)] tailq_check_preremove [OF at(1)]
    by (simp add: TAILQ_REMOVE_debug_def tailq_def)
  with m' filled(2) at(1) show "same_but (TAILQ_REMOVE_debug h x m) (TAILQ_REMOVE h x m) x (xs @ ys)"
    by (simp add: same_but_def tailq_def)
  assume "tq_elems m 1 = None"
  with m'(3) have "tq_elems m' 1 = None" using only_changes_usable by (metis tq_usable_def)
  moreover have "tq_elems m x \<noteq> None" using at(1) by (simp add: tailq_def)
  then have "x \<noteq> 1" using \<open>tq_elems m 1 = None\<close> by metis
  ultimately show "bindR (TAILQ_REMOVE_debug h x m) (TAILQ_REMOVE_debug h x) = Inl Use_after_free"
    using rem by (simp add: TAILQ_REMOVE_debug_def [of _ _ "_\<lparr>tq_elems := _\<rparr>"] QUEUEDEBUG_TAILQ_PREREMOVE_def QUEUEDEBUG_TAILQ_OP_def
        tq_mem_simps)
qed

definition tailq_of_two :: tq_mem where
  "tailq_of_two = \<lparr>tq_heads = [10 \<mapsto> \<lparr>tqh_first = Some 2, tqh_last = Next 3\<rparr>],
     tq_elems = [2 \<mapsto> \<lparr>tqe_next = Some 3, tqe_prev = First 10\<rparr>,
                 3 \<mapsto> \<lparr>tqe_next = None, tqe_prev = Next 2\<rparr>,
                 4 \<mapsto> \<lparr>tqe_next = None, tqe_prev = First 99\<rparr>]\<rparr>"

lemma tailq_of_two: "tailq tailq_of_two 10 [2, 3]"
  by (simp add: tailq_of_two_def tailq_def)

theorem tailq_debug_equivalent_witness:
  "bindR (TAILQ_REMOVE_debug 10 3 tailq_of_two) (TAILQ_REMOVE_debug 10 3) = Inl Use_after_free
    \<and> (\<exists>m'. TAILQ_INSERT_TAIL_debug 10 4 tailq_of_two = Inr m' \<and> tailq m' 10 [2, 3, 4])"
proof -
  have q: "4 \<notin> set [2, 3 :: nat]" "tq_elems tailq_of_two 4 \<noteq> None" "tq_elems tailq_of_two 1 = None"
    by (simp_all add: tailq_of_two_def)
  note all = tailq_debug_equivalent [OF tailq_of_two q(1,2)]
  from all [THEN conjunct2, THEN conjunct2, rule_format, of "[2]" 3 "[]"] q(3)
  have "bindR (TAILQ_REMOVE_debug 10 3 tailq_of_two) (TAILQ_REMOVE_debug 10 3) = Inl Use_after_free" by simp
  moreover from all have "\<exists>m'. TAILQ_INSERT_TAIL_debug 10 4 tailq_of_two = Inr m' \<and> tailq m' 10 [2, 3, 4]" by auto
  ultimately show ?thesis by blast
qed

text \<open>Inserting at the tail the element that is already there makes it its own successor: the insertion
  returns, with and without QUEUEDEBUG, and no traversal of the queue ends any more.\<close>

theorem double_insert_never_ends:
  assumes "tailq m h (xs @ [e])"
  shows "\<exists>m'. TAILQ_INSERT_TAIL h e m = Inr m' \<and> TAILQ_INSERT_TAIL_debug h e m = Inr m'
    \<and> TAILQ_FOREACH h m' = None"
  using tailq_insert_last_again [OF assms] .

theorem double_insert_never_ends_witness:
  "\<exists>m'. TAILQ_INSERT_TAIL 10 3 tailq_of_two = Inr m' \<and> TAILQ_FOREACH 10 m' = None"
proof -
  have "tailq tailq_of_two 10 ([2] @ [3])" using tailq_of_two by simp
  from double_insert_never_ends [OF this] show ?thesis by blast
qed

end
