(* ===== verification/Bufpool_Heap.thy ===== *)
theory Bufpool_Heap
  imports Bufpool Queue_Contract
begin

section \<open>The buffer pool on a heap (src/xtp\_bufpool.c)\<close>

text \<open>
  \<open>Bufpool\<close> has the free list as a list of buffers.  Here it is what the code makes of it: blocks
  with addresses, chained through their field \<open>next\<close> from \<open>bp->head\<close>; the client holds
  addresses.  Reading a block that has been freed is a fault.  \<open>malloc\<close> is answered as in
  \<open>Bufpool\<close>; a new block has an address that was not used before.
\<close>

record buf_node =
  bn_next :: "nat option"
  bn_buf :: xtp_buf

record pool_mem =
  pm_n :: int
  pm_max :: int
  pm_size :: int
  pm_offset :: nat
  pm_head :: "nat option"
  pm_nodes :: "nat \<rightharpoonup> buf_node"
  pm_brk :: nat

subsection \<open>Operations\<close>

definition node_get :: "nat \<Rightarrow> pool_mem \<Rightarrow> fault + buf_node" where
  "node_get a m = (case pm_nodes m a of None \<Rightarrow> Inl Use_after_free | Some nd \<Rightarrow> Inr nd)"

text \<open>A block just cleared by \<open>memset\<close>, with \<open>bp\<close>, \<open>start\<close> and \<open>end\<close> set.\<close>

definition new_node :: "pool_mem \<Rightarrow> buf_node" where
  "new_node m = \<lparr>bn_next = None,
     bn_buf = \<lparr>b_bp = True, b_mem = replicate (nat (pm_size m)) 0, b_start = pm_offset m,
       b_end = nat (pm_size m) - 1, b_pos = 0, b_last = 0, b_size = 0\<rparr>\<rparr>"

text \<open>The address \<open>pm_brk\<close> is the one \<open>malloc\<close> has given.\<close>

definition link_new :: "buf_node \<Rightarrow> pool_mem \<Rightarrow> pool_mem" where
  "link_new nd m = m\<lparr>pm_nodes := (pm_nodes m)(pm_brk m \<mapsto> nd\<lparr>bn_next := pm_head m\<rparr>),
     pm_head := Some (pm_brk m), pm_n := pm_n m + 1, pm_max := pm_max m + 1, pm_brk := pm_brk m + 1\<rparr>"

fun heap_init_loop :: "nat \<Rightarrow> pool_mem \<Rightarrow> bool list \<Rightarrow> fault + (pool_mem \<times> bool list)" where
  "heap_init_loop 0 m ms = Inr (m, ms)"
| "heap_init_loop (Suc i) m ms =
     bindR (pop ms) (\<lambda>(ok, ms').
       heap_init_loop i (if ok then link_new (new_node m) m else m) ms')"

definition heap_buf_init :: "int \<Rightarrow> int \<Rightarrow> bool list \<Rightarrow> fault + (pool_mem \<times> bool list)" where
  "heap_buf_init mx sz ms =
     heap_init_loop (nat mx) \<lparr>pm_n = 0, pm_max = 0, pm_size = sz, pm_offset = sizeof_xtp_buf,
       pm_head = None, pm_nodes = (\<lambda>_. None), pm_brk = 0\<rparr> ms"

partial_function (option) heap_buf_uninit :: "pool_mem \<Rightarrow> (fault + pool_mem) option" where
  "heap_buf_uninit m =
     (case pm_head m of
        None \<Rightarrow> Some (Inr m)
      | Some tmp \<Rightarrow>
          (case node_get tmp m of
             Inl e \<Rightarrow> Some (Inl e)
           | Inr nd \<Rightarrow>
               heap_buf_uninit (m\<lparr>pm_head := bn_next nd, pm_nodes := (pm_nodes m)(tmp := None)\<rparr>)))"

declare heap_buf_uninit.simps [code]

fun heap_ralloc_loop :: "nat \<Rightarrow> pool_mem \<Rightarrow> bool list \<Rightarrow> fault + (pool_mem \<times> bool list)" where
  "heap_ralloc_loop 0 m ms = Inr (m, ms)"
| "heap_ralloc_loop (Suc i) m ms =
     bindR (pop ms) (\<lambda>(ok, ms').
       heap_ralloc_loop i
         (if ok then link_new (bn_buf_update (\<lambda>b. b\<lparr>b_pos := pm_offset m, b_last := pm_offset m\<rparr>) (new_node m)) m
          else m) ms')"

definition heap_buf_ralloc :: "pool_mem \<Rightarrow> int \<Rightarrow> bool list \<Rightarrow> fault + (pool_mem \<times> bool list)" where
  "heap_buf_ralloc m num ms =
     (let m1 = m\<lparr>pm_max := (if pm_max m \<noteq> 0 then pm_max m else 1)\<rparr>;
          num1 = (if num \<noteq> 0 then num else pm_max m1)
      in heap_ralloc_loop (nat num1) m1 ms)"

definition heap_reset :: "pool_mem \<Rightarrow> xtp_buf \<Rightarrow> xtp_buf" where
  "heap_reset m buf = buf\<lparr>b_start := pm_offset m, b_end := nat (pm_size m) - 1,
     b_pos := pm_offset m, b_last := pm_offset m\<rparr>"

definition heap_take :: "nat \<Rightarrow> buf_node \<Rightarrow> pool_mem \<Rightarrow> pool_mem" where
  "heap_take a nd m = m\<lparr>pm_head := bn_next nd, pm_n := pm_n m - 1,
     pm_nodes := (pm_nodes m)(a \<mapsto> \<lparr>bn_next = None, bn_buf = heap_reset m (bn_buf nd)\<rparr>)\<rparr>"

partial_function (option) heap_buf_alloc ::
  "pool_mem \<Rightarrow> bool list \<Rightarrow> (fault + (nat \<times> pool_mem \<times> bool list)) option" where
  "heap_buf_alloc m ms =
     (case pm_head m of
        None \<Rightarrow>
          (case heap_buf_ralloc m 0 ms of
             Inl e \<Rightarrow> None
           | Inr r \<Rightarrow> heap_buf_alloc (fst r) (snd r))
      | Some a \<Rightarrow>
          (case node_get a m of
             Inl e \<Rightarrow> Some (Inl e)
           | Inr nd \<Rightarrow> Some (Inr (a, heap_take a nd m, ms))))"

declare heap_buf_alloc.simps [code]

definition heap_buf_free :: "nat option \<Rightarrow> pool_mem \<Rightarrow> fault + pool_mem" where
  "heap_buf_free ao m =
     (case ao of
        None \<Rightarrow> Inr m
      | Some a \<Rightarrow>
          bindR (node_get a m) (\<lambda>nd.
            if \<not> b_bp (bn_buf nd) then Inr m
            else if b_size (bn_buf nd) > pm_size m
            then Inr (m\<lparr>pm_nodes := (pm_nodes m)(a := None), pm_max := pm_max m - 1\<rparr>)
            else Inr (m\<lparr>pm_nodes := (pm_nodes m)(a \<mapsto> nd\<lparr>bn_next := pm_head m\<rparr>),
                        pm_head := Some a, pm_n := pm_n m + 1\<rparr>)))"

subsection \<open>The free list and the blocks in use\<close>

abbreviation nexts :: "pool_mem \<Rightarrow> nat \<rightharpoonup> nat option" where
  "nexts m \<equiv> (\<lambda>a. map_option bn_next (pm_nodes m a))"

abbreviation buf_at :: "pool_mem \<Rightarrow> nat \<Rightarrow> xtp_buf" where
  "buf_at m a \<equiv> bn_buf (the (pm_nodes m a))"

text \<open>The pool of \<open>Bufpool\<close> that a heap stands for, given the addresses on its free list.\<close>

definition pool_of :: "pool_mem \<Rightarrow> nat list \<Rightarrow> xtp_buf_pool" where
  "pool_of m xs = \<lparr>bp_n = pm_n m, bp_max = pm_max m, bp_size = pm_size m, bp_offset = pm_offset m,
     bp_head = map (buf_at m) xs\<rparr>"

text \<open>
  \<open>free_list m xs\<close>: following \<open>next\<close> from \<open>head\<close> meets the addresses \<open>xs\<close>, all different, and
  ends at NULL.  \<open>blocks_ok m xs us\<close>: besides these there are exactly the blocks \<open>us\<close>, which the
  client holds; their \<open>next\<close> is NULL.
\<close>

definition free_list :: "pool_mem \<Rightarrow> nat list \<Rightarrow> bool" where
  "free_list m xs \<longleftrightarrow> pm_head m = first_of xs None \<and> distinct xs \<and> st_chain (nexts m) xs None"

definition blocks_ok :: "pool_mem \<Rightarrow> nat list \<Rightarrow> nat list \<Rightarrow> bool" where
  "blocks_ok m xs us \<longleftrightarrow> free_list m xs \<and> distinct (xs @ us) \<and> dom (pm_nodes m) = set xs \<union> set us
     \<and> (\<forall>a\<ge>pm_brk m. pm_nodes m a = None) \<and> (\<forall>u\<in>set us. nexts m u = Some None)
     \<and> pool_ok (pool_of m xs) \<and> (\<forall>u\<in>set us. block_ok (pool_of m xs) (buf_at m u))"

text \<open>Every pointer to a block that is stored anywhere is NULL or points to a block.\<close>

definition well_typed :: "pool_mem \<Rightarrow> bool" where
  "well_typed m \<longleftrightarrow> (\<forall>a. pm_head m = Some a \<longrightarrow> pm_nodes m a \<noteq> None)
     \<and> (\<forall>b nd a. pm_nodes m b = Some nd \<and> bn_next nd = Some a \<longrightarrow> pm_nodes m a \<noteq> None)"

lemma st_chain_points:
  "st_chain N xs n \<Longrightarrow> x \<in> set xs \<Longrightarrow> N x = Some (Some a) \<Longrightarrow> a \<in> set xs \<or> n = Some a"
proof (induction xs)
  case (Cons y ys)
  then show ?case by (cases "x = y"; cases ys) simp_all
qed simp

lemma blocks_ok_typed: "blocks_ok m xs us \<Longrightarrow> well_typed m"
proof -
  assume ok: "blocks_ok m xs us"
  then have dom: "dom (pm_nodes m) = set xs \<union> set us" and chain: "st_chain (nexts m) xs None"
    and us: "\<forall>u\<in>set us. nexts m u = Some None" and head: "pm_head m = first_of xs None"
    by (simp_all add: blocks_ok_def free_list_def)
  have "a \<in> dom (pm_nodes m)" if "pm_nodes m b = Some nd" "bn_next nd = Some a" for a b nd
  proof -
    have "b \<in> set xs \<union> set us" using that(1) dom by blast
    moreover have "nexts m b = Some (Some a)" using that by simp
    ultimately show ?thesis using st_chain_points [OF chain, of b a] us dom by fastforce
  qed
  moreover have "pm_head m = Some a \<Longrightarrow> a \<in> dom (pm_nodes m)" for a
    using head dom by (cases xs) auto
  ultimately show ?thesis unfolding well_typed_def by blast
qed

lemma pool_of_fields [simp]:
  "bp_n (pool_of m xs) = pm_n m" "bp_max (pool_of m xs) = pm_max m" "bp_size (pool_of m xs) = pm_size m"
  "bp_offset (pool_of m xs) = pm_offset m" "bp_head (pool_of m xs) = map (buf_at m) xs"
  by (simp_all add: pool_of_def)


lemma same_shape_pool_of: "same_shape (pool_of m xs) (pool_of m' ys) \<longleftrightarrow> pm_size m' = pm_size m \<and> pm_offset m' = pm_offset m"
  by (simp add: same_shape_def)

text \<open>A block is changed that is not on the free list.\<close>

lemma free_list_upd [simp]:
  "a \<notin> set xs \<Longrightarrow> free_list (m\<lparr>pm_nodes := (pm_nodes m)(a := x)\<rparr>) xs = free_list m xs"
proof -
  assume "a \<notin> set xs"
  have "nexts (m\<lparr>pm_nodes := (pm_nodes m)(a := x)\<rparr>) = (nexts m)(a := map_option bn_next x)" by auto
  with st_chain_upd [OF \<open>a \<notin> set xs\<close>, of "nexts m"] show ?thesis by (simp add: free_list_def)
qed

lemma free_list_push:
  assumes "free_list m xs" and "a \<notin> set xs" and "pm_head m' = Some a"
    and "pm_nodes m' = (pm_nodes m)(a \<mapsto> nd)" and "bn_next nd = pm_head m"
  shows "free_list m' (a # xs)"
proof -
  have "nexts m' = (nexts m)(a \<mapsto> bn_next nd)" using assms(4) by auto
  with assms st_chain_upd [OF assms(2), of "nexts m"] show ?thesis by (simp add: free_list_def)
qed

lemma map_buf_at_upd [simp]:
  "a \<notin> set xs \<Longrightarrow> map (\<lambda>b. bn_buf (the (((pm_nodes m)(a := x)) b))) xs = map (buf_at m) xs"
  by (induction xs) auto

lemma link_new_ok:
  assumes "blocks_ok m xs us" and "block_ok (pool_of m xs) (bn_buf nd)"
  shows "blocks_ok (link_new nd m) (pm_brk m # xs) us"
    and "pool_of (link_new nd m) (pm_brk m # xs) = push_buf (bn_buf nd) (pool_of m xs)"
    and "\<forall>u\<in>set us. pm_nodes (link_new nd m) u = pm_nodes m u"
proof -
  let ?a = "pm_brk m"
  have new: "pm_nodes m ?a = None" using assms(1) by (simp add: blocks_ok_def)
  then have fresh: "?a \<notin> set xs \<union> set us" using assms(1) unfolding blocks_ok_def by (metis domIff)
  show pool: "pool_of (link_new nd m) (?a # xs) = push_buf (bn_buf nd) (pool_of m xs)"
    using fresh by (simp add: pool_of_def link_new_def push_buf_def fun_upd_same del: fun_upd_apply)
  show same: "\<forall>u\<in>set us. pm_nodes (link_new nd m) u = pm_nodes m u"
    using fresh by (auto simp: link_new_def)
  have "free_list (link_new nd m) (?a # xs)"
    by (rule free_list_push [of m, where nd = "nd\<lparr>bn_next := pm_head m\<rparr>"]) (use assms(1) fresh in \<open>simp_all add: blocks_ok_def link_new_def\<close>)
  moreover have "pool_ok (pool_of (link_new nd m) (?a # xs))"
    using assms pool by (simp add: blocks_ok_def pool_ok_push)
  ultimately show "blocks_ok (link_new nd m) (?a # xs) us"
    using assms(1) fresh same unfolding blocks_ok_def pool
    by (auto simp: link_new_def)
qed


text \<open>
  What a refill of the heap owes to the refill of the list: the same answer, and the blocks in
  use as they were.
\<close>

definition refill_sim ::
  "nat list \<Rightarrow> pool_mem \<Rightarrow> fault + (xtp_buf_pool \<times> bool list) \<Rightarrow> fault + (pool_mem \<times> bool list) \<Rightarrow> bool"
  where
  "refill_sim us m r h \<longleftrightarrow> (case r of
       Inl e \<Rightarrow> h = Inl e
     | Inr (bp', ms') \<Rightarrow> \<exists>m' ys. h = Inr (m', ms') \<and> blocks_ok m' ys us \<and> pool_of m' ys = bp'
         \<and> (\<forall>u\<in>set us. pm_nodes m' u = pm_nodes m u))"

lemma refill_sim_trans:
  "refill_sim us m1 r h \<Longrightarrow> \<forall>u\<in>set us. pm_nodes m1 u = pm_nodes m u \<Longrightarrow> refill_sim us m r h"
  by (auto simp: refill_sim_def split: sum.splits prod.splits)

lemma ralloc_loop_sim:
  "blocks_ok m xs us \<Longrightarrow> refill_sim us m (ralloc_loop i (pool_of m xs) ms) (heap_ralloc_loop i m ms)"
proof (induction i arbitrary: m xs ms)
  case 0
  then show ?case by (auto simp: refill_sim_def)
next
  case (Suc i)
  show ?case
  proof (cases ms)
    case Nil
    then show ?thesis by (simp add: refill_sim_def)
  next
    case (Cons ok ms1)
    let ?b = "(malloc_buf (pool_of m xs))\<lparr>b_pos := pm_offset m, b_last := pm_offset m\<rparr>"
    let ?nd = "bn_buf_update (\<lambda>b. b\<lparr>b_pos := pm_offset m, b_last := pm_offset m\<rparr>) (new_node m)"
    have nd: "bn_buf ?nd = ?b" by (simp add: new_node_def malloc_buf_def)
    have "block_ok (pool_of m xs) ?b" by (simp add: malloc_buf_ok)
    note link = link_new_ok [OF Suc.prems, of ?nd, unfolded nd, OF this]
    show ?thesis
    proof (cases ok)
      case True
      with Cons refill_sim_trans [OF Suc.IH [OF link(1)] link(3)] show ?thesis by (simp add: link(2))
    next
      case False
      with Cons Suc show ?thesis by simp
    qed
  qed
qed

lemma init_loop_sim:
  "blocks_ok m xs us \<Longrightarrow> refill_sim us m (init_loop i (pool_of m xs) ms) (heap_init_loop i m ms)"
proof (induction i arbitrary: m xs ms)
  case 0
  then show ?case by (auto simp: refill_sim_def)
next
  case (Suc i)
  show ?case
  proof (cases ms)
    case Nil
    then show ?thesis by (simp add: refill_sim_def)
  next
    case (Cons ok ms1)
    have nd: "bn_buf (new_node m) = malloc_buf (pool_of m xs)" by (simp add: new_node_def malloc_buf_def)
    note link = link_new_ok [OF Suc.prems, of "new_node m", unfolded nd, OF malloc_buf_ok]
    show ?thesis
    proof (cases ok)
      case True
      with Cons refill_sim_trans [OF Suc.IH [OF link(1)] link(3)] show ?thesis by (simp add: link(2))
    next
      case False
      with Cons Suc show ?thesis by simp
    qed
  qed
qed

lemma blocks_ok_max: "blocks_ok (m\<lparr>pm_max := k\<rparr>) xs us = blocks_ok m xs us"
proof -
  have "pool_of (m\<lparr>pm_max := k\<rparr>) xs = (pool_of m xs)\<lparr>bp_max := k\<rparr>" by (simp add: pool_of_def)
  then have "pool_ok (pool_of (m\<lparr>pm_max := k\<rparr>) xs) = pool_ok (pool_of m xs)" by (metis pool_ok_max)
  then show ?thesis by (simp add: blocks_ok_def free_list_def block_ok_def)
qed

lemma buf_ralloc_sim:
  assumes "blocks_ok m xs us"
  shows "refill_sim us m (x_buf_ralloc (pool_of m xs) num ms) (heap_buf_ralloc m num ms)"
proof -
  define k where "k = (if pm_max m \<noteq> 0 then pm_max m else 1)"
  have l: "x_buf_ralloc (pool_of m xs) num ms
      = ralloc_loop (nat (if num \<noteq> 0 then num else k)) ((pool_of m xs)\<lparr>bp_max := k\<rparr>) ms"
    by (simp add: x_buf_ralloc_def k_def Let_def del: ralloc_loop.simps)
  have h: "heap_buf_ralloc m num ms
      = heap_ralloc_loop (nat (if num \<noteq> 0 then num else k)) (m\<lparr>pm_max := k\<rparr>) ms"
    by (simp add: heap_buf_ralloc_def k_def Let_def del: heap_ralloc_loop.simps)
  have pool: "pool_of (m\<lparr>pm_max := k\<rparr>) xs = (pool_of m xs)\<lparr>bp_max := k\<rparr>" by (simp add: pool_of_def)
  have "blocks_ok (m\<lparr>pm_max := k\<rparr>) xs us" using assms by (simp only: blocks_ok_max)
  then show ?thesis
    unfolding l h pool [symmetric] by (rule refill_sim_trans [OF ralloc_loop_sim]) simp
qed

lemma buf_init_sim:
  assumes "int sizeof_xtp_buf + 1 < sz" and "sz < 2 ^ 31"
  shows "refill_sim [] \<lparr>pm_n = 0, pm_max = 0, pm_size = sz, pm_offset = sizeof_xtp_buf,
       pm_head = None, pm_nodes = (\<lambda>_. None), pm_brk = 0\<rparr> (x_buf_init mx sz ms) (heap_buf_init mx sz ms)"
proof -
  let ?m = "\<lparr>pm_n = 0, pm_max = 0, pm_size = sz, pm_offset = sizeof_xtp_buf,
       pm_head = None, pm_nodes = (\<lambda>_. None), pm_brk = 0\<rparr>"
  have "blocks_ok ?m [] []"
    using assms by (simp add: blocks_ok_def free_list_def pool_of_def pool_ok_def geometry_def)
  from init_loop_sim [OF this] show ?thesis by (simp add: x_buf_init_def heap_buf_init_def pool_of_def)
qed

lemma init_list_heap:
  assumes "int sizeof_xtp_buf + 1 < sz" and "sz < 2 ^ 31"
  shows "case x_buf_init mx sz ms of
      Inl f \<Rightarrow> heap_buf_init mx sz ms = Inl f
    | Inr (bp', ms') \<Rightarrow> \<exists>m' ys. heap_buf_init mx sz ms = Inr (m', ms') \<and> blocks_ok m' ys []
        \<and> pool_of m' ys = bp' \<and> pm_size m' = sz \<and> pm_n m' = pm_max m'
        \<and> length ys = length (filter id (take (nat mx) ms)) \<and> dom (pm_nodes m') = set ys"
proof (cases "x_buf_init mx sz ms")
  case (Inl f)
  with buf_init_sim [OF assms, of mx ms] show ?thesis by (simp add: refill_sim_def)
next
  case (Inr r)
  obtain bp' ms' where r: "r = (bp', ms')" by (cases r)
  from buf_init_sim [OF assms, of mx ms] Inr r obtain m' ys where
    m': "heap_buf_init mx sz ms = Inr (m', ms')" "blocks_ok m' ys []" "pool_of m' ys = bp'"
    by (auto simp: refill_sim_def)
  from x_buf_init_ok [OF Inr [unfolded r] assms] m'(3) have
    "pm_size m' = sz" "pm_n m' = pm_max m'" "pm_n m' = int (length (filter id (take (nat mx) ms)))"
    by (auto simp: successes_def)
  moreover have "pm_n m' = int (length ys)" "dom (pm_nodes m') = set ys"
    using m'(2) by (simp_all add: blocks_ok_def pool_ok_def)
  ultimately show ?thesis using Inr r m' by auto
qed

subsection \<open>x\_buf\_alloc and x\_buf\_free\<close>

lemma take_ok:
  assumes "blocks_ok m (a # xs) us"
  obtains nd where "pm_nodes m a = Some nd" and "bn_next nd = first_of xs None"
    and "blocks_ok (heap_take a nd m) xs (a # us)"
    and "pool_of (heap_take a nd m) xs = pop_buf (pool_of m (a # xs))"
    and "buf_at (heap_take a nd m) a = reset_buf (pool_of m (a # xs)) (buf_at m a)"
    and "\<forall>u\<in>set us. pm_nodes (heap_take a nd m) u = pm_nodes m u"
proof -
  from assms obtain nd where nd: "pm_nodes m a = Some nd" "bn_next nd = first_of xs None"
    by (auto simp: blocks_ok_def free_list_def)
  have a: "a \<notin> set xs \<union> set us" using assms by (auto simp: blocks_ok_def)
  let ?m = "heap_take a nd m"
  have pool: "pool_of ?m xs = pop_buf (pool_of m (a # xs))"
    using a by (simp add: pool_of_def heap_take_def pop_buf_def del: fun_upd_apply)
  have buf: "buf_at ?m a = reset_buf (pool_of m (a # xs)) (buf_at m a)"
    using nd by (simp add: heap_take_def reset_buf_def heap_reset_def)
  have same: "\<forall>u\<in>set us. pm_nodes ?m u = pm_nodes m u" using a by (auto simp: heap_take_def)
  have old: "pool_ok (pool_of m (a # xs))" using assms by (simp add: blocks_ok_def)
  have pop: "pool_ok (pool_of ?m xs)" unfolding pool by (rule pop_buf_ok [OF old]) simp
  have "free_list ?m xs"
  proof -
    have "nexts ?m = (nexts m)(a \<mapsto> None)" by (auto simp: heap_take_def)
    with a assms nd st_chain_upd [of a xs "nexts m"] show ?thesis
      by (simp add: blocks_ok_def free_list_def heap_take_def)
  qed
  moreover have "block_ok (pool_of ?m xs) (buf_at ?m a)"
    using old unfolding buf by (simp add: pool_ok_def block_ok_def reset_buf_def heap_take_def)
  moreover have "block_ok (pool_of ?m xs) = block_ok (pool_of m (a # xs))"
    by (simp add: block_ok_def fun_eq_iff heap_take_def)
  ultimately have "blocks_ok ?m xs (a # us)"
    using assms a nd pop same unfolding blocks_ok_def by (auto simp: heap_take_def)
  with nd pool buf same that show ?thesis by blast
qed


text \<open>
  What an allocation on the heap owes to the one on the list: an address that the client does
  not hold yet, whose buffer is the one the list yields.
\<close>

definition alloc_sim ::
  "nat list \<Rightarrow> pool_mem \<Rightarrow> xtp_buf \<times> xtp_buf_pool \<times> bool list \<Rightarrow> fault + (nat \<times> pool_mem \<times> bool list) \<Rightarrow> bool"
  where
  "alloc_sim us m r h \<longleftrightarrow> (case r of (b, bp', ms') \<Rightarrow>
     \<exists>a m' ys. h = Inr (a, m', ms') \<and> blocks_ok m' ys (a # us) \<and> pool_of m' ys = bp' \<and> buf_at m' a = b
       \<and> (\<forall>u\<in>set us. pm_nodes m' u = pm_nodes m u))"

lemma alloc_sim_trans:
  "alloc_sim us m1 r h \<Longrightarrow> \<forall>u\<in>set us. pm_nodes m1 u = pm_nodes m u \<Longrightarrow> alloc_sim us m r h"
  by (auto simp: alloc_sim_def)

lemma heap_alloc_nonempty:
  assumes "blocks_ok m (a # xs) us"
  shows "\<exists>h. heap_buf_alloc m ms = Some h
    \<and> alloc_sim us m (reset_buf (pool_of m (a # xs)) (buf_at m a), pop_buf (pool_of m (a # xs)), ms) h"
proof -
  obtain nd where nd: "pm_nodes m a = Some nd" "blocks_ok (heap_take a nd m) xs (a # us)"
    "pool_of (heap_take a nd m) xs = pop_buf (pool_of m (a # xs))"
    "buf_at (heap_take a nd m) a = reset_buf (pool_of m (a # xs)) (buf_at m a)"
    "\<forall>u\<in>set us. pm_nodes (heap_take a nd m) u = pm_nodes m u"
    using take_ok [OF assms] by metis
  have "pm_head m = Some a" using assms by (simp add: blocks_ok_def free_list_def)
  then have "heap_buf_alloc m ms = Some (Inr (a, heap_take a nd m, ms))"
    using nd(1) by (simp add: heap_buf_alloc.simps [of m] node_get_def)
  with nd(2-5) show ?thesis unfolding alloc_sim_def by auto
qed

lemma heap_alloc_empty:
  assumes "blocks_ok m [] us"
  shows "case x_buf_ralloc (pool_of m []) 0 ms of
      Inl e \<Rightarrow> heap_buf_alloc m ms = None \<and> x_buf_alloc (pool_of m []) ms = None
    | Inr (bp1, ms1) \<Rightarrow> \<exists>m1 ys. blocks_ok m1 ys us \<and> pool_of m1 ys = bp1
        \<and> (\<forall>u\<in>set us. pm_nodes m1 u = pm_nodes m u)
        \<and> heap_buf_ralloc m 0 ms = Inr (m1, ms1)
        \<and> heap_buf_alloc m ms = heap_buf_alloc m1 ms1 \<and> x_buf_alloc (pool_of m []) ms = x_buf_alloc bp1 ms1"
proof -
  have "pm_head m = None" using assms by (simp add: blocks_ok_def free_list_def)
  then have h: "heap_buf_alloc m ms = (case heap_buf_ralloc m 0 ms of Inl e \<Rightarrow> None
      | Inr r \<Rightarrow> heap_buf_alloc (fst r) (snd r))"
    by (simp add: heap_buf_alloc.simps [of m ms])
  have l: "x_buf_alloc (pool_of m []) ms = (case x_buf_ralloc (pool_of m []) 0 ms of Inl e \<Rightarrow> None
      | Inr r \<Rightarrow> x_buf_alloc (fst r) (snd r))"
    by (rule x_buf_alloc_empty) simp
  from buf_ralloc_sim [OF assms, of 0 ms] show ?thesis
    unfolding h l refill_sim_def by (cases "x_buf_ralloc (pool_of m []) 0 ms") fastforce+
qed

lemma alloc_list_heap:
  assumes "x_buf_alloc bp ms = Some r" and "bp = pool_of m xs" and "blocks_ok m xs us"
  shows "\<exists>h. heap_buf_alloc m ms = Some h \<and> alloc_sim us m r h"
  using assms(2,3)
proof (induction arbitrary: m xs rule: x_buf_alloc.raw_induct [OF _ assms(1), case_names step])
  case (step alloc bp ms r)
  show ?case
  proof (cases xs)
    case (Cons a ys)
    with step.prems step.hyps show ?thesis using heap_alloc_nonempty [of m a ys us ms] by auto
  next
    case Nil
    with step.prems step.hyps obtain bp1 ms1 where r1: "x_buf_ralloc (pool_of m []) 0 ms = Inr (bp1, ms1)"
      and rec: "alloc bp1 ms1 = Some r" by (auto split: sum.splits)
    from heap_alloc_empty [of m us ms] step.prems Nil r1 obtain m1 ys where m1: "blocks_ok m1 ys us"
      "pool_of m1 ys = bp1" "\<forall>u\<in>set us. pm_nodes m1 u = pm_nodes m u" "heap_buf_alloc m ms = heap_buf_alloc m1 ms1"
      by auto
    from step.IH [OF rec m1(2) [symmetric] m1(1)] m1(4) alloc_sim_trans [OF _ m1(3)] show ?thesis by metis
  qed
qed

lemma alloc_heap_list:
  assumes "heap_buf_alloc m ms = Some h" and "blocks_ok m xs us"
  shows "\<exists>r. x_buf_alloc (pool_of m xs) ms = Some r"
  using assms(2)
proof (induction arbitrary: xs rule: heap_buf_alloc.raw_induct [OF _ assms(1), case_names step])
  case (step alloc m ms h)
  show ?case
  proof (cases xs)
    case (Cons a ys)
    then show ?thesis by (simp add: x_buf_alloc_nonempty)
  next
    case Nil
    with step.prems have ok: "blocks_ok m [] us" by simp
    then have head: "pm_head m = None" by (simp add: blocks_ok_def free_list_def)
    show ?thesis
    proof (cases "x_buf_ralloc (pool_of m []) 0 ms")
      case (Inl e)
      with buf_ralloc_sim [OF ok, of 0 ms] head step.hyps show ?thesis by (simp add: refill_sim_def)
    next
      case (Inr r1)
      with heap_alloc_empty [OF ok, of ms] obtain m1 ys where m1: "blocks_ok m1 ys us" "pool_of m1 ys = fst r1"
        "heap_buf_ralloc m 0 ms = Inr (m1, snd r1)" "x_buf_alloc (pool_of m []) ms = x_buf_alloc (fst r1) (snd r1)"
        by (cases r1) auto
      with head step.hyps have "alloc m1 (snd r1) = Some h" by simp
      from step.IH [OF this m1(1)] m1(2,4) Nil show ?thesis by simp
    qed
  qed
qed

lemma free_ok:
  assumes "blocks_ok m xs us" and "a \<in> set us"
  shows "\<exists>m'. heap_buf_free (Some a) m = Inr m' \<and> blocks_ok m' (a # xs) (remove1 a us)
    \<and> x_buf_free (pool_of m xs) (Some (buf_at m a)) = (pool_of m' (a # xs), None)
    \<and> (\<forall>u\<in>set (remove1 a us). pm_nodes m' u = pm_nodes m u)"
proof -
  from assms obtain nd where nd: "pm_nodes m a = Some nd" by (auto simp: blocks_ok_def)
  have ok: "pool_ok (pool_of m xs)" and blk: "block_ok (pool_of m xs) (bn_buf nd)" and a: "a \<notin> set xs"
    and dist: "distinct us"
    using assms nd by (auto simp: blocks_ok_def)
  then have size: "0 \<le> pm_size m" by (auto simp: pool_ok_def geometry_def)
  let ?m = "m\<lparr>pm_nodes := (pm_nodes m)(a \<mapsto> nd\<lparr>bn_next := pm_head m\<rparr>), pm_head := Some a, pm_n := pm_n m + 1\<rparr>"
  have run: "heap_buf_free (Some a) m = Inr ?m"
    using nd blk size by (simp add: heap_buf_free_def node_get_def block_ok_def)
  have pool: "x_buf_free (pool_of m xs) (Some (buf_at m a)) = (pool_of ?m (a # xs), None)"
    using x_buf_free_block [OF blk] size a nd
    by (simp add: pool_of_def fun_upd_same del: fun_upd_apply)
  have "free_list ?m (a # xs)"
    by (rule free_list_push [of m, where nd = "nd\<lparr>bn_next := pm_head m\<rparr>"])
      (use assms(1) a in \<open>simp_all add: blocks_ok_def\<close>)
  moreover have "pool_ok (pool_of ?m (a # xs))"
    using x_buf_free_ok(1) [OF ok blk] pool nd by simp
  moreover have "block_ok (pool_of ?m (a # xs)) = block_ok (pool_of m xs)" by (simp add: block_ok_def fun_eq_iff)
  ultimately have "blocks_ok ?m (a # xs) (remove1 a us)"
    using assms a nd dist unfolding blocks_ok_def by (auto simp: set_remove1_eq)
  moreover have "\<forall>u\<in>set (remove1 a us). pm_nodes ?m u = pm_nodes m u" using dist by (auto simp: set_remove1_eq)
  ultimately show ?thesis using run pool by blast
qed


subsection \<open>A client of the pool\<close>

text \<open>
  The client takes buffers and gives back buffers that it holds; \<open>us\<close> are the addresses it
  holds, the latest first.  The result is \<open>None\<close> when an allocation does not return or the
  client gives back what it does not hold.
\<close>

datatype pool_op = P_alloc "bool list" | P_free nat

fun run_pool :: "pool_op list \<Rightarrow> pool_mem \<Rightarrow> nat list \<Rightarrow> (fault + (pool_mem \<times> nat list)) option" where
  "run_pool [] m us = Some (Inr (m, us))"
| "run_pool (P_alloc ms # ops) m us =
     (case heap_buf_alloc m ms of
        None \<Rightarrow> None
      | Some (Inl e) \<Rightarrow> Some (Inl e)
      | Some (Inr (a, m', ms')) \<Rightarrow> run_pool ops m' (a # us))"
| "run_pool (P_free a # ops) m us =
     (if a \<notin> set us then None
      else case heap_buf_free (Some a) m of
        Inl e \<Rightarrow> Some (Inl e)
      | Inr m' \<Rightarrow> run_pool ops m' (remove1 a us))"

lemma alloc_ok:
  assumes "heap_buf_alloc m ms = Some h" and "blocks_ok m xs us"
  obtains a m' ms' ys where "h = Inr (a, m', ms')" and "blocks_ok m' ys (a # us)" and "pm_size m' = pm_size m"
proof -
  from alloc_heap_list [OF assms] obtain b bp' ms' where al: "x_buf_alloc (pool_of m xs) ms = Some (b, bp', ms')"
    by (metis prod_cases3)
  from alloc_list_heap [OF al refl assms(2)] assms(1) obtain a m' ys where
    h: "h = Inr (a, m', ms')" "blocks_ok m' ys (a # us)" "pool_of m' ys = bp'" by (auto simp: alloc_sim_def)
  have "pool_ok (pool_of m xs)" using assms(2) by (simp add: blocks_ok_def)
  from x_buf_alloc_spec(2) [OF al this] h(3) have "pm_size m' = pm_size m"
    by (auto simp: same_shape_def)
  with h that show ?thesis by blast
qed

lemma run_pool_ok:
  "run_pool ops m us = Some r \<Longrightarrow> blocks_ok m xs us
    \<Longrightarrow> \<exists>m' ys vs. r = Inr (m', vs) \<and> blocks_ok m' ys vs \<and> pm_size m' = pm_size m"
proof (induction ops arbitrary: m us xs)
  case Nil
  then show ?case by auto
next
  case (Cons op ops)
  show ?case
  proof (cases op)
    case (P_alloc ms)
    with Cons.prems(1) obtain h where h: "heap_buf_alloc m ms = Some h" by (auto split: option.split_asm)
    from alloc_ok [OF h Cons.prems(2)] obtain a m' ms' ys where
      "h = Inr (a, m', ms')" "blocks_ok m' ys (a # us)" "pm_size m' = pm_size m" .
    with Cons.IH [of m' "a # us" ys] Cons.prems(1) P_alloc h show ?thesis by simp
  next
    case (P_free a)
    with Cons.prems(1) have a: "a \<in> set us" by (auto split: if_split_asm)
    from free_ok [OF Cons.prems(2) a] obtain m' where
      m': "heap_buf_free (Some a) m = Inr m'" "blocks_ok m' (a # xs) (remove1 a us)"
      "x_buf_free (pool_of m xs) (Some (buf_at m a)) = (pool_of m' (a # xs), None)" by blast
    have "pm_size m' = pm_size m"
      using x_buf_free_shape [of "pool_of m xs" "Some (buf_at m a)"] m'(3) by (simp add: same_shape_def)
    with Cons.IH [of m' "remove1 a us" "a # xs"] Cons.prems(1) P_free a m' show ?thesis by simp
  qed
qed

lemma init_ok:
  assumes "heap_buf_init mx sz ms = Inr (m, ms')" and "int sizeof_xtp_buf + 1 < sz" and "sz < 2 ^ 31"
  obtains xs where "blocks_ok m xs []" and "pm_size m = sz" and "x_buf_init mx sz ms = Inr (pool_of m xs, ms')"
proof -
  from buf_init_sim [OF assms(2,3), of mx ms] assms(1) obtain xs where
    xs: "blocks_ok m xs []" "x_buf_init mx sz ms = Inr (pool_of m xs, ms')"
    by (auto simp: refill_sim_def split: sum.split_asm)
  with x_buf_init_ok(2) [OF xs(2) assms(2,3)] that show ?thesis by simp
qed

lemma uninit_frees:
  "free_list m xs \<Longrightarrow> \<exists>m'. heap_buf_uninit m = Some (Inr m') \<and> pm_head m' = None
    \<and> pm_nodes m' = pm_nodes m |` (- set xs)"
proof (induction xs arbitrary: m)
  case Nil
  then show ?case by (simp add: heap_buf_uninit.simps [of m] free_list_def)
next
  case (Cons a xs)
  then obtain nd where nd: "pm_nodes m a = Some nd" "bn_next nd = first_of xs None" and a: "a \<notin> set xs"
    and head: "pm_head m = Some a" by (auto simp: free_list_def)
  let ?m = "m\<lparr>pm_head := bn_next nd, pm_nodes := (pm_nodes m)(a := None)\<rparr>"
  have "nexts ?m = (nexts m)(a := None)" by auto
  with Cons.prems nd a st_chain_upd [OF a, of "nexts m"] have "free_list ?m xs" by (simp add: free_list_def)
  from Cons.IH [OF this] head nd(1) show ?case
    by (auto simp: heap_buf_uninit.simps [of m] node_get_def restrict_map_def fun_eq_iff)
qed

subsection \<open>Properties\<close>

text \<open>C22: The heap of the pool stays well typed: from \<open>x_buf_init\<close> on, whatever the client takes and gives
  back, no block that has been freed is read, every pointer to a buffer that is stored in the
  pool or in a buffer is NULL or points to a buffer, every buffer is either on the free list,
  once, or held by the client, once, and of the pool's size, and \<open>n\<close> counts the free ones.\<close>

theorem pool_well_typed:
  assumes "int sizeof_xtp_buf + 1 < sz" and "sz < 2 ^ 31"
    and "heap_buf_init mx sz ms = Inr (m0, ms')" and "run_pool ops m0 [] = Some r"
  shows "\<exists>m us xs. r = Inr (m, us) \<and> well_typed m \<and> free_list m xs \<and> distinct (xs @ us)
    \<and> dom (pm_nodes m) = set xs \<union> set us \<and> pm_n m = int (length xs)
    \<and> (\<forall>a\<in>set (xs @ us). length (b_mem (buf_at m a)) = nat sz \<and> b_bp (buf_at m a))"
proof -
  from init_ok [OF assms(3,1,2)] obtain xs0 where "blocks_ok m0 xs0 []" "pm_size m0 = sz" by metis
  with run_pool_ok [OF assms(4)] obtain m us xs where r: "r = Inr (m, us)" and ok: "blocks_ok m xs us"
    and size: "pm_size m = sz" by metis
  have "block_ok (pool_of m xs) (buf_at m a)" if "a \<in> set (xs @ us)" for a
    using ok that by (auto simp: blocks_ok_def pool_ok_def)
  then have "\<forall>a\<in>set (xs @ us). length (b_mem (buf_at m a)) = nat sz \<and> b_bp (buf_at m a)"
    using size by (simp add: block_ok_def)
  with r ok blocks_ok_typed [OF ok] show ?thesis by (auto simp: blocks_ok_def pool_ok_def)
qed

definition pool_session :: "pool_op list" where
  "pool_session = [P_alloc [], P_alloc [True], P_free 0]"

lemma one_block:
  obtains m0 m where "heap_buf_init 1 70 [True] = Inr (m0, [])" and "pm_n m0 = 1"
    and "run_pool pool_session m0 [] = Some (Inr (m, [1]))" and "pm_n m = 1"
proof -
  have "case heap_buf_init 1 70 [True] of Inl _ \<Rightarrow> False | Inr (m0, ms) \<Rightarrow> ms = [] \<and> pm_n m0 = 1"
    by code_simp
  then obtain m0 where m0: "heap_buf_init 1 70 [True] = Inr (m0, [])" "pm_n m0 = 1"
    by (cases "heap_buf_init 1 70 [True]") auto
  have "case run_pool pool_session (fst (projr (heap_buf_init 1 70 [True]))) [] of None \<Rightarrow> False
    | Some r \<Rightarrow> (case r of Inl _ \<Rightarrow> False | Inr (m, us) \<Rightarrow> us = [1] \<and> pm_n m = 1)"
    by code_simp
  then obtain r where "run_pool pool_session m0 [] = Some r"
    and "case r of Inl _ \<Rightarrow> False | Inr (m, us) \<Rightarrow> us = [1] \<and> pm_n m = 1"
    unfolding m0(1) by (cases "run_pool pool_session m0 []") simp_all
  with m0 that show ?thesis by (cases r) auto
qed

theorem pool_well_typed_witness:
  "\<exists>m0 m us xs. heap_buf_init 1 70 [True] = Inr (m0, []) \<and> run_pool pool_session m0 [] = Some (Inr (m, us))
    \<and> well_typed m \<and> free_list m xs \<and> us = [1] \<and> length xs = 1"
proof -
  obtain m0 m where m0: "heap_buf_init 1 70 [True] = Inr (m0, [])"
    and run: "run_pool pool_session m0 [] = Some (Inr (m, [1]))" "pm_n m = 1"
    using one_block by metis
  have "int sizeof_xtp_buf + 1 < 70" by (simp add: sizeof_xtp_buf_def)
  from pool_well_typed [OF this _ m0(1) run(1)] run m0(1) show ?thesis by auto
qed

text \<open>C21: The pool on the heap does what the pool of lists does.  \<open>x_buf_init\<close>, with blocks that have room
  for data, makes the same pool from the same answers of \<open>malloc\<close>, with as many buffers, all of
  them free, as calls succeeded.  From any heap that stands for a pool, \<open>x_buf_ralloc\<close>,
  \<open>x_buf_alloc\<close> (which returns on the heap exactly when it does on the list) and \<open>x_buf_free\<close> of a
  buffer that the client holds give the same counters, the same buffers in the same order and the
  same contents, and touch no other buffer of the client; \<open>x_buf_uninit\<close> ends, and frees exactly
  the free list.\<close>

theorem pool_refines_list:
  assumes "blocks_ok m xs us"
  shows "(\<forall>mx sz. int sizeof_xtp_buf + 1 < sz \<and> sz < 2 ^ 31 \<longrightarrow>
        (case x_buf_init mx sz ms of
           Inl f \<Rightarrow> heap_buf_init mx sz ms = Inl f
         | Inr (bp', ms') \<Rightarrow> \<exists>m' ys. heap_buf_init mx sz ms = Inr (m', ms') \<and> blocks_ok m' ys []
             \<and> pool_of m' ys = bp' \<and> pm_size m' = sz \<and> pm_n m' = pm_max m'
             \<and> length ys = length (filter id (take (nat mx) ms)) \<and> dom (pm_nodes m') = set ys))
    \<and> (\<forall>num. case x_buf_ralloc (pool_of m xs) num ms of
           Inl f \<Rightarrow> heap_buf_ralloc m num ms = Inl f
         | Inr (bp', ms') \<Rightarrow> \<exists>m' ys. heap_buf_ralloc m num ms = Inr (m', ms') \<and> blocks_ok m' ys us
             \<and> pool_of m' ys = bp' \<and> (\<forall>u\<in>set us. pm_nodes m' u = pm_nodes m u))
    \<and> (case x_buf_alloc (pool_of m xs) ms of
        None \<Rightarrow> heap_buf_alloc m ms = None
      | Some (b, bp', ms') \<Rightarrow> \<exists>a m' ys. heap_buf_alloc m ms = Some (Inr (a, m', ms')) \<and> a \<notin> set us
          \<and> blocks_ok m' ys (a # us) \<and> pool_of m' ys = bp' \<and> buf_at m' a = b
          \<and> (\<forall>u\<in>set us. pm_nodes m' u = pm_nodes m u))
    \<and> (\<forall>a\<in>set us. \<exists>m'. heap_buf_free (Some a) m = Inr m' \<and> blocks_ok m' (a # xs) (remove1 a us)
          \<and> x_buf_free (pool_of m xs) (Some (buf_at m a)) = (pool_of m' (a # xs), None)
          \<and> (\<forall>u\<in>set (remove1 a us). pm_nodes m' u = pm_nodes m u))
    \<and> heap_buf_free None m = Inr m
    \<and> (\<exists>m'. heap_buf_uninit m = Some (Inr m') \<and> pm_head m' = None \<and> dom (pm_nodes m') = set us
          \<and> map (buf_at m) xs = fst (x_buf_uninit (pool_of m xs)))"
proof (intro conjI ballI allI impI)
  fix mx sz
  assume "int sizeof_xtp_buf + 1 < sz \<and> sz < 2 ^ 31"
  then show "case x_buf_init mx sz ms of
           Inl f \<Rightarrow> heap_buf_init mx sz ms = Inl f
         | Inr (bp', ms') \<Rightarrow> \<exists>m' ys. heap_buf_init mx sz ms = Inr (m', ms') \<and> blocks_ok m' ys []
             \<and> pool_of m' ys = bp' \<and> pm_size m' = sz \<and> pm_n m' = pm_max m'
             \<and> length ys = length (filter id (take (nat mx) ms)) \<and> dom (pm_nodes m') = set ys"
    by (intro init_list_heap) simp_all
next
  show "case x_buf_ralloc (pool_of m xs) num ms of
           Inl f \<Rightarrow> heap_buf_ralloc m num ms = Inl f
         | Inr (bp', ms') \<Rightarrow> \<exists>m' ys. heap_buf_ralloc m num ms = Inr (m', ms') \<and> blocks_ok m' ys us
             \<and> pool_of m' ys = bp' \<and> (\<forall>u\<in>set us. pm_nodes m' u = pm_nodes m u)" for num
    using buf_ralloc_sim [OF assms, of num ms] by (simp add: refill_sim_def split: sum.split prod.split)
next
  show "heap_buf_free None m = Inr m" by (simp add: heap_buf_free_def)
next
  show "case x_buf_alloc (pool_of m xs) ms of
        None \<Rightarrow> heap_buf_alloc m ms = None
      | Some (b, bp', ms') \<Rightarrow> \<exists>a m' ys. heap_buf_alloc m ms = Some (Inr (a, m', ms')) \<and> a \<notin> set us
          \<and> blocks_ok m' ys (a # us) \<and> pool_of m' ys = bp' \<and> buf_at m' a = b
          \<and> (\<forall>u\<in>set us. pm_nodes m' u = pm_nodes m u)"
  proof (cases "x_buf_alloc (pool_of m xs) ms")
    case None
    with alloc_heap_list [OF _ assms, of ms] show ?thesis by (cases "heap_buf_alloc m ms") auto
  next
    case (Some r)
    from alloc_list_heap [OF Some refl assms] obtain h where
      h: "heap_buf_alloc m ms = Some h" "alloc_sim us m r h" by blast
    then have "a \<notin> set us" if "blocks_ok m' ys (a # us)" for a m' ys using that by (simp add: blocks_ok_def)
    with Some h show ?thesis by (fastforce simp: alloc_sim_def split: prod.split)
  qed
  show "\<exists>m'. heap_buf_free (Some a) m = Inr m' \<and> blocks_ok m' (a # xs) (remove1 a us)
          \<and> x_buf_free (pool_of m xs) (Some (buf_at m a)) = (pool_of m' (a # xs), None)
          \<and> (\<forall>u\<in>set (remove1 a us). pm_nodes m' u = pm_nodes m u)" if "a \<in> set us" for a
    by (rule free_ok [OF assms that])
  have "free_list m xs" and dom: "dom (pm_nodes m) = set xs \<union> set us" "set xs \<inter> set us = {}"
    using assms by (auto simp: blocks_ok_def)
  from uninit_frees [OF this(1)] obtain m' where m': "heap_buf_uninit m = Some (Inr m')" "pm_head m' = None"
    "pm_nodes m' = pm_nodes m |` (- set xs)" by blast
  moreover have "dom (pm_nodes m') = set us" unfolding m'(3) using dom by (auto simp: dom_restrict)
  ultimately show "\<exists>m'. heap_buf_uninit m = Some (Inr m') \<and> pm_head m' = None \<and> dom (pm_nodes m') = set us
          \<and> map (buf_at m) xs = fst (x_buf_uninit (pool_of m xs))"
    by (auto simp: x_buf_uninit_eq)
qed

theorem pool_refines_list_witness:
  "\<exists>m0 a m' ys. heap_buf_init 1 70 [True] = Inr (m0, []) \<and> heap_buf_alloc m0 [True] = Some (Inr (a, m', [True]))
    \<and> blocks_ok m' ys [a] \<and> (\<exists>zs. heap_buf_init 1 70 [True] = Inr (m0, []) \<and> blocks_ok m0 zs [] \<and> length zs = 1)"
proof -
  obtain m0 where m0: "heap_buf_init 1 70 [True] = Inr (m0, [])" "pm_n m0 = 1" using one_block by metis
  from init_ok [OF m0(1)] obtain xs where ok: "blocks_ok m0 xs []" by (auto simp: sizeof_xtp_buf_def)
  with m0(2) have "xs \<noteq> []" by (auto simp: blocks_ok_def pool_ok_def)
  then obtain b bp' where al: "x_buf_alloc (pool_of m0 xs) [True] = Some (b, bp', [True])"
    by (simp add: x_buf_alloc_nonempty)
  note all = pool_refines_list [OF ok, of "[True]"]
  from all [THEN conjunct1, rule_format, of 70 1] m0(1) have "\<exists>zs. blocks_ok m0 zs [] \<and> length zs = 1"
    by (auto simp: sizeof_xtp_buf_def split: sum.split_asm)
  moreover from all [THEN conjunct2, THEN conjunct2, THEN conjunct1] al
  have "\<exists>a m' ys. heap_buf_alloc m0 [True] = Some (Inr (a, m', [True])) \<and> blocks_ok m' ys [a]" by auto
  ultimately show ?thesis using m0(1) by blast
qed

end
