(* ===== verification/Log_Threads.thy ===== *)
theory Log_Threads
  imports Log "HOL-Library.Multiset"
begin

section \<open>The logger with threads and signals (src/log.c, \<open>logger_log\<close>)\<close>

text \<open>
  The main thread and the worker log through the same handlers, and a signal handler logs in
  whichever thread it interrupts.  Here a call of the logger is cut into the steps between
  which another thread, or a signal, may come: the tests before the mutex, taking the mutex
  of the handler, \<open>fix_log_filename\<close>, \<open>write_log\<close>, the copy on standard error, and releasing
  the mutex.  A thread is the stack of the calls it is in, a signal pushes the call that
  \<open>signal_handler\<close> makes and the \<open>exit\<close> after it.  Taking a mutex that is held blocks, also when
  its holder is the thread itself, as for a default mutex.
\<close>

record log_call =
  lc_env :: log_env
  lc_level :: int
  lc_msg :: string

subsection \<open>The parts of a call\<close>

text \<open>The tests of the wrapper for each level, then those of \<open>logger_log\<close>.\<close>

definition log_enabled :: "int \<Rightarrow> logger \<Rightarrow> bool" where
  "log_enabled level st \<longleftrightarrow> lg_is_inited st
     \<and> (if level = LOG_LEVEL_ERR then lg_is_debug st \<le> LOG_LEVEL_NONE
        else lg_is_debug st \<le> level \<and> (level = LOG_LEVEL_DEBUG \<longrightarrow> lg_is_debug st \<noteq> 0))"

definition log_entry :: "log_call \<Rightarrow> logger \<Rightarrow> nat option" where
  "log_entry c st =
     (if \<not> log_enabled (lc_level c) st then None
      else case lg_handler st ! nat (lc_level c) of
        None \<Rightarrow> None
      | Some p \<Rightarrow>
          if lc_level c \<noteq> LOG_LEVEL_ERR \<and> lc_level c < g_log_level st then None else Some p)"

definition call_date :: "log_call \<Rightarrow> string" where
  "call_date c = log_date (env_tv (lc_env c)) (env_pid (lc_env c)) (lc_level c)"

definition call_fix :: "log_call \<Rightarrow> logger \<Rightarrow> log_handler \<Rightarrow> (log_handler \<times> (string + string) option) option" where
  "call_fix c st h = fix_log_filename (g_path_buf st) (lg_maxsize st) (env_sizes (lc_env c))
     (env_now (lc_env c)) h (256 + int (length (lc_msg c)))"

definition log_fix :: "log_call \<Rightarrow> nat \<Rightarrow> logger \<Rightarrow> fault + logger" where
  "log_fix c p st =
     (case lg_heap st p of
        None \<Rightarrow> Inl Use_after_free
      | Some h \<Rightarrow>
          (case call_fix c st h of
             None \<Rightarrow> Inl No_return
           | Some (h', link) \<Rightarrow>
               Inr (st\<lparr>lg_heap := (lg_heap st)(p \<mapsto> h'),
                 g_err_link_path := (case link of Some (Inl l) \<Rightarrow> l | _ \<Rightarrow> g_err_link_path st),
                 g_nor_link_path := (case link of Some (Inr l) \<Rightarrow> l | _ \<Rightarrow> g_nor_link_path st)\<rparr>)))"

definition log_write :: "log_call \<Rightarrow> nat \<Rightarrow> logger \<Rightarrow> fault + logger" where
  "log_write c p st = write_log (env_fopen (lc_env c)) p (call_date c) (lc_msg c) st"

definition log_echo :: "log_call \<Rightarrow> logger \<Rightarrow> logger" where
  "log_echo c st =
     (if lg_is_debug st = LOG_LEVEL_DEBUG
      then st\<lparr>lg_stderr := lg_stderr st @ [call_date c @ '': '' @ lc_msg c @ [CHR 0x0A]]\<rparr>
      else st)"

text \<open>One call from beginning to end, and that this is what \<open>Log\<close> has for each level.\<close>

definition log_alone :: "log_call \<Rightarrow> logger \<Rightarrow> fault + logger" where
  "log_alone c st =
     (case log_entry c st of
        None \<Rightarrow> Inr st
      | Some p \<Rightarrow> bindR (log_fix c p st) (\<lambda>st1. bindR (log_write c p st1) (\<lambda>st2. Inr (log_echo c st2))))"

lemma logger_log_parts:
  assumes "length (lg_handler st) = 5" and "0 \<le> level" and "level < 5"
    and "lg_is_inited st \<and> log_enabled level st"
  shows "logger_log env level msg st = log_alone \<lparr>lc_env = env, lc_level = level, lc_msg = msg\<rparr> st"
  using assms
  by (auto simp: logger_log_def log_alone_def log_entry_def log_fix_def call_fix_def log_write_def
      log_echo_def call_date_def Let_def split: option.split cong: if_cong)

lemma log_alone_levels:
  assumes "length (lg_handler st) = 5"
  shows "log_alone \<lparr>lc_env = env, lc_level = LOG_LEVEL_DEBUG, lc_msg = msg\<rparr> st = x_log_debug env msg st"
    and "log_alone \<lparr>lc_env = env, lc_level = LOG_LEVEL_INFO, lc_msg = msg\<rparr> st = x_log_info env msg st"
    and "log_alone \<lparr>lc_env = env, lc_level = LOG_LEVEL_WARN, lc_msg = msg\<rparr> st = x_log_warn env msg st"
    and "log_alone \<lparr>lc_env = env, lc_level = LOG_LEVEL_ERR, lc_msg = msg\<rparr> st = x_log_err env msg st"
proof -
  have off: "log_alone \<lparr>lc_env = env, lc_level = l, lc_msg = msg\<rparr> st = Inr st" if "\<not> log_enabled l st" for l
    using that by (simp add: log_alone_def log_entry_def)
  note on = logger_log_parts [OF assms, where env = env and msg = msg, symmetric]
  show "log_alone \<lparr>lc_env = env, lc_level = LOG_LEVEL_DEBUG, lc_msg = msg\<rparr> st = x_log_debug env msg st"
    using on [of LOG_LEVEL_DEBUG] off [of LOG_LEVEL_DEBUG] by (auto simp: x_log_debug_def log_enabled_def)
  show "log_alone \<lparr>lc_env = env, lc_level = LOG_LEVEL_INFO, lc_msg = msg\<rparr> st = x_log_info env msg st"
    using on [of LOG_LEVEL_INFO] off [of LOG_LEVEL_INFO] by (auto simp: x_log_info_def log_enabled_def)
  show "log_alone \<lparr>lc_env = env, lc_level = LOG_LEVEL_WARN, lc_msg = msg\<rparr> st = x_log_warn env msg st"
    using on [of LOG_LEVEL_WARN] off [of LOG_LEVEL_WARN] by (auto simp: x_log_warn_def log_enabled_def)
  show "log_alone \<lparr>lc_env = env, lc_level = LOG_LEVEL_ERR, lc_msg = msg\<rparr> st = x_log_err env msg st"
    using on [of LOG_LEVEL_ERR] off [of LOG_LEVEL_ERR] by (auto simp: x_log_err_def log_enabled_def)
qed

subsection \<open>Threads\<close>

datatype log_frame =
    F_enter log_call
  | F_lock log_call nat
  | F_fix log_call nat
  | F_write log_call nat
  | F_echo log_call nat
  | F_unlock nat
  | F_exit

record log_sys =
  sy_log :: logger
  sy_mutex :: "nat \<rightharpoonup> nat"
  sy_stack :: "nat \<Rightarrow> log_frame list"
  sy_exited :: bool

datatype log_event = Call nat log_call | Run nat | Signal nat log_call

definition set_stack :: "nat \<Rightarrow> log_frame list \<Rightarrow> log_sys \<Rightarrow> log_sys" where
  "set_stack t fs s = s\<lparr>sy_stack := (sy_stack s)(t := fs)\<rparr>"

text \<open>The next statement of the call on top of a stack; \<open>None\<close> says that the thread blocks.\<close>

fun run_frame :: "nat \<Rightarrow> log_frame \<Rightarrow> log_frame list \<Rightarrow> log_sys \<Rightarrow> (fault + log_sys) option" where
  "run_frame t (F_enter c) fs s =
     Some (Inr (set_stack t (case log_entry c (sy_log s) of None \<Rightarrow> fs | Some p \<Rightarrow> F_lock c p # fs) s))"
| "run_frame t (F_lock c p) fs s =
     (if sy_mutex s p = None
      then Some (Inr (set_stack t (F_fix c p # fs) (s\<lparr>sy_mutex := (sy_mutex s)(p \<mapsto> t)\<rparr>)))
      else None)"
| "run_frame t (F_fix c p) fs s =
     Some (bindR (log_fix c p (sy_log s)) (\<lambda>st. Inr (set_stack t (F_write c p # fs) (s\<lparr>sy_log := st\<rparr>))))"
| "run_frame t (F_write c p) fs s =
     Some (bindR (log_write c p (sy_log s)) (\<lambda>st. Inr (set_stack t (F_echo c p # fs) (s\<lparr>sy_log := st\<rparr>))))"
| "run_frame t (F_echo c p) fs s =
     Some (Inr (set_stack t (F_unlock p # fs) (s\<lparr>sy_log := log_echo c (sy_log s)\<rparr>)))"
| "run_frame t (F_unlock p) fs s =
     Some (Inr (set_stack t fs (s\<lparr>sy_mutex := (sy_mutex s)(p := None)\<rparr>)))"
| "run_frame t F_exit fs s = Some (Inr (s\<lparr>sy_exited := True\<rparr>))"

fun log_step :: "log_event \<Rightarrow> log_sys \<Rightarrow> (fault + log_sys) option" where
  "log_step (Call t c) s =
     (if sy_exited s \<or> sy_stack s t \<noteq> [] then None else Some (Inr (set_stack t [F_enter c] s)))"
| "log_step (Run t) s =
     (if sy_exited s then None
      else case sy_stack s t of [] \<Rightarrow> None | f # fs \<Rightarrow> run_frame t f fs s)"
| "log_step (Signal t c) s =
     (if sy_exited s then None else Some (Inr (set_stack t (F_enter c # F_exit # sy_stack s t) s)))"

text \<open>
  The call that an event takes through its \<open>write_log\<close>, with the thread.  It leaves a line in the
  file unless the file is not open and \<open>fopen\<close> fails.
\<close>

definition write_calls :: "log_event \<Rightarrow> log_sys \<Rightarrow> (nat \<times> log_call) list" where
  "write_calls ev s = (case ev of
       Run t \<Rightarrow> (case sy_stack s t of F_write c p # _ \<Rightarrow> [(t, c)] | _ \<Rightarrow> [])
     | _ \<Rightarrow> [])"

text \<open>A run: every event must be possible; the calls that came to \<open>write_log\<close>, in order.\<close>

inductive log_run :: "log_sys \<Rightarrow> log_event list \<Rightarrow> log_sys \<Rightarrow> (nat \<times> log_call) list \<Rightarrow> bool" where
  log_run_start: "log_run s [] s []"
| log_run_step: "log_run s es s1 cs \<Longrightarrow> log_step ev s1 = Some (Inr s2)
    \<Longrightarrow> log_run s (es @ [ev]) s2 (cs @ write_calls ev s1)"

inductive_cases log_run_nil: "log_run s [] s' cs"

fun log_serial :: "log_call list \<Rightarrow> logger \<Rightarrow> fault + logger" where
  "log_serial [] st = Inr st"
| "log_serial (c # cs) st = bindR (log_alone c st) (log_serial cs)"

definition quiet :: "log_sys \<Rightarrow> bool" where
  "quiet s \<longleftrightarrow> (\<forall>t. sy_stack s t = []) \<and> (\<forall>p. sy_mutex s p = None) \<and> \<not> sy_exited s"

subsection \<open>Mutual exclusion\<close>

fun in_section :: "nat \<Rightarrow> log_frame \<Rightarrow> bool" where
  "in_section p (F_fix c q) = (q = p)"
| "in_section p (F_write c q) = (q = p)"
| "in_section p (F_echo c q) = (q = p)"
| "in_section p (F_unlock q) = (q = p)"
| "in_section p f = False"

fun sections :: "nat \<Rightarrow> log_frame list \<Rightarrow> nat" where
  "sections p [] = 0"
| "sections p (f # fs) = (if in_section p f then 1 else 0) + sections p fs"

lemma sections_0: "sections p fs = 0 \<longleftrightarrow> (\<forall>f\<in>set fs. \<not> in_section p f)"
  by (induction fs) auto

text \<open>A mutex is held by the one thread that has a call between taking and releasing it.\<close>

definition exclusive :: "log_sys \<Rightarrow> bool" where
  "exclusive s \<longleftrightarrow> (\<forall>t p. sections p (sy_stack s t)
     = (if sy_mutex s p = Some t then 1 else 0))"

lemma set_stack_simps [simp]:
  "sy_stack (set_stack t fs s) = (sy_stack s)(t := fs)"
  "sy_mutex (set_stack t fs s) = sy_mutex s"
  "sy_log (set_stack t fs s) = sy_log s"
  "sy_exited (set_stack t fs s) = sy_exited s"
  by (simp_all add: set_stack_def)

lemma quiet_exclusive: "quiet s \<Longrightarrow> exclusive s"
  by (simp add: quiet_def exclusive_def)

lemma exclusiveD: "exclusive s \<Longrightarrow> sections p (sy_stack s t) = (if sy_mutex s p = Some t then 1 else 0)"
  by (simp add: exclusive_def)

lemma exclusive_frame:
  assumes "exclusive s" and "sy_stack s t = f # fs" and "in_section p f"
  shows "sy_mutex s p = Some t" and "\<forall>g\<in>set fs. \<not> in_section p g"
    and "\<forall>u. u \<noteq> t \<longrightarrow> (\<forall>g\<in>set (sy_stack s u). \<not> in_section p g)"
proof -
  show m: "sy_mutex s p = Some t"
    using exclusiveD [OF assms(1), of p t] assms(2,3) by (simp split: if_split_asm)
  show "\<forall>g\<in>set fs. \<not> in_section p g"
    using exclusiveD [OF assms(1), of p t] assms(2,3) m sections_0 by simp
  show "\<forall>u. u \<noteq> t \<longrightarrow> (\<forall>g\<in>set (sy_stack s u). \<not> in_section p g)"
    using exclusiveD [OF assms(1), of p] m sections_0 by force
qed

text \<open>A step that replaces the top of a stack by frames of the same sections keeps it.\<close>

lemma exclusive_top:
  assumes "exclusive s" and "sy_stack s' = (sy_stack s)(t := fs')" and "sy_mutex s' = sy_mutex s"
    and "\<And>p. sections p fs' = sections p (sy_stack s t)"
  shows "exclusive s'"
  using assms by (simp add: exclusive_def)

lemma exclusive_step:
  assumes "log_step ev s = Some (Inr s')" and "exclusive s"
  shows "exclusive s'"
proof (cases ev)
  case (Call t c)
  with assms(1) show ?thesis
    by (auto intro!: exclusive_top [OF assms(2)] split: if_split_asm)
next
  case (Signal t c)
  with assms(1) show ?thesis
    by (auto intro!: exclusive_top [OF assms(2)] split: if_split_asm)
next
  case (Run t)
  with assms(1) obtain f fs where st: "sy_stack s t = f # fs" and run: "run_frame t f fs s = Some (Inr s')"
    by (auto split: if_split_asm list.splits)
  show ?thesis
  proof (cases f)
    case (F_enter c)
    with run st show ?thesis
      by (auto intro!: exclusive_top [OF assms(2)] split: option.splits)
  next
    case (F_lock c p)
    with run st have s': "s' = set_stack t (F_fix c p # fs) (s\<lparr>sy_mutex := (sy_mutex s)(p \<mapsto> t)\<rparr>)"
      and free: "sy_mutex s p = None" by (auto split: if_split_asm)
    show ?thesis
      unfolding exclusive_def
    proof (intro allI)
      fix u q
      show "sections q (sy_stack s' u) = (if sy_mutex s' q = Some u then 1 else 0)"
        using exclusiveD [OF assms(2), of q u] free st F_lock by (auto simp: s')
    qed
  next
    case (F_unlock p)
    with run have s': "s' = set_stack t fs (s\<lparr>sy_mutex := (sy_mutex s)(p := None)\<rparr>)" by simp
    from exclusive_frame [OF assms(2) st] F_unlock
    have "sy_mutex s p = Some t" and "\<forall>g\<in>set fs. \<not> in_section p g" by auto
    then have 0: "sy_mutex s p = Some t" "sections p fs = 0" by (simp_all add: sections_0)
    show ?thesis
      unfolding exclusive_def
    proof (intro allI)
      fix u q
      show "sections q (sy_stack s' u) = (if sy_mutex s' q = Some u then 1 else 0)"
        using exclusiveD [OF assms(2), of q u] 0 st F_unlock by (auto simp: s')
    qed
  qed (use run st in \<open>auto intro!: exclusive_top [OF assms(2)]\<close>)
qed

lemma exclusive_run: "log_run s es s' cs \<Longrightarrow> exclusive s \<Longrightarrow> exclusive s'"
  by (induction rule: log_run.induct) (auto intro: exclusive_step)

subsection \<open>Concurrent calls are serial calls\<close>

text \<open>
  What of the logger's state is compared: its configuration, the handlers and the lines in
  each file.  The paths of the links are prepared under one mutex and used under another, and
  the copies on standard error come in an order of their own.
\<close>

definition log_config ::
  "logger \<Rightarrow> (int \<times> int \<times> int \<times> bool) \<times> nat option list \<times> nat \<times> int \<times> string" where
  "log_config st = ((lg_maxsize st, lg_max_level st, lg_is_debug st, lg_is_inited st), lg_handler st,
     lg_next st, g_log_level st, g_path_buf st)"

definition same_core :: "logger \<Rightarrow> logger \<Rightarrow> bool" where
  "same_core st st' \<longleftrightarrow> log_config st = log_config st' \<and> lg_heap st = lg_heap st'
     \<and> lg_files st = lg_files st'"

lemma log_entry_config: "log_config st = log_config st' \<Longrightarrow> log_entry c st = log_entry c st'"
  by (simp add: log_config_def log_entry_def log_enabled_def cong: if_cong option.case_cong)

lemma call_fix_config: "log_config st = log_config st' \<Longrightarrow> call_fix c st h = call_fix c st' h"
  by (simp add: log_config_def call_fix_def)

lemma log_fix_Inr:
  "log_fix c p st = Inr st' \<longleftrightarrow> (\<exists>h h' l. lg_heap st p = Some h \<and> call_fix c st h = Some (h', l)
     \<and> st' = st\<lparr>lg_heap := (lg_heap st)(p \<mapsto> h'),
         g_err_link_path := (case l of Some (Inl x) \<Rightarrow> x | _ \<Rightarrow> g_err_link_path st),
         g_nor_link_path := (case l of Some (Inr x) \<Rightarrow> x | _ \<Rightarrow> g_nor_link_path st)\<rparr>)"
  by (auto simp: log_fix_def split: option.splits)

lemma log_config_upd [simp]:
  "log_config (st\<lparr>lg_heap := H, g_err_link_path := a, g_nor_link_path := b\<rparr>) = log_config st"
  "log_config (log_echo c st) = log_config st"
  by (simp_all add: log_config_def log_echo_def)

lemma log_echo_core [simp]:
  "lg_heap (log_echo c st) = lg_heap st" "lg_files (log_echo c st) = lg_files st"
  by (simp_all add: log_echo_def)

text \<open>What a write does to the core depends on the handler only.\<close>

lemma log_write_core:
  assumes "log_write c p st = Inr st'" and "lg_heap st p = Some h"
  shows "\<exists>h' ls. log_config st' = log_config st \<and> lg_heap st' = (lg_heap st)(p \<mapsto> h')
      \<and> lg_files st' = lg_files st @ ls
      \<and> (\<forall>sq. lg_heap sq p = Some h \<longrightarrow> (\<exists>sq'. log_write c p sq = Inr sq'
           \<and> log_config sq' = log_config sq \<and> lg_heap sq' = (lg_heap sq)(p \<mapsto> h')
           \<and> lg_files sq' = lg_files sq @ ls))"
proof (cases "\<not> h_fp h \<and> \<not> env_fopen (lc_env c)")
  case True
  with assms show ?thesis
    by (intro exI [of _ h] exI [of _ "[]"]) (auto simp: log_write_def write_log_def fun_upd_idem)
next
  case False
  define line where "line = call_date c @ '': '' @ lc_msg c @ [CHR 0x0A]"
  define h' where "h' = h\<lparr>h_fp := True, h_cursize := h_cursize h + int (length line)\<rparr>"
  have w: "\<exists>sq'. log_write c p sq = Inr sq' \<and> log_config sq' = log_config sq
      \<and> lg_heap sq' = (lg_heap sq)(p \<mapsto> h') \<and> lg_files sq' = lg_files sq @ [(h_filename h, line)]"
    if "lg_heap sq p = Some h" for sq
    using False that
    by (auto simp: log_write_def write_log_def Let_def h'_def line_def log_config_def)
  from w [OF assms(2)] assms(1) w show ?thesis
    by (intro exI [of _ h'] exI [of _ "[(h_filename h, line)]"]) auto
qed

text \<open>
  \<open>serial s sq\<close>: the state \<open>sq\<close> after the calls that came to \<open>write_log\<close>, one after another, is
  that of \<open>s\<close>, but for the handlers for which a file has been chosen and nothing written yet.
\<close>

definition calls_ok :: "log_sys \<Rightarrow> bool" where
  "calls_ok s \<longleftrightarrow> (\<forall>t c p. F_lock c p \<in> set (sy_stack s t) \<or> F_fix c p \<in> set (sy_stack s t)
     \<or> F_write c p \<in> set (sy_stack s t) \<longrightarrow> log_entry c (sy_log s) = Some p)"

definition chosen :: "log_sys \<Rightarrow> logger \<Rightarrow> bool" where
  "chosen s sq \<longleftrightarrow> (\<forall>t c p. F_write c p \<in> set (sy_stack s t) \<longrightarrow>
     (\<exists>h h' l. lg_heap sq p = Some h \<and> call_fix c sq h = Some (h', l) \<and> lg_heap (sy_log s) p = Some h'))"

definition serial :: "log_sys \<Rightarrow> logger \<Rightarrow> bool" where
  "serial s sq \<longleftrightarrow> log_config (sy_log s) = log_config sq \<and> lg_files (sy_log s) = lg_files sq
     \<and> (\<forall>p. (\<forall>t c. F_write c p \<notin> set (sy_stack s t)) \<longrightarrow> lg_heap (sy_log s) p = lg_heap sq p)
     \<and> calls_ok s \<and> chosen s sq"

lemma serial_quiet: "quiet s \<Longrightarrow> serial s (sy_log s)"
  by (simp add: serial_def quiet_def calls_ok_def chosen_def)

lemma serial_done: "serial s sq \<Longrightarrow> (\<forall>t. sy_stack s t = []) \<Longrightarrow> same_core (sy_log s) sq"
  by (simp add: serial_def same_core_def fun_eq_iff)

text \<open>Frames of a call whose handler is known; a top frame may become another of the same call.\<close>

fun call_of :: "log_frame \<Rightarrow> (log_call \<times> nat) option" where
  "call_of (F_lock c p) = Some (c, p)"
| "call_of (F_fix c p) = Some (c, p)"
| "call_of (F_write c p) = Some (c, p)"
| "call_of f = None"

lemma calls_ok_iff:
  "calls_ok s \<longleftrightarrow> (\<forall>t. \<forall>f\<in>set (sy_stack s t). \<forall>c p. call_of f = Some (c, p) \<longrightarrow> log_entry c (sy_log s) = Some p)"
  (is "_ \<longleftrightarrow> ?R")
proof
  assume c: "calls_ok s"
  show ?R
  proof (intro allI ballI impI)
    fix t f c p
    assume "f \<in> set (sy_stack s t)" and "call_of f = Some (c, p)"
    with c show "log_entry c (sy_log s) = Some p"
      by (cases f) (auto simp: calls_ok_def)
  qed
qed (fastforce simp: calls_ok_def)

lemma calls_ok_top:
  assumes "calls_ok s" and "\<And>d. log_entry d (sy_log s') = log_entry d (sy_log s)"
    and "sy_stack s' = (sy_stack s)(t := f # fs)" and "sy_stack s t = g # fs"
    and "call_of f = None \<or> call_of f = call_of g"
  shows "calls_ok s'"
  unfolding calls_ok_iff
proof (intro allI ballI impI)
  fix u x c p
  assume "x \<in> set (sy_stack s' u)" and "call_of x = Some (c, p)"
  then have "\<exists>y. y \<in> set (sy_stack s u) \<and> call_of y = Some (c, p)"
    using assms(3-5) by (cases "u = t") auto
  with assms(1,2) show "log_entry c (sy_log s') = Some p" unfolding calls_ok_iff by auto
qed

text \<open>A step that leaves the logger alone and adds or drops no frame between choosing and writing.\<close>

lemma serial_stack:
  assumes "serial s sq" and "sy_log s' = sy_log s" and "sy_stack s' = (sy_stack s)(t := fs')"
    and "\<And>c p. F_write c p \<in> set fs' \<longleftrightarrow> F_write c p \<in> set (sy_stack s t)"
    and "\<And>c p. F_lock c p \<in> set fs' \<or> F_fix c p \<in> set fs' \<Longrightarrow> log_entry c (sy_log s) = Some p"
  shows "serial s' sq"
proof -
  have w: "F_write c p \<in> set (sy_stack s' u) \<longleftrightarrow> F_write c p \<in> set (sy_stack s u)" for u c p
    using assms(3,4) by simp
  have "log_entry c (sy_log s) = Some p"
    if "F_lock c p \<in> set (sy_stack s' u) \<or> F_fix c p \<in> set (sy_stack s' u) \<or> F_write c p \<in> set (sy_stack s' u)"
    for u c p
    using that w [of c p u] assms(1) assms(5) [of c p]
    by (cases "u = t") (auto simp: assms(3) serial_def calls_ok_def)
  then have "calls_ok s'" unfolding calls_ok_def assms(2) by blast
  moreover have "chosen s' sq" using assms(1) unfolding serial_def chosen_def assms(2) w by blast
  ultimately show ?thesis using assms(1) unfolding serial_def assms(2) w by blast
qed

lemma log_serial_snoc: "log_serial (cs @ ds) st = bindR (log_serial cs st) (log_serial ds)"
proof (induction cs arbitrary: st)
  case (Cons c cs)
  then show ?case by (cases "log_alone c st") simp_all
qed simp

lemma serial_fix:
  assumes "serial s sq" and "exclusive s" and "sy_stack s t = F_fix c p # fs"
    and "log_fix c p (sy_log s) = Inr st"
  shows "serial (set_stack t (F_write c p # fs) (s\<lparr>sy_log := st\<rparr>)) sq"
proof -
  let ?s' = "set_stack t (F_write c p # fs) (s\<lparr>sy_log := st\<rparr>)"
  have none: "F_write d p \<notin> set (sy_stack s u)" for u d
    using exclusive_frame(2,3) [OF assms(2,3), of p] assms(3) by (cases "u = t") force+
  from assms(4) obtain h h' l where h: "lg_heap (sy_log s) p = Some h" "call_fix c (sy_log s) h = Some (h', l)"
    and st: "lg_heap st = (lg_heap (sy_log s))(p \<mapsto> h')" "log_config st = log_config (sy_log s)"
      "lg_files st = lg_files (sy_log s)"
    by (auto simp: log_fix_Inr)
  have sq: "lg_heap sq p = Some h" "log_config (sy_log s) = log_config sq"
    using assms(1) none h(1) by (auto simp: serial_def)
  have ent: "log_entry d st = log_entry d (sy_log s)" for d by (rule log_entry_config [OF st(2)])
  have "F_write d q \<in> set (sy_stack ?s' u) \<longleftrightarrow> (u = t \<and> d = c \<and> q = p) \<or> F_write d q \<in> set (sy_stack s u)" for d q u
    using assms(3) by auto
  note w = this
  have "chosen ?s' sq"
    unfolding chosen_def
  proof (intro allI impI)
    fix u d q
    assume "F_write d q \<in> set (sy_stack ?s' u)"
    then consider "d = c" "q = p" | "F_write d q \<in> set (sy_stack s u)" "q \<noteq> p"
      using w [of d q u] none by blast
    then show "\<exists>h h' l. lg_heap sq q = Some h \<and> call_fix d sq h = Some (h', l) \<and> lg_heap (sy_log ?s') q = Some h'"
    proof cases
      case 1
      with sq h st(1) call_fix_config [OF sq(2), of c h] show ?thesis by simp
    next
      case 2
      with assms(1) st(1) show ?thesis by (auto simp: serial_def chosen_def)
    qed
  qed
  moreover have "calls_ok ?s'"
    by (rule calls_ok_top [where f = "F_write c p" and fs = fs, OF _ _ _ assms(3)]) (use assms(1) ent in \<open>simp_all add: serial_def\<close>)
  moreover have "\<forall>q. (\<forall>u d. F_write d q \<notin> set (sy_stack ?s' u)) \<longrightarrow> lg_heap (sy_log ?s') q = lg_heap sq q"
    using assms(1) st(1) w by (auto simp: serial_def)
  ultimately show ?thesis using assms(1) st sq(2) by (simp add: serial_def)
qed

lemma serial_write:
  assumes "serial s sq" and "exclusive s" and "sy_stack s t = F_write c p # fs"
    and "log_write c p (sy_log s) = Inr st"
  shows "\<exists>sq'. log_alone c sq = Inr sq' \<and> serial (set_stack t (F_echo c p # fs) (s\<lparr>sy_log := st\<rparr>)) sq'"
proof -
  let ?s' = "set_stack t (F_echo c p # fs) (s\<lparr>sy_log := st\<rparr>)"
  have cfg: "log_config (sy_log s) = log_config sq" using assms(1) by (simp add: serial_def)
  have in_s: "F_write c p \<in> set (sy_stack s t)" using assms(3) by simp
  with assms(1) obtain h h' l where h: "lg_heap sq p = Some h" "call_fix c sq h = Some (h', l)"
    "lg_heap (sy_log s) p = Some h'" unfolding serial_def chosen_def by blast
  have entry: "log_entry c sq = Some p"
    using assms(1) in_s log_entry_config [OF cfg] unfolding serial_def calls_ok_def by metis
  from h obtain sq1 where sq1: "log_fix c p sq = Inr sq1" "lg_heap sq1 = (lg_heap sq)(p \<mapsto> h')"
    "log_config sq1 = log_config sq" "lg_files sq1 = lg_files sq"
    by (auto simp: log_fix_Inr)
  from log_write_core [OF assms(4) h(3)] obtain h2 ls where
    st: "log_config st = log_config (sy_log s)" "lg_heap st = (lg_heap (sy_log s))(p \<mapsto> h2)"
      "lg_files st = lg_files (sy_log s) @ ls"
    and all: "\<And>sq. lg_heap sq p = Some h' \<Longrightarrow> \<exists>sq'. log_write c p sq = Inr sq'
       \<and> log_config sq' = log_config sq \<and> lg_heap sq' = (lg_heap sq)(p \<mapsto> h2) \<and> lg_files sq' = lg_files sq @ ls"
    by blast
  from all [of sq1] sq1(2) obtain sq2 where sq2: "log_write c p sq1 = Inr sq2"
    "log_config sq2 = log_config sq1" "lg_heap sq2 = (lg_heap sq1)(p \<mapsto> h2)" "lg_files sq2 = lg_files sq1 @ ls" by auto
  let ?sq = "log_echo c sq2"
  have alone: "log_alone c sq = Inr ?sq" by (simp add: log_alone_def entry sq1(1) sq2(1))
  have cfg': "log_config st = log_config ?sq" "log_config sq = log_config ?sq"
    using st(1) cfg sq1(3) sq2(2) by simp_all
  have heap: "lg_heap ?sq = (lg_heap sq)(p \<mapsto> h2)" using sq1(2) sq2(3) by simp
  have none: "F_write d p \<notin> set (sy_stack ?s' u)" for u d
    using exclusive_frame(2,3) [OF assms(2,3), of p] by (cases "u = t") force+
  have w: "F_write d q \<in> set (sy_stack ?s' u) \<longleftrightarrow> q \<noteq> p \<and> F_write d q \<in> set (sy_stack s u)" for d q u
    using assms(3) none [of d u] by (cases "q = p"; cases "u = t") auto
  have ent: "log_entry d st = log_entry d (sy_log s)" for d by (rule log_entry_config [OF st(1)])
  have "chosen ?s' ?sq"
    unfolding chosen_def w
  proof (intro allI impI)
    fix u d q
    assume q: "q \<noteq> p \<and> F_write d q \<in> set (sy_stack s u)"
    with assms(1) obtain h h' l where "lg_heap sq q = Some h" "call_fix d sq h = Some (h', l)"
      "lg_heap (sy_log s) q = Some h'" unfolding serial_def chosen_def by blast
    with q st(2) heap call_fix_config [OF cfg'(2), of d]
    show "\<exists>h h' l. lg_heap ?sq q = Some h \<and> call_fix d ?sq h = Some (h', l) \<and> lg_heap (sy_log ?s') q = Some h'"
      by simp
  qed
  moreover have "calls_ok ?s'"
    by (rule calls_ok_top [where f = "F_echo c p" and fs = fs, OF _ _ _ assms(3)]) (use assms(1) ent in \<open>simp_all add: serial_def\<close>)
  moreover have "\<forall>q. (\<forall>u d. F_write d q \<notin> set (sy_stack ?s' u)) \<longrightarrow> lg_heap (sy_log ?s') q = lg_heap ?sq q"
    unfolding w using assms(1) st(2) heap by (simp add: serial_def)
  ultimately have "serial ?s' ?sq"
    using cfg' st(3) sq1(4) sq2(4) assms(1) by (simp add: serial_def)
  with alone show ?thesis by blast
qed

lemma serial_echo:
  assumes "serial s sq" and "sy_stack s t = F_echo c p # fs"
  shows "serial (set_stack t (F_unlock p # fs) (s\<lparr>sy_log := log_echo c (sy_log s)\<rparr>)) sq"
proof -
  let ?s' = "set_stack t (F_unlock p # fs) (s\<lparr>sy_log := log_echo c (sy_log s)\<rparr>)"
  have ent: "log_entry d (log_echo c (sy_log s)) = log_entry d (sy_log s)" for d
    by (rule log_entry_config) simp
  have w: "F_write d q \<in> set (sy_stack ?s' u) \<longleftrightarrow> F_write d q \<in> set (sy_stack s u)" for d q u
    using assms(2) by simp
  have "calls_ok ?s'"
    by (rule calls_ok_top [where f = "F_unlock p" and fs = fs, OF _ _ _ assms(2)])
      (use assms(1) ent in \<open>simp_all add: serial_def\<close>)
  moreover have "chosen ?s' sq" using assms(1) unfolding serial_def chosen_def w by simp
  ultimately show ?thesis using assms(1) unfolding serial_def w by simp
qed

lemma serial_frame:
  assumes run: "run_frame t f fs s = Some (Inr s')" and st: "sy_stack s t = f # fs"
    and "serial s sq" and "exclusive s"
  shows "\<exists>sq'. log_serial (map snd (write_calls (Run t) s)) sq = Inr sq' \<and> serial s' sq'"
proof -
  have ok: "call_of g = Some (c, p) \<Longrightarrow> log_entry c (sy_log s) = Some p" if "g \<in> set (f # fs)" for g c p
    using assms(3) st that unfolding serial_def calls_ok_iff by (metis prod.inject)
  have keep: "serial (set_stack t fs' s1) sq" if "sy_log s1 = sy_log s" and "sy_stack s1 = sy_stack s"
    and "\<And>c p. F_write c p \<in> set fs' \<longleftrightarrow> F_write c p \<in> set (f # fs)"
    and "\<And>c p. F_lock c p \<in> set fs' \<or> F_fix c p \<in> set fs' \<Longrightarrow> log_entry c (sy_log s) = Some p" for fs' s1
    by (rule serial_stack [OF assms(3), where t = t and fs' = fs']) (use that st in \<open>simp_all\<close>)
  have ok_fs: "F_lock c p \<in> set fs \<or> F_fix c p \<in> set fs \<Longrightarrow> log_entry c (sy_log s) = Some p" for c p
    using ok by fastforce
  show ?thesis
  proof (cases f)
    case (F_enter c)
    have "serial s' sq"
    proof (cases "log_entry c (sy_log s)")
      case None
      with run F_enter keep [of s fs] ok_fs show ?thesis by auto
    next
      case (Some p)
      have "serial (set_stack t (F_lock c p # fs) s) sq"
        by (rule keep) (use ok_fs Some F_enter in \<open>auto\<close>)
      with run F_enter Some show ?thesis by simp
    qed
    with st F_enter show ?thesis by (simp add: write_calls_def)
  next
    case (F_lock c p)
    have "serial (set_stack t (F_fix c p # fs) (s\<lparr>sy_mutex := (sy_mutex s)(p \<mapsto> t)\<rparr>)) sq"
      by (rule keep) (use ok_fs ok [of f c p] F_lock in \<open>auto\<close>)
    with run F_lock st show ?thesis by (simp add: write_calls_def split: if_split_asm)
  next
    case (F_fix c p)
    with run obtain l where "log_fix c p (sy_log s) = Inr l"
      "s' = set_stack t (F_write c p # fs) (s\<lparr>sy_log := l\<rparr>)" by auto
    with serial_fix [OF assms(3,4) st [unfolded F_fix]] st F_fix show ?thesis by (simp add: write_calls_def)
  next
    case (F_write c p)
    with run obtain l where "log_write c p (sy_log s) = Inr l"
      "s' = set_stack t (F_echo c p # fs) (s\<lparr>sy_log := l\<rparr>)" by auto
    with serial_write [OF assms(3,4) st [unfolded F_write]] st F_write show ?thesis
      by (auto simp: write_calls_def)
  next
    case (F_echo c p)
    with run serial_echo [OF assms(3) st [unfolded F_echo]] st show ?thesis by (simp add: write_calls_def)
  next
    case (F_unlock p)
    have "serial (set_stack t fs (s\<lparr>sy_mutex := (sy_mutex s)(p := None)\<rparr>)) sq"
      by (rule keep) (use ok_fs F_unlock in \<open>auto\<close>)
    with run F_unlock st show ?thesis by (simp add: write_calls_def)
  next
    case F_exit
    have "serial (s\<lparr>sy_exited := True\<rparr>) sq"
      by (rule serial_stack [OF assms(3), where t = t and fs' = "f # fs"])
        (use st ok_fs ok [of f] in \<open>auto simp: F_exit\<close>)
    with run F_exit st show ?thesis by (simp add: write_calls_def)
  qed
qed

lemma serial_step:
  assumes "log_step ev s = Some (Inr s')" and "serial s sq" and "exclusive s"
  shows "\<exists>sq'. log_serial (map snd (write_calls ev s)) sq = Inr sq' \<and> serial s' sq'"
proof (cases ev)
  case (Call t c)
  with assms(1) have s': "s' = set_stack t [F_enter c] s" "sy_stack s t = []" by (auto split: if_split_asm)
  have "serial s' sq" unfolding s'(1)
    by (rule serial_stack [where t = t and fs' = "[F_enter c]", OF assms(2)]) (simp_all add: s'(2))
  with Call show ?thesis by (simp add: write_calls_def)
next
  case (Signal t c)
  with assms(1) have s': "s' = set_stack t (F_enter c # F_exit # sy_stack s t) s" by (auto split: if_split_asm)
  have "serial s' sq" unfolding s'
    by (rule serial_stack [where t = t and fs' = "F_enter c # F_exit # sy_stack s t", OF assms(2)])
      (use assms(2) in \<open>auto simp: serial_def calls_ok_def\<close>)
  with Signal show ?thesis by (simp add: write_calls_def)
next
  case (Run t)
  with assms(1) obtain f fs where st: "sy_stack s t = f # fs" and run: "run_frame t f fs s = Some (Inr s')"
    by (auto split: if_split_asm list.splits)
  from serial_frame [OF run st assms(2,3)] Run show ?thesis by simp
qed

lemma serial_run:
  assumes "log_run s es s' cs" and "serial s sq" and "exclusive s"
  shows "\<exists>sq'. log_serial (map snd cs) sq = Inr sq' \<and> serial s' sq'"
  using assms
proof (induction rule: log_run.induct)
  case (log_run_start s)
  then show ?case by simp
next
  case (log_run_step s es s1 cs ev s2)
  then obtain sq1 where sq1: "log_serial (map snd cs) sq = Inr sq1" "serial s1 sq1" by blast
  have "exclusive s1" using log_run_step exclusive_run by blast
  from serial_step [OF log_run_step.hyps(2) sq1(2) this] sq1(1) show ?case
    by (auto simp: log_serial_snoc)
qed

subsection \<open>Every call comes to its line once\<close>

text \<open>The calls a thread was asked to make, those that have not come to \<open>write_log\<close> yet.\<close>

fun issued :: "nat \<Rightarrow> log_event list \<Rightarrow> log_call list" where
  "issued t [] = []"
| "issued t (Call u c # es) = (if u = t then c # issued t es else issued t es)"
| "issued t (Signal u c # es) = (if u = t then c # issued t es else issued t es)"
| "issued t (Run u # es) = issued t es"

fun pending :: "logger \<Rightarrow> log_frame list \<Rightarrow> log_call list" where
  "pending st [] = []"
| "pending st (F_enter c # fs) = (if log_entry c st = None then pending st fs else c # pending st fs)"
| "pending st (F_lock c p # fs) = c # pending st fs"
| "pending st (F_fix c p # fs) = c # pending st fs"
| "pending st (F_write c p # fs) = c # pending st fs"
| "pending st (f # fs) = pending st fs"

definition by_thread :: "nat \<Rightarrow> (nat \<times> log_call) list \<Rightarrow> log_call list" where
  "by_thread t cs = map snd (filter (\<lambda>x. fst x = t) cs)"

lemma issued_append [simp]: "issued t (es @ es') = issued t es @ issued t es'"
  by (induction t es rule: issued.induct) simp_all

lemma by_thread_append [simp]: "by_thread t (cs @ ds) = by_thread t cs @ by_thread t ds"
  by (simp add: by_thread_def)

lemma by_thread_simps [simp]:
  "by_thread t [] = []" "by_thread t ((u, c) # cs) = (if u = t then c # by_thread t cs else by_thread t cs)"
  by (simp_all add: by_thread_def)

lemma log_alone_config:
  assumes "log_alone c st = Inr st'"
  shows "log_config st' = log_config st"
proof (cases "log_entry c st")
  case None
  with assms show ?thesis by (simp add: log_alone_def)
next
  case (Some p)
  with assms obtain st1 st2 where st: "log_fix c p st = Inr st1" "log_write c p st1 = Inr st2" "st' = log_echo c st2"
    by (auto simp: log_alone_def)
  from st(1) obtain h where "lg_heap st1 p = Some h" "log_config st1 = log_config st"
    by (auto simp: log_fix_Inr)
  with log_write_core [OF st(2)] st(3) show ?thesis by auto
qed

lemma pending_step:
  assumes "log_step ev s = Some (Inr s')" and "log_config (sy_log s) = log_config st"
  shows "mset (pending st (sy_stack s' t)) + mset (by_thread t (write_calls ev s))
    = mset (pending st (sy_stack s t)) + mset (filter (\<lambda>c. log_entry c st \<noteq> None) (issued t [ev]))"
proof (cases ev)
  case (Run u)
  with assms(1) obtain f fs where u: "sy_stack s u = f # fs" "run_frame u f fs s = Some (Inr s')"
    by (auto split: if_split_asm list.splits)
  with Run log_entry_config [OF assms(2)] show ?thesis
    by (cases f) (auto simp: write_calls_def split: if_split_asm option.splits)
qed (use assms(1) in \<open>auto simp: write_calls_def split: if_split_asm\<close>)

lemma calls_conserved:
  assumes "log_run s0 es s cs" and "quiet s0"
  shows "log_config (sy_log s) = log_config (sy_log s0)
    \<and> mset (filter (\<lambda>c. log_entry c (sy_log s0) \<noteq> None) (issued t es))
      = mset (by_thread t cs) + mset (pending (sy_log s0) (sy_stack s t))"
  using assms
proof (induction rule: log_run.induct)
  case (log_run_start s)
  then show ?case by (simp add: quiet_def)
next
  case (log_run_step s es s1 cs ev s2)
  then have IH: "log_config (sy_log s1) = log_config (sy_log s)"
    "mset (filter (\<lambda>c. log_entry c (sy_log s) \<noteq> None) (issued t es))
      = mset (by_thread t cs) + mset (pending (sy_log s) (sy_stack s1 t))" by simp_all
  from serial_run [OF log_run_step.hyps(1) serial_quiet quiet_exclusive] log_run_step.prems obtain sq
    where sq: "serial s1 sq" by blast
  have ex: "exclusive s1" using log_run_step quiet_exclusive exclusive_run by blast
  from serial_step [OF log_run_step.hyps(2) sq ex] obtain sq' where
    sq': "log_serial (map snd (write_calls ev s1)) sq = Inr sq'" "serial s2 sq'" by blast
  have "log_config sq' = log_config sq"
    using sq'(1) log_alone_config by (auto simp: write_calls_def split: log_event.splits list.splits log_frame.splits)
  then have cfg: "log_config (sy_log s2) = log_config (sy_log s1)"
    using sq sq'(2) by (simp add: serial_def)
  from pending_step [OF log_run_step.hyps(2) IH(1), of t] IH(2) cfg IH(1) show ?case
    by (simp add: ac_simps)
qed

text \<open>
  The lines that calls leave, each in the file named for it; \<open>None\<close> for a call that leaves none.
\<close>

fun lines :: "(nat \<times> log_call) list \<Rightarrow> string option list \<Rightarrow> (string \<times> string) list" where
  "lines ((t, c) # cs) (n # ns) =
     (case n of None \<Rightarrow> lines cs ns
      | Some f \<Rightarrow> (f, log_line (lc_env c) (lc_level c) (lc_msg c)) # lines cs ns)"
| "lines _ _ = []"

definition named :: "nat \<times> log_call \<Rightarrow> string option \<Rightarrow> bool" where
  "named x n \<longleftrightarrow> (env_fopen (lc_env (snd x)) \<longrightarrow> n \<noteq> None)"

lemma log_alone_line:
  assumes "log_alone c st = Inr st'" and "log_entry c st \<noteq> None"
  shows "\<exists>n. named (t, c) n \<and> lg_files st' = lg_files st @ lines [(t, c)] [n]"
proof -
  from assms obtain p st1 st2 where st: "log_fix c p st = Inr st1" "log_write c p st1 = Inr st2" "st' = log_echo c st2"
    by (auto simp: log_alone_def)
  then have files: "lg_files st1 = lg_files st" by (auto simp: log_fix_Inr)
  from st(2) obtain h where h: "lg_heap st1 p = Some h"
    by (auto simp: log_write_def write_log_def split: option.split_asm)
  show ?thesis
  proof (cases "h_fp h \<or> env_fopen (lc_env c)")
    case True
    with h st files show ?thesis
      by (intro exI [of _ "Some (h_filename h)"])
        (auto simp: named_def log_write_def write_log_def Let_def log_line_def call_date_def)
  next
    case False
    with h st files show ?thesis
      by (intro exI [of _ None]) (auto simp: named_def log_write_def write_log_def)
  qed
qed

lemma log_serial_lines:
  assumes "log_serial (map snd cs) st = Inr st'" and "\<forall>x\<in>set cs. log_entry (snd x) st \<noteq> None"
  shows "\<exists>ns. list_all2 named cs ns \<and> lg_files st' = lg_files st @ lines cs ns"
  using assms
proof (induction cs arbitrary: st)
  case (Cons x cs)
  obtain t c where x: "x = (t, c)" by (cases x)
  from Cons.prems(1) x obtain st1 where st1: "log_alone c st = Inr st1" "log_serial (map snd cs) st1 = Inr st'" by auto
  have "log_entry d st1 = log_entry d st" for d by (rule log_entry_config [OF log_alone_config [OF st1(1)]])
  with Cons.IH [OF st1(2)] Cons.prems(2) obtain ns where ns: "list_all2 named cs ns" "lg_files st' = lg_files st1 @ lines cs ns"
    by auto
  from log_alone_line [OF st1(1), of t] Cons.prems(2) x obtain n where "named (t, c) n"
    "lg_files st1 = lg_files st @ lines [(t, c)] [n]" by auto
  with ns x show ?case
    by (intro exI [of _ "n # ns"]) (auto split: option.split)
qed simp

subsection \<open>A signal in a section\<close>

text \<open>
  The frames that wait for the mutex \<open>p\<close>, and stacks on which every \<open>exit\<close> has such a frame
  on top.
\<close>

fun waits :: "nat \<Rightarrow> log_frame \<Rightarrow> bool" where
  "waits p (F_enter c) = (lc_level c = LOG_LEVEL_ERR)"
| "waits p (F_lock c q) = (q = p)"
| "waits p f = False"

fun covered :: "nat \<Rightarrow> log_frame list \<Rightarrow> bool" where
  "covered p [] = True"
| "covered p [f] = (f \<noteq> F_exit)"
| "covered p (f # g # fs) = (f \<noteq> F_exit \<and>
     (if g = F_exit then waits p f \<and> (fs = [] \<or> covered p fs) else covered p (g # fs)))"

text \<open>\<open>stuck\<close>: thread \<open>t\<close> holds \<open>p\<close>, which it waits for itself.\<close>

definition err_handler :: "nat \<Rightarrow> logger \<Rightarrow> bool" where
  "err_handler p st \<longleftrightarrow> (\<forall>d. lc_level d = LOG_LEVEL_ERR \<longrightarrow> log_entry d st = Some p)"

definition stuck :: "nat \<Rightarrow> nat \<Rightarrow> log_sys \<Rightarrow> bool" where
  "stuck t p s \<longleftrightarrow> exclusive s \<and> sy_mutex s p = Some t \<and> \<not> sy_exited s \<and> err_handler p (sy_log s)
     \<and> (\<forall>u. covered p (sy_stack s u))
     \<and> (\<exists>us g ls. sy_stack s t = us @ g # ls \<and> us \<noteq> [] \<and> in_section p g
          \<and> (\<forall>f\<in>set us. f = F_exit \<or> waits p f))"

lemma covered_hd: "covered p (f # fs) \<Longrightarrow> f \<noteq> F_exit"
  by (cases fs) simp_all

lemma covered_tl: "covered p (f # fs) \<Longrightarrow> \<not> waits p f \<Longrightarrow> covered p fs"
  by (cases fs) (auto split: if_split_asm)

lemma covered_push: "covered p fs \<Longrightarrow> lc_level c = LOG_LEVEL_ERR \<Longrightarrow> covered p (F_enter c # F_exit # fs)"
  by simp

lemma covered_top:
  "covered p (f # fs) \<Longrightarrow> f' \<noteq> F_exit \<Longrightarrow> waits p f \<longrightarrow> waits p f' \<Longrightarrow> covered p (f' # fs)"
  by (cases fs) (auto split: if_split_asm)

definition err_signals :: "log_event list \<Rightarrow> bool" where
  "err_signals es \<longleftrightarrow> (\<forall>t c. Signal t c \<in> set es \<longrightarrow> lc_level c = LOG_LEVEL_ERR)"

lemma log_write_config: "log_write c p st = Inr st' \<Longrightarrow> log_config st' = log_config st"
proof -
  assume w: "log_write c p st = Inr st'"
  then obtain h where "lg_heap st p = Some h"
    by (auto simp: log_write_def write_log_def split: option.splits)
  from log_write_core [OF w this] show ?thesis by blast
qed

lemma run_frame_config:
  assumes "run_frame t f fs s = Some (Inr s')"
  shows "log_config (sy_log s') = log_config (sy_log s)"
  using assms log_write_config by (cases f) (auto simp: log_fix_Inr split: if_split_asm)

lemma log_run_config: "log_run s es s' cs \<Longrightarrow> log_config (sy_log s') = log_config (sy_log s)"
proof (induction rule: log_run.induct)
  case (log_run_step s es s1 cs ev s2)
  then show ?case
    using run_frame_config by (cases ev) (fastforce split: if_split_asm list.split_asm)+
qed simp

lemma err_handler_config: "log_config st' = log_config st \<Longrightarrow> err_handler p st' = err_handler p st"
  unfolding err_handler_def by (metis log_entry_config)

text \<open>What a step makes of the top of a stack that is not in the section \<open>p\<close>, while \<open>p\<close> is held.\<close>

lemma covered_run:
  assumes "run_frame u f fs s = Some (Inr s')" and "covered p (f # fs)" and "\<not> in_section p f"
    and "sy_mutex s p \<noteq> None" and "err_handler p (sy_log s)"
  shows "covered p (sy_stack s' u) \<and> sy_mutex s' p = sy_mutex s p \<and> sy_exited s' = sy_exited s
    \<and> (\<forall>v. v \<noteq> u \<longrightarrow> sy_stack s' v = sy_stack s v)
    \<and> (waits p f \<longrightarrow> (\<exists>c. sy_stack s' u = F_lock c p # fs))"
proof (cases f)
  case (F_enter c)
  show ?thesis
  proof (cases "log_entry c (sy_log s)")
    case None
    with assms(5) have "lc_level c \<noteq> LOG_LEVEL_ERR" by (auto simp: err_handler_def)
    with assms(1,2) None covered_tl [OF assms(2)] F_enter show ?thesis by auto
  next
    case (Some q)
    with assms(5) have "waits p f \<Longrightarrow> q = p" by (auto simp: err_handler_def F_enter)
    with assms(1) Some covered_top [OF assms(2), of "F_lock c q"] F_enter show ?thesis by auto
  qed
next
  case (F_lock c q)
  with assms(1,4) have q: "q \<noteq> p" "\<not> waits p f" by (auto split: if_split_asm)
  with assms(1) F_lock covered_top [OF assms(2), of "F_fix c q"] show ?thesis by (auto split: if_split_asm)
next
  case (F_fix c q)
  with assms(1) covered_top [OF assms(2), of "F_write c q"] show ?thesis by auto
next
  case (F_write c q)
  with assms(1) covered_top [OF assms(2), of "F_echo c q"] show ?thesis by auto
next
  case (F_echo c q)
  with assms(1) covered_top [OF assms(2), of "F_unlock q"] show ?thesis by auto
next
  case (F_unlock q)
  with assms(1,3) covered_tl [OF assms(2)] show ?thesis by auto
next
  case F_exit
  with covered_hd [OF assms(2)] show ?thesis by simp
qed

lemma stuck_frame:
  assumes run: "run_frame u f fs s = Some (Inr s')" and u: "sy_stack s u = f # fs"
    and "stuck t p s" and ex': "exclusive s'"
  shows "stuck t p s'"
proof -
  from assms(3) obtain us g ls where ex: "exclusive s" and m: "sy_mutex s p = Some t" and live: "\<not> sy_exited s"
    and err: "err_handler p (sy_log s)" and cov: "\<And>u. covered p (sy_stack s u)"
    and st: "sy_stack s t = us @ g # ls" "us \<noteq> []" "in_section p g" "\<forall>f\<in>set us. f = F_exit \<or> waits p f"
    unfolding stuck_def by blast
  have top: "\<not> in_section p f \<and> (u = t \<longrightarrow> waits p f \<and> (\<exists>us'. us = f # us' \<and> fs = us' @ g # ls))"
  proof (cases "u = t")
    case True
    with u st obtain us' where us: "us = f # us'" "fs = us' @ g # ls" by (cases us) auto
    have "f \<noteq> F_exit" using cov [of u] covered_hd u by metis
    with us st(4) have "waits p f" by simp
    then have "\<not> in_section p f" by (cases f) auto
    with us \<open>waits p f\<close> show ?thesis by blast
  next
    case False
    with exclusive_frame(1) [OF ex u, of p] m show ?thesis by auto
  qed
  from cov [of u] u have c: "covered p (f # fs)" by simp
  from covered_run [OF run c _ _ err] top m have s': "covered p (sy_stack s' u)" "sy_mutex s' p = sy_mutex s p"
    "sy_exited s' = sy_exited s" "\<And>v. v \<noteq> u \<Longrightarrow> sy_stack s' v = sy_stack s v"
    "waits p f \<longrightarrow> (\<exists>c. sy_stack s' u = F_lock c p # fs)" by auto
  have "covered p (sy_stack s' v)" for v using s'(1) s'(4) [of v] cov [of v] by (cases "v = u") auto
  moreover have "\<exists>us g ls. sy_stack s' t = us @ g # ls \<and> us \<noteq> [] \<and> in_section p g
      \<and> (\<forall>f\<in>set us. f = F_exit \<or> waits p f)"
  proof (cases "u = t")
    case True
    with top s'(5) obtain c us' where "us = f # us'" "sy_stack s' t = (F_lock c p # us') @ g # ls" by auto
    with st(3,4) show ?thesis
      by (intro exI [of _ "F_lock c p # us'"] exI [of _ g] exI [of _ ls]) simp
  next
    case False
    with s'(4) [of t] st show ?thesis by metis
  qed
  moreover have "err_handler p (sy_log s')"
    using err err_handler_config [OF run_frame_config [OF run]] by simp
  ultimately show ?thesis using ex' m live s'(2,3) unfolding stuck_def by simp
qed

lemma stuck_step:
  assumes "log_step ev s = Some (Inr s')" and "stuck t p s" and "err_signals [ev]"
  shows "stuck t p s'"
proof -
  from assms(2) obtain us g ls where ex: "exclusive s" and m: "sy_mutex s p = Some t" and run: "\<not> sy_exited s"
    and err: "err_handler p (sy_log s)" and cov: "\<And>u. covered p (sy_stack s u)"
    and st: "sy_stack s t = us @ g # ls" "us \<noteq> []" "in_section p g" "\<forall>f\<in>set us. f = F_exit \<or> waits p f"
    unfolding stuck_def by blast
  have ex': "exclusive s'" by (rule exclusive_step [OF assms(1) ex])
  show ?thesis
  proof (cases ev)
    case (Call u c)
    with assms(1) have s': "s' = set_stack u [F_enter c] s" "u \<noteq> t" using st(1) by (auto split: if_split_asm)
    with ex' m run err cov st show ?thesis unfolding stuck_def by auto
  next
    case (Signal u c)
    with assms(1,3) have s': "s' = set_stack u (F_enter c # F_exit # sy_stack s u) s"
      and lev: "lc_level c = LOG_LEVEL_ERR" by (auto simp: err_signals_def split: if_split_asm)
    have "covered p (sy_stack s' v)" for v using cov covered_push [OF cov lev] s' by simp
    moreover have "\<exists>us g ls. sy_stack s' t = us @ g # ls \<and> us \<noteq> [] \<and> in_section p g
        \<and> (\<forall>f\<in>set us. f = F_exit \<or> waits p f)"
    proof (cases "u = t")
      case True
      with s' st lev show ?thesis
        by (intro exI [of _ "F_enter c # F_exit # us"] exI [of _ g] exI [of _ ls]) simp
    next
      case False
      with s' st show ?thesis by auto
    qed
    ultimately show ?thesis using ex' m run err s' unfolding stuck_def by simp
  next
    case (Run u)
    with assms(1) obtain f fs where u: "sy_stack s u = f # fs" "run_frame u f fs s = Some (Inr s')"
      by (auto split: if_split_asm list.splits)
    from stuck_frame [OF u(2,1) assms(2) ex'] show ?thesis .
  qed
qed

lemma stuck_run: "log_run s es s' cs \<Longrightarrow> stuck t p s \<Longrightarrow> err_signals es \<Longrightarrow> stuck t p s'"
proof (induction rule: log_run.induct)
  case (log_run_step s es s1 cs ev s2)
  then have "stuck t p s1" and "err_signals [ev]" by (auto simp: err_signals_def)
  with stuck_step [OF log_run_step.hyps(2)] show ?case by blast
qed

text \<open>From then on no call comes to write through \<open>p\<close>.\<close>

lemma stuck_write:
  assumes "stuck t p s" and "calls_ok s" and "x \<in> set (write_calls ev s)"
  shows "log_entry (snd x) (sy_log s) \<noteq> Some p"
proof
  assume entry: "log_entry (snd x) (sy_log s) = Some p"
  from assms(3) obtain u c q fs where u: "sy_stack s u = F_write c q # fs" and x: "snd x = c"
    by (auto simp: write_calls_def split: log_event.split_asm list.split_asm log_frame.split_asm) (metis)
  then have "log_entry c (sy_log s) = Some q" using assms(2) unfolding calls_ok_def by (metis list.set_intros(1))
  with entry x have q: "q = p" by simp
  from assms(1) obtain us g ls where ex: "exclusive s" and m: "sy_mutex s p = Some t"
    and st: "sy_stack s t = us @ g # ls" "us \<noteq> []" "\<forall>f\<in>set us. f = F_exit \<or> waits p f"
    unfolding stuck_def by blast
  from exclusive_frame(1) [OF ex u, of p] q m have "u = t" by simp
  with u st have "F_write c q = F_exit \<or> waits p (F_write c q)" by (cases us) auto
  then show False by simp
qed

lemma stuck_run_writes:
  assumes "log_run s es s' cs" and "stuck t p s" and "err_signals es" and "serial s sq" and "x \<in> set cs"
  shows "log_entry (snd x) (sy_log s) \<noteq> Some p"
  using assms
proof (induction rule: log_run.induct)
  case (log_run_start s)
  then show ?case by simp
next
  case (log_run_step s es s1 cs ev s2)
  then have es: "err_signals es" by (auto simp: err_signals_def)
  from stuck_run [OF log_run_step.hyps(1) log_run_step.prems(1) es] have st1: "stuck t p s1" .
  have "exclusive s" using log_run_step.prems(1) by (simp add: stuck_def)
  from serial_run [OF log_run_step.hyps(1) log_run_step.prems(3) this] obtain sq1
    where sq1: "serial s1 sq1" by blast
  have "log_config (sy_log s1) = log_config (sy_log s)" by (rule log_run_config [OF log_run_step.hyps(1)])
  from log_entry_config [OF this, of "snd x"] stuck_write [OF st1, of x ev] sq1 log_run_step.IH log_run_step.prems es
  show ?case by (auto simp: serial_def)
qed

text \<open>Without signals no stack has an \<open>exit\<close>.\<close>

lemma no_exit_run:
  assumes "log_run s0 es s cs" and "quiet s0" and "\<forall>t c. Signal t c \<notin> set es"
  shows "\<not> sy_exited s \<and> (\<forall>t. F_exit \<notin> set (sy_stack s t))"
  using assms
proof (induction rule: log_run.induct)
  case (log_run_start s)
  then show ?case by (simp add: quiet_def)
next
  case (log_run_step s es s1 cs ev s2)
  then have IH: "\<not> sy_exited s1" "\<And>t. F_exit \<notin> set (sy_stack s1 t)" by auto
  show ?case
  proof (cases ev)
    case (Call t c)
    with log_run_step.hyps(2) IH show ?thesis by (auto split: if_split_asm)
  next
    case (Signal t c)
    with log_run_step.prems show ?thesis by auto
  next
    case (Run t)
    with log_run_step.hyps(2) obtain f fs where t: "sy_stack s1 t = f # fs" "run_frame t f fs s1 = Some (Inr s2)"
      by (auto split: if_split_asm list.splits)
    from IH(2) [of t] t(1) have "f \<noteq> F_exit" "F_exit \<notin> set fs" by auto
    with t IH show ?thesis by (cases f) (auto split: if_split_asm option.splits)
  qed
qed

lemma covered_no_exit: "F_exit \<notin> set fs \<Longrightarrow> covered p fs"
  by (induction p fs rule: covered.induct) auto

subsection \<open>Runs can be computed\<close>

fun log_exec :: "log_event list \<Rightarrow> log_sys \<Rightarrow> (log_sys \<times> (nat \<times> log_call) list) option" where
  "log_exec [] s = Some (s, [])"
| "log_exec (ev # es) s =
     (case log_step ev s of
        Some (Inr s1) \<Rightarrow> map_option (\<lambda>(s2, cs). (s2, write_calls ev s @ cs)) (log_exec es s1)
      | _ \<Rightarrow> None)"

lemma log_run_append: "log_run s1 es' s2 ds \<Longrightarrow> log_run s es s1 cs \<Longrightarrow> log_run s (es @ es') s2 (cs @ ds)"
proof (induction rule: log_run.induct)
  case (log_run_step s1 es' s2 ds ev s3)
  then show ?case
    using log_run.log_run_step [of s "es @ es'" s2 "cs @ ds" ev s3] by simp
qed simp

lemma log_exec_run: "log_exec es s = Some (s', cs) \<Longrightarrow> log_run s es s' cs"
proof (induction es arbitrary: s cs)
  case Nil
  then show ?case by (simp add: log_run_start)
next
  case (Cons ev es)
  then obtain s1 ds where s1: "log_step ev s = Some (Inr s1)" "log_exec es s1 = Some (s', ds)"
    "cs = write_calls ev s @ ds" by (auto split: option.splits sum.splits)
  from log_run.log_run_step [OF log_run_start s1(1)] have "log_run s [ev] s1 (write_calls ev s)" by simp
  from log_run_append [OF Cons.IH [OF s1(2)] this] s1(3) show ?case by simp
qed

definition quiet_system :: log_sys where
  "quiet_system = \<lparr>sy_log = logger_static\<lparr>lg_is_inited := True, lg_is_debug := 1,
      lg_handler := [Some 10, Some 10, Some 10, Some 10, Some 14],
      lg_heap := [10 \<mapsto> calloc_handler 0, 14 \<mapsto> calloc_handler 4]\<rparr>,
     sy_mutex = (\<lambda>_. None), sy_stack = (\<lambda>_. []), sy_exited = False\<rparr>"

definition some_call :: "int \<Rightarrow> log_call" where
  "some_call level = \<lparr>lc_env = \<lparr>env_tv = \<lparr>tm_year = 124, tm_mon = 0, tm_mday = 1, tm_hour = 0,
       tm_min = 0, tm_sec = 0\<rparr>, env_now = None, env_pid = 7, env_sizes = (\<lambda>_. None), env_fopen = True\<rparr>,
     lc_level = level, lc_msg = ''x''\<rparr>"

lemma lc_level_some_call [simp]: "lc_level (some_call l) = l"
  by (simp add: some_call_def)

lemma quiet_quiet_system: "quiet quiet_system"
  by (simp add: quiet_def quiet_system_def)

lemma quiet_system_err: "err_handler 14 (sy_log quiet_system)"
  by (simp add: err_handler_def quiet_system_def log_entry_def log_enabled_def logger_static_def)

subsection \<open>Properties\<close>

text \<open>C23: Calls of the logger from several threads, interrupted by signals whose handler logs and exits,
  are serial, however they are interleaved at the steps between which another thread or a
  signal may come.  At every moment of a run, also after the exit, the lines in all files and
  the configuration are those that the calls that have come to \<open>write_log\<close> leave when each is
  made alone, in that order; and so are the handlers when no call is between choosing its
  file and writing.  Of each thread, every call that its level lets pass has come to \<open>write_log\<close>
  exactly once or is still under way; and each call that has come there has added its line, exactly
  once, with its date and text, unless \<open>fopen\<close> fails for it.\<close>

theorem log_calls_serialize:
  assumes "quiet s0" and "log_run s0 es s cs"
  shows "(\<exists>st. log_serial (map snd cs) (sy_log s0) = Inr st
        \<and> log_config (sy_log s) = log_config st \<and> lg_files (sy_log s) = lg_files st
        \<and> ((\<forall>t c p. F_write c p \<notin> set (sy_stack s t)) \<longrightarrow> same_core (sy_log s) st))
    \<and> (\<forall>t. mset (filter (\<lambda>c. log_entry c (sy_log s0) \<noteq> None) (issued t es))
        = mset (by_thread t cs) + mset (pending (sy_log s0) (sy_stack s t)))
    \<and> (\<exists>ns. list_all2 (\<lambda>(t, c) n. env_fopen (lc_env c) \<longrightarrow> n \<noteq> None) cs ns
        \<and> lg_files (sy_log s) = lg_files (sy_log s0) @ lines cs ns)"
proof -
  from serial_run [OF assms(2) serial_quiet [OF assms(1)] quiet_exclusive [OF assms(1)]]
  obtain st where st: "log_serial (map snd cs) (sy_log s0) = Inr st" "serial s st" by blast
  then have same: "log_config (sy_log s) = log_config st" "lg_files (sy_log s) = lg_files st"
    "(\<forall>t c p. F_write c p \<notin> set (sy_stack s t)) \<longrightarrow> same_core (sy_log s) st"
    by (auto simp: serial_def same_core_def)
  have cons: "mset (filter (\<lambda>c. log_entry c (sy_log s0) \<noteq> None) (issued t es))
      = mset (by_thread t cs) + mset (pending (sy_log s0) (sy_stack s t))" for t
    using calls_conserved [OF assms(2,1), of t] by simp
  have "\<forall>x\<in>set cs. log_entry (snd x) (sy_log s0) \<noteq> None"
  proof
    fix x
    assume "x \<in> set cs"
    then have "snd x \<in># mset (by_thread (fst x) cs)" by (auto simp: by_thread_def)
    with cons [of "fst x"] show "log_entry (snd x) (sy_log s0) \<noteq> None"
      by (metis (mono_tags, lifting) UnCI mem_Collect_eq set_filter set_mset_mset set_mset_union)
  qed
  from log_serial_lines [OF st(1) this] obtain ns where "list_all2 named cs ns"
    "lg_files (sy_log s) = lg_files (sy_log s0) @ lines cs ns" using same(2) by auto
  moreover have "named = (\<lambda>(t, c) n. env_fopen (lc_env c) \<longrightarrow> n \<noteq> None)" by (auto simp: fun_eq_iff named_def)
  ultimately show ?thesis using st(1) same cons by auto
qed

text \<open>Two threads whose calls overlap; and a signal that ends the program while a call is in its section.\<close>

theorem log_calls_serialize_witness:
  "(\<exists>s cs st. log_run quiet_system
      [Call 0 (some_call 1), Call 1 (some_call 4), Run 0, Run 1, Run 0, Run 1, Run 0, Run 1,
       Run 1, Run 0, Run 0, Run 1, Run 1, Run 0] s cs
    \<and> log_serial [some_call 4, some_call 1] (sy_log quiet_system) = Inr st \<and> same_core (sy_log s) st)
  \<and> (\<exists>s f. log_run quiet_system
      [Call 0 (some_call 1), Run 0, Run 0, Signal 0 (some_call 4), Run 0, Run 0, Run 0, Run 0, Run 0, Run 0, Run 0]
      s [(0, some_call 4)] \<and> sy_exited s
    \<and> lg_files (sy_log s) = [(f, log_line (lc_env (some_call 4)) 4 ''x'')])"
proof -
  let ?es = "[Call 0 (some_call 1), Call 1 (some_call 4), Run 0, Run 1, Run 0, Run 1, Run 0, Run 1,
    Run 1, Run 0, Run 0, Run 1, Run 1, Run 0]"
  let ?fs = "[Call 0 (some_call 1), Run 0, Run 0, Signal 0 (some_call 4), Run 0, Run 0, Run 0, Run 0, Run 0, Run 0, Run 0]"
  note defs = quiet_system_def some_call_def logger_static_def log_entry_def log_enabled_def
        log_fix_def call_fix_def fix_log_filename_def log_write_def write_log_def Let_def log_echo_def
        write_calls_def calloc_handler_def
  have "\<exists>s. log_exec ?es quiet_system = Some (s, [(1, some_call 4), (0, some_call 1)]) \<and> (\<forall>t. sy_stack s t = [])"
    by (simp add: defs)
  then obtain s where s: "log_exec ?es quiet_system = Some (s, [(1, some_call 4), (0, some_call 1)])"
    "\<forall>t. sy_stack s t = []" by blast
  have "\<exists>s. log_exec ?fs quiet_system = Some (s, [(0, some_call 4)]) \<and> sy_exited s"
    by (simp add: defs)
  then obtain r where r: "log_exec ?fs quiet_system = Some (r, [(0, some_call 4)])" "sy_exited r" by blast
  have files: "lg_files (sy_log quiet_system) = []" by (simp add: quiet_system_def logger_static_def)
  from log_calls_serialize [OF quiet_quiet_system log_exec_run [OF r(1)], THEN conjunct2, THEN conjunct2]
  obtain ns where "list_all2 (\<lambda>(t, c) n. env_fopen (lc_env c) \<longrightarrow> n \<noteq> None) [(0 :: nat, some_call 4)] ns"
    "lg_files (sy_log r) = lines [(0, some_call 4)] ns" unfolding files append_Nil by (elim exE conjE) (rule that)
  then have "\<exists>f. lg_files (sy_log r) = [(f, log_line (lc_env (some_call 4)) 4 ''x'')]"
    by (cases ns) (auto simp: some_call_def)
  with log_exec_run [OF r(1)] r(2) have "\<exists>s f. log_run quiet_system ?fs s [(0, some_call 4)] \<and> sy_exited s
      \<and> lg_files (sy_log s) = [(f, log_line (lc_env (some_call 4)) 4 ''x'')]" by blast
  moreover from log_calls_serialize [OF quiet_quiet_system log_exec_run [OF s(1)]] s(2)
  have "\<exists>st. log_serial [some_call 4, some_call 1] (sy_log quiet_system) = Inr st \<and> same_core (sy_log s) st"
    by auto
  ultimately show ?thesis using log_exec_run [OF s(1)] by blast
qed

text \<open>C24: When the first signal of a run (SIGINT, SIGQUIT, SIGTERM or SIGHUP, whose handler logs an error
  and exits) is delivered to a thread that holds the mutex of the error log, the handler waits
  for the mutex that its own thread holds.  Whatever the threads do from then on and whichever
  further such signals are delivered, to any thread, the process does not exit, the mutex is
  not released, and no call of any thread that logs through this handler comes to write its
  line.  (Levels with another handler can still log, and a signal that is first delivered to a thread
  that does not hold the mutex is not the subject here.)\<close>

theorem signal_deadlock:
  assumes "quiet s0" and "log_run s0 es s cs" and "\<forall>t c. Signal t c \<notin> set es"
    and "sy_stack s t = f # fs" and "in_section p f" and "err_handler p (sy_log s0)"
    and "lc_level d = LOG_LEVEL_ERR"
  shows "\<exists>s1. log_step (Signal t d) s = Some (Inr s1)
    \<and> (\<forall>es' s' cs'. log_run s1 es' s' cs' \<and> err_signals es' \<longrightarrow> \<not> sy_exited s' \<and> sy_mutex s' p = Some t
        \<and> (\<forall>x\<in>set cs'. log_entry (snd x) (sy_log s0) \<noteq> Some p))"
proof -
  have ex: "exclusive s" by (rule exclusive_run [OF assms(2) quiet_exclusive [OF assms(1)]])
  note ne = no_exit_run [OF assms(2,1,3)]
  have cfg: "log_config (sy_log s) = log_config (sy_log s0)" using calls_conserved [OF assms(2,1)] by blast
  let ?s1 = "set_stack t (F_enter d # F_exit # f # fs) s"
  have step: "log_step (Signal t d) s = Some (Inr ?s1)" using ne assms(4) by simp
  have cov: "covered p (sy_stack s u)" for u using ne covered_no_exit by blast
  have "covered p (sy_stack ?s1 u)" for u
    using cov [of u] covered_push [OF cov [of t] assms(7)] assms(4) by simp
  moreover have "err_handler p (sy_log ?s1)"
    using assms(6) err_handler_config [OF cfg] by simp
  moreover have "exclusive ?s1" by (rule exclusive_step [OF step ex])
  moreover have "\<exists>us g ls. sy_stack ?s1 t = us @ g # ls \<and> us \<noteq> [] \<and> in_section p g
      \<and> (\<forall>f\<in>set us. f = F_exit \<or> waits p f)"
    by (rule exI [of _ "[F_enter d, F_exit]"]) (use assms(5,7) in simp)
  ultimately have stuck: "stuck t p ?s1"
    using exclusive_frame(1) [OF ex assms(4,5)] ne unfolding stuck_def by simp
  from serial_run [OF assms(2) serial_quiet [OF assms(1)] quiet_exclusive [OF assms(1)]]
  obtain sq where "serial s sq" by blast
  from serial_step [OF step this ex] obtain sq' where sq': "serial ?s1 sq'" by (auto simp: write_calls_def)
  have "log_entry c (sy_log ?s1) = log_entry c (sy_log s0)" for c using log_entry_config [OF cfg] by simp
  with stuck_run_writes [OF _ stuck _ sq'] stuck_run [OF _ stuck] step show ?thesis
    unfolding stuck_def by metis
qed

theorem signal_deadlock_witness:
  "\<exists>s s1 s' cs. log_run quiet_system [Call 1 (some_call 4), Run 1, Run 1] s []
    \<and> log_step (Signal 1 (some_call 4)) s = Some (Inr s1)
    \<and> log_run s1 [Run 1, Signal 0 (some_call 4), Run 0] s' cs \<and> \<not> sy_exited s' \<and> sy_mutex s' 14 = Some 1"
proof -
  let ?c = "some_call 4"
  let ?s = "quiet_system\<lparr>sy_mutex := [14 \<mapsto> 1], sy_stack := (\<lambda>_. [])(1 := [F_fix ?c 14])\<rparr>"
  let ?s1 = "set_stack 1 [F_enter ?c, F_exit, F_fix ?c 14] ?s"
  have "log_exec [Call 1 ?c, Run 1, Run 1] quiet_system = Some (?s, [])"
    by (simp add: quiet_system_def some_call_def logger_static_def log_entry_def log_enabled_def
        set_stack_def write_calls_def)
  note run = log_exec_run [OF this]
  have "\<exists>s'. log_exec [Run 1, Signal 0 ?c, Run 0] ?s1 = Some (s', [])"
    by (simp add: quiet_system_def some_call_def logger_static_def log_entry_def log_enabled_def write_calls_def)
  then obtain s' where s': "log_exec [Run 1, Signal 0 ?c, Run 0] ?s1 = Some (s', [])" by blast
  have step: "log_step (Signal 1 ?c) ?s = Some (Inr ?s1)" by (simp add: quiet_system_def)
  have "\<forall>t c. Signal t c \<notin> set [Call 1 ?c, Run 1, Run 1]" and "sy_stack ?s 1 = [F_fix ?c 14]" by simp_all
  from signal_deadlock [OF quiet_quiet_system run this _ quiet_system_err lc_level_some_call]
  have "\<exists>s1. log_step (Signal 1 ?c) ?s = Some (Inr s1)
      \<and> (\<forall>es' s' cs'. log_run s1 es' s' cs' \<and> err_signals es' \<longrightarrow> \<not> sy_exited s' \<and> sy_mutex s' 14 = Some 1)"
    unfolding in_section.simps by blast
  with step have "\<forall>es' s' cs'. log_run ?s1 es' s' cs' \<and> err_signals es'
      \<longrightarrow> \<not> sy_exited s' \<and> sy_mutex s' 14 = Some 1" by auto
  moreover have "err_signals [Run 1, Signal 0 ?c, Run 0]" by (simp add: err_signals_def)
  ultimately have "\<not> sy_exited s' \<and> sy_mutex s' 14 = Some 1" using log_exec_run [OF s'] by blast
  with run step log_exec_run [OF s'] show ?thesis by blast
qed

end
