(* ===== verification/Zmalloc_Threads.thy ===== *)
theory Zmalloc_Threads
  imports Zmalloc "HOL-Library.Multiset"
begin

section \<open>The statistics of the allocator with threads (src/zmalloc.c)\<close>

text \<open>
  \<open>used_memory\<close> is one variable that all threads add to and subtract from.  Here an update is
  cut into its steps: the test of \<open>zmalloc_thread_safe\<close>, the mutex if it is set, reading the
  variable, and writing it.  With \<open>HAVE_ATOMIC\<close> the guarded update is one step.  The
  unguarded \<open>+=\<close> is a read and a write.
\<close>

datatype zstat = Stat_alloc size_t | Stat_free size_t

fun stat_delta :: "zstat \<Rightarrow> size_t" where
  "stat_delta (Stat_alloc n) = pad_long n"
| "stat_delta (Stat_free n) = - pad_long n"

datatype zt_pc =
    Z_idle
  | Z_test size_t
  | Z_lock size_t
  | Z_load bool size_t
  | Z_store bool size_t size_t
  | Z_unlock

record zt_sys =
  zt_used :: size_t
  zt_safe :: bool
  zt_mutex :: "nat option"
  zt_pc :: "nat \<Rightarrow> zt_pc"

definition goto :: "nat \<Rightarrow> zt_pc \<Rightarrow> zt_sys \<Rightarrow> zt_sys" where
  "goto t p s = s\<lparr>zt_pc := (zt_pc s)(t := p)\<rparr>"

text \<open>The next step of a thread; \<open>None\<close>: there is none, or the thread waits for the mutex.\<close>

fun zt_next :: "bool \<Rightarrow> nat \<Rightarrow> zt_pc \<Rightarrow> zt_sys \<Rightarrow> zt_sys option" where
  "zt_next atomic t Z_idle s = None"
| "zt_next atomic t (Z_test d) s =
     Some (if \<not> zt_safe s then goto t (Z_load False d) s
           else if atomic then goto t Z_idle (s\<lparr>zt_used := zt_used s + d\<rparr>)
           else goto t (Z_lock d) s)"
| "zt_next atomic t (Z_lock d) s =
     (if zt_mutex s = None then Some (goto t (Z_load True d) (s\<lparr>zt_mutex := Some t\<rparr>)) else None)"
| "zt_next atomic t (Z_load locked d) s = Some (goto t (Z_store locked d (zt_used s)) s)"
| "zt_next atomic t (Z_store locked d v) s =
     Some (goto t (if locked then Z_unlock else Z_idle) (s\<lparr>zt_used := v + d\<rparr>))"
| "zt_next atomic t Z_unlock s = Some (goto t Z_idle (s\<lparr>zt_mutex := None\<rparr>))"

text \<open>A thread begins an update, makes a step, or calls \<open>zmalloc_enable_thread_safeness\<close>.\<close>

datatype zt_event = Z_call nat zstat | Z_step nat | Z_enable nat

fun zt_step :: "bool \<Rightarrow> zt_event \<Rightarrow> zt_sys \<Rightarrow> zt_sys option" where
  "zt_step atomic (Z_call t u) s =
     (if zt_pc s t = Z_idle then Some (goto t (Z_test (stat_delta u)) s) else None)"
| "zt_step atomic (Z_step t) s = zt_next atomic t (zt_pc s t) s"
| "zt_step atomic (Z_enable t) s = (if zt_pc s t = Z_idle then Some (s\<lparr>zt_safe := True\<rparr>) else None)"

inductive zt_run :: "bool \<Rightarrow> zt_sys \<Rightarrow> zt_event list \<Rightarrow> zt_sys \<Rightarrow> bool" for atomic s where
  zt_none: "zt_run atomic s [] s"
| zt_more: "zt_run atomic s (es @ [ev]) s'" if "zt_run atomic s es s1" "zt_step atomic ev s1 = Some s'"

fun zt_exec :: "bool \<Rightarrow> zt_event list \<Rightarrow> zt_sys \<Rightarrow> zt_sys option" where
  "zt_exec atomic [] s = Some s"
| "zt_exec atomic (ev # es) s =
     (case zt_step atomic ev s of None \<Rightarrow> None | Some s' \<Rightarrow> zt_exec atomic es s')"

lemma zt_exec_extends:
  "zt_exec atomic es s = Some s' \<Longrightarrow> zt_run atomic s0 es0 s \<Longrightarrow> zt_run atomic s0 (es0 @ es) s'"
proof (induction es arbitrary: s es0)
  case Nil
  then show ?case by simp
next
  case (Cons ev es)
  then obtain s1 where s1: "zt_step atomic ev s = Some s1" "zt_exec atomic es s1 = Some s'"
    by (auto split: option.split_asm)
  from Cons.IH [OF s1(2) zt_more [OF Cons.prems(2) s1(1)]] show ?case by simp
qed

lemma zt_exec_run: "zt_exec atomic es s = Some s' \<Longrightarrow> zt_run atomic s es s'"
  using zt_exec_extends [OF _ zt_none, of atomic es s s'] by simp

subsection \<open>The books\<close>

text \<open>The updates that have been begun, and the ones that have not reached the variable yet.\<close>

fun begun :: "zt_event \<Rightarrow> size_t" where
  "begun (Z_call t u) = stat_delta u"
| "begun _ = 0"

fun pend :: "zt_pc \<Rightarrow> size_t" where
  "pend (Z_test d) = d"
| "pend (Z_lock d) = d"
| "pend (Z_load l d) = d"
| "pend (Z_store l d v) = d"
| "pend _ = 0"

fun zt_thread :: "zt_event \<Rightarrow> nat" where
  "zt_thread (Z_call t u) = t"
| "zt_thread (Z_step t) = t"
| "zt_thread (Z_enable t) = t"

text \<open>
  With the flag set: who is between lock and unlock holds the mutex, what has been read is
  still the value of the variable, and nobody updates without the mutex.
\<close>

fun holds :: "zt_pc \<Rightarrow> bool" where
  "holds (Z_load l d) \<longleftrightarrow> True"
| "holds (Z_store l d v) \<longleftrightarrow> True"
| "holds Z_unlock \<longleftrightarrow> True"
| "holds _ \<longleftrightarrow> False"

fun fresh_read :: "size_t \<Rightarrow> zt_pc \<Rightarrow> bool" where
  "fresh_read u (Z_load l d) \<longleftrightarrow> l"
| "fresh_read u (Z_store l d v) \<longleftrightarrow> l \<and> v = u"
| "fresh_read u _ \<longleftrightarrow> True"

fun plain :: "zt_pc \<Rightarrow> bool" where
  "plain Z_idle \<longleftrightarrow> True"
| "plain (Z_test d) \<longleftrightarrow> True"
| "plain _ \<longleftrightarrow> False"

definition guarded :: "bool \<Rightarrow> zt_sys \<Rightarrow> bool" where
  "guarded atomic s \<longleftrightarrow> zt_safe s \<and> (\<forall>t. holds (zt_pc s t) \<longleftrightarrow> zt_mutex s = Some t)
     \<and> (\<forall>t. fresh_read (zt_used s) (zt_pc s t)) \<and> (atomic \<longrightarrow> (\<forall>t. plain (zt_pc s t)))"

lemma fresh_read_other: "\<not> holds p \<Longrightarrow> fresh_read u p"
  by (cases p) simp_all

lemma plain_not_holds: "plain p \<Longrightarrow> \<not> holds p"
  by (cases p) simp_all

lemma guarded_gotoI:
  assumes "zt_safe s'" and "zt_pc s' = (zt_pc s)(t := p)" and "holds p \<longleftrightarrow> zt_mutex s' = Some t"
    and "fresh_read (zt_used s') p" and "atomic \<Longrightarrow> plain p \<and> (\<forall>t. plain (zt_pc s t))"
    and "\<And>t'. t' \<noteq> t \<Longrightarrow> holds (zt_pc s t') \<longleftrightarrow> zt_mutex s' = Some t'"
    and "\<And>t'. t' \<noteq> t \<Longrightarrow> fresh_read (zt_used s') (zt_pc s t')"
  shows "guarded atomic s'"
  using assms by (simp add: guarded_def)

lemma guarded_next:
  assumes run: "zt_next atomic t (zt_pc s t) s = Some s'" and "guarded atomic s"
  shows "guarded atomic s'"
proof -
  have safe: "zt_safe s" and held: "holds (zt_pc s t) \<longleftrightarrow> zt_mutex s = Some t"
    and fr: "fresh_read (zt_used s) (zt_pc s t)" and pl: "atomic \<Longrightarrow> plain (zt_pc s t)" for t
    using assms(2) by (simp_all add: guarded_def)
  have others: "fresh_read u (zt_pc s t)" if "zt_mutex s \<noteq> Some t" for u t
    using that held [of t] fresh_read_other by simp
  show ?thesis
  proof (cases "zt_pc s t")
    case Z_idle
    with run show ?thesis by simp
  next
    case (Z_test d)
    with held [of t] have free: "zt_mutex s \<noteq> Some t" by simp
    show ?thesis
    proof (cases atomic)
      case True
      then have none: "zt_mutex s \<noteq> Some t'" for t' using pl held plain_not_holds by blast
      from run Z_test safe True have "s' = goto t Z_idle (s\<lparr>zt_used := zt_used s + d\<rparr>)" by simp
      then show ?thesis
        by (intro guarded_gotoI [of _ s t Z_idle])
          (use safe held pl none others in \<open>simp_all add: goto_def\<close>)
    next
      case False
      with run Z_test safe have "s' = goto t (Z_lock d) s" by simp
      then show ?thesis
        by (intro guarded_gotoI [of _ s t "Z_lock d"])
          (use safe held fr free False in \<open>simp_all add: goto_def\<close>)
    qed
  next
    case (Z_lock d)
    with run have "zt_mutex s = None" "s' = goto t (Z_load True d) (s\<lparr>zt_mutex := Some t\<rparr>)"
      by (auto split: if_split_asm)
    then show ?thesis
      by (intro guarded_gotoI [of _ s t "Z_load True d"])
        (use safe held fr pl [of t] Z_lock in \<open>simp_all add: goto_def\<close>)
  next
    case (Z_load l d)
    with run have "s' = goto t (Z_store l d (zt_used s)) s" by simp
    then show ?thesis
      by (intro guarded_gotoI [of _ s t "Z_store l d (zt_used s)"])
        (use safe held fr held [of t] fr [of t] pl [of t] Z_load in \<open>simp_all add: goto_def\<close>)
  next
    case (Z_store l d v)
    with run fr [of t] have "s' = goto t Z_unlock (s\<lparr>zt_used := v + d\<rparr>)" by simp
    then show ?thesis
      by (intro guarded_gotoI [of _ s t Z_unlock])
        (use safe held held [of t] others pl [of t] Z_store in \<open>simp_all add: goto_def\<close>)
  next
    case Z_unlock
    with run have "s' = goto t Z_idle (s\<lparr>zt_mutex := None\<rparr>)" by simp
    then show ?thesis
      by (intro guarded_gotoI [of _ s t Z_idle])
        (use safe held held [of t] fr pl [of t] Z_unlock in \<open>simp_all add: goto_def\<close>)
  qed
qed

lemma guarded_step:
  assumes "zt_step atomic ev s = Some s'" and "guarded atomic s"
  shows "guarded atomic s'"
proof (cases ev)
  case (Z_enable t)
  with assms show ?thesis by (auto simp: guarded_def split: if_split_asm)
next
  case (Z_call t u)
  with assms(1) have "zt_pc s t = Z_idle" "s' = goto t (Z_test (stat_delta u)) s" by (auto split: if_split_asm)
  moreover from this(1) assms(2) have "zt_mutex s \<noteq> Some t" by (metis guarded_def holds.simps(4))
  ultimately show ?thesis
    by (intro guarded_gotoI [of _ s t "Z_test (stat_delta u)"])
      (use assms(2) in \<open>simp_all add: guarded_def goto_def\<close>)
next
  case (Z_step t)
  with assms guarded_next show ?thesis by simp
qed

text \<open>What is in the variable and what is still to reach it add up, for any threads \<open>T\<close>.\<close>

definition in_books :: "nat set \<Rightarrow> zt_sys \<Rightarrow> size_t" where
  "in_books T s = zt_used s + (\<Sum>t\<in>T. pend (zt_pc s t))"

lemma in_books_goto:
  assumes "finite T" and "t \<in> T" and "zt_pc s' = (zt_pc s)(t := p)"
    and "zt_used s' + pend p = zt_used s + pend (zt_pc s t) + d"
  shows "in_books T s' = in_books T s + d"
proof -
  have "(\<Sum>u\<in>T - {t}. pend (zt_pc s' u)) = (\<Sum>u\<in>T - {t}. pend (zt_pc s u))"
    by (rule sum.cong) (simp_all add: assms(3))
  with assms sum.remove [OF assms(1,2), of "\<lambda>u. pend (zt_pc s u)"]
    sum.remove [OF assms(1,2), of "\<lambda>u. pend (zt_pc s' u)"]
  show ?thesis by (simp add: in_books_def algebra_simps)
qed

lemma in_books_step:
  assumes "zt_step atomic ev s = Some s'" and "guarded atomic s" and "finite T" and "zt_thread ev \<in> T"
  shows "in_books T s' = in_books T s + begun ev"
proof (cases ev)
  case (Z_call t u)
  with assms show ?thesis
    by (intro in_books_goto [of T t s' s "Z_test (stat_delta u)"])
      (auto simp: goto_def split: if_split_asm)
next
  case (Z_enable t)
  with assms(1) show ?thesis by (auto simp: in_books_def split: if_split_asm)
next
  case (Z_step t)
  then have run: "zt_next atomic t (zt_pc s t) s = Some s'" using assms(1) by simp
  have fr: "fresh_read (zt_used s) (zt_pc s t)" and safe: "zt_safe s" using assms(2) by (simp_all add: guarded_def)
  have "\<exists>p. zt_pc s' = (zt_pc s)(t := p) \<and> zt_used s' + pend p = zt_used s + pend (zt_pc s t)"
    using run fr safe by (cases "zt_pc s t") (auto simp: goto_def split: if_split_asm)
  with Z_step assms(3,4) in_books_goto [of T t s' s _ 0] show ?thesis by auto
qed

lemma zt_run_books:
  assumes "zt_run atomic s0 es s" and "guarded atomic s0" and "finite T" and "zt_thread ` set es \<subseteq> T"
  shows "guarded atomic s \<and> in_books T s = in_books T s0 + sum_list (map begun es)"
  using assms(1,4)
proof (induction rule: zt_run.induct)
  case zt_none
  with assms(2) show ?case by simp
next
  case (zt_more es s1 ev s')
  then show ?case using guarded_step in_books_step assms(3) by (auto simp: algebra_simps)
qed

subsection \<open>The sequential updates\<close>

fun apply_stat :: "zstat \<Rightarrow> zstate \<Rightarrow> zstate" where
  "apply_stat (Stat_alloc n) z = update_zmalloc_stat_alloc n z"
| "apply_stat (Stat_free n) z = update_zmalloc_stat_free n z"

fun updates :: "zt_event list \<Rightarrow> zstat list" where
  "updates [] = []"
| "updates (Z_call t u # es) = u # updates es"
| "updates (ev # es) = updates es"

lemma used_fold: "z_used (fold apply_stat us z) = z_used z + sum_list (map stat_delta us)"
proof (induction us arbitrary: z)
  case (Cons u us)
  then show ?case by (cases u) (simp_all add: algebra_simps)
qed simp

lemma begun_updates: "sum_list (map begun es) = sum_list (map stat_delta (updates es))"
  by (induction es rule: updates.induct) simp_all

lemma used_fold_mset: "mset us = mset vs \<Longrightarrow> z_used (fold apply_stat us z) = z_used (fold apply_stat vs z)"
  unfolding used_fold by (metis mset_map sum_mset_sum_list)

definition at_rest :: "zt_sys \<Rightarrow> bool" where
  "at_rest s \<longleftrightarrow> (\<forall>t. zt_pc s t = Z_idle) \<and> zt_mutex s = None"

lemma at_rest_guarded: "at_rest s \<Longrightarrow> zt_safe s \<Longrightarrow> guarded atomic s"
  by (simp add: at_rest_def guarded_def)

lemma at_rest_books: "at_rest s \<Longrightarrow> in_books T s = zt_used s"
  by (simp add: at_rest_def in_books_def)

subsection \<open>Properties\<close>

text \<open>C25: Once thread safety has been enabled, and no update was under way then, the count of used memory
  is exact with any number of threads, with the mutex as well as with atomic operations: after any
  interleaving of updates, when all are complete, it is what the same updates give one after
  the other, in any order.\<close>

theorem used_memory_threads:
  assumes "zt_safe s0" and "at_rest s0" and "zt_run atomic s0 es s" and "\<forall>t. zt_pc s t = Z_idle"
    and "mset us = mset (updates es)" and "z_used z = zt_used s0"
  shows "zt_used s = z_used (fold apply_stat us z) \<and> at_rest s"
proof -
  let ?T = "zt_thread ` set es"
  from zt_run_books [OF assms(3) at_rest_guarded [OF assms(2,1)], of ?T]
  have g: "guarded atomic s" and b: "in_books ?T s = in_books ?T s0 + sum_list (map begun es)" by simp_all
  have "zt_mutex s \<noteq> Some t" for t using g assms(4) by (simp add: guarded_def)
  then have rest: "at_rest s" using assms(4) by (cases "zt_mutex s") (auto simp: at_rest_def)
  have "z_used (fold apply_stat us z) = z_used (fold apply_stat (updates es) z)"
    by (rule used_fold_mset [OF assms(5)])
  with rest b assms(2,6) show ?thesis by (simp add: at_rest_books used_fold begun_updates)
qed

definition zt_quiet :: "bool \<Rightarrow> zt_sys" where
  "zt_quiet safe = \<lparr>zt_used = 100, zt_safe = safe, zt_mutex = None, zt_pc = (\<lambda>_. Z_idle)\<rparr>"

lemma zt_quiet_rest: "at_rest (zt_quiet b)"
  by (simp add: at_rest_def zt_quiet_def)

theorem used_memory_threads_witness:
  "\<exists>s. zt_run False (zt_quiet True) [Z_call 1 (Stat_alloc 13), Z_call 2 (Stat_free 40), Z_step 1, Z_step 2,
      Z_step 2, Z_step 2, Z_step 2, Z_step 2, Z_step 1, Z_step 1, Z_step 1, Z_step 1] s
    \<and> zt_used s = z_used (fold apply_stat [Stat_free 40, Stat_alloc 13] (z_start\<lparr>z_used := 100\<rparr>))"
proof -
  let ?es = "[Z_call 1 (Stat_alloc 13), Z_call 2 (Stat_free 40), Z_step 1, Z_step 2,
      Z_step 2, Z_step 2, Z_step 2, Z_step 2, Z_step 1, Z_step 1, Z_step 1, Z_step 1]"
  obtain s where s: "zt_exec False ?es (zt_quiet True) = Some s" "\<forall>t. zt_pc s t = Z_idle"
    by (simp add: zt_quiet_def goto_def)
  have "zt_safe (zt_quiet True)" "zt_used (zt_quiet True) = 100" by (simp_all add: zt_quiet_def)
  with used_memory_threads [OF _ zt_quiet_rest zt_exec_run [OF s(1)] s(2), of "[Stat_free 40, Stat_alloc 13]"
      "z_start\<lparr>z_used := 100\<rparr>"] zt_exec_run [OF s(1)]
  show ?thesis by auto
qed

text \<open>Without it updates are lost: of two threads that update at the same time one has no effect.  And
  it does not help to enable thread safety while another thread is in an update: the mutex then
  guards the second update only, and the first overwrites it.\<close>

theorem used_memory_lost_update:
  assumes "\<not> zt_safe s0" and "at_rest s0" and "t1 \<noteq> t2"
  shows "(\<exists>s. zt_run atomic s0 [Z_call t1 u1, Z_call t2 u2, Z_step t1, Z_step t2, Z_step t1, Z_step t2,
        Z_step t1, Z_step t2] s \<and> at_rest s \<and> zt_used s = zt_used s0 + stat_delta u2)
    \<and> (\<exists>s. zt_run False s0 [Z_call t1 u1, Z_step t1, Z_step t1, Z_enable t2, Z_call t2 u2, Z_step t2, Z_step t2,
        Z_step t2, Z_step t2, Z_step t2, Z_step t1] s
      \<and> at_rest s \<and> zt_safe s \<and> zt_used s = zt_used s0 + stat_delta u1)"
proof (intro conjI)
  have idle: "zt_pc s0 t = Z_idle" "zt_mutex s0 = None" for t using assms(2) by (simp_all add: at_rest_def)
  have "\<exists>s. zt_exec atomic [Z_call t1 u1, Z_call t2 u2, Z_step t1, Z_step t2, Z_step t1, Z_step t2,
        Z_step t1, Z_step t2] s0 = Some s \<and> at_rest s \<and> zt_used s = zt_used s0 + stat_delta u2"
    using assms(1,3) idle by (simp add: goto_def at_rest_def)
  then show "\<exists>s. zt_run atomic s0 [Z_call t1 u1, Z_call t2 u2, Z_step t1, Z_step t2, Z_step t1, Z_step t2,
        Z_step t1, Z_step t2] s \<and> at_rest s \<and> zt_used s = zt_used s0 + stat_delta u2"
    using zt_exec_run by blast
  have "\<exists>s. zt_exec False [Z_call t1 u1, Z_step t1, Z_step t1, Z_enable t2, Z_call t2 u2, Z_step t2, Z_step t2,
        Z_step t2, Z_step t2, Z_step t2, Z_step t1] s0 = Some s
      \<and> at_rest s \<and> zt_safe s \<and> zt_used s = zt_used s0 + stat_delta u1"
    using assms(1,3) idle by (simp add: goto_def at_rest_def)
  then show "\<exists>s. zt_run False s0 [Z_call t1 u1, Z_step t1, Z_step t1, Z_enable t2, Z_call t2 u2, Z_step t2, Z_step t2,
        Z_step t2, Z_step t2, Z_step t2, Z_step t1] s
      \<and> at_rest s \<and> zt_safe s \<and> zt_used s = zt_used s0 + stat_delta u1"
    using zt_exec_run by blast
qed

theorem used_memory_lost_update_witness:
  "\<exists>s. zt_run True (zt_quiet False) [Z_call 1 (Stat_alloc 8), Z_call 2 (Stat_alloc 24), Z_step 1, Z_step 2, Z_step 1,
      Z_step 2, Z_step 1, Z_step 2] s \<and> at_rest s \<and> zt_used s = 124"
proof -
  have "\<not> zt_safe (zt_quiet False)" "zt_used (zt_quiet False) = 100" by (simp_all add: zt_quiet_def)
  moreover have "stat_delta (Stat_alloc 24) = 24" by (simp add: pad_long_def)
  ultimately show ?thesis
    using used_memory_lost_update [of "zt_quiet False" 1 2 True "Stat_alloc 8" "Stat_alloc 24"] zt_quiet_rest
    by auto
qed

end
