(* ===== verification/Zmalloc_Stats.thy ===== *)
theory Zmalloc_Stats
  imports Conf_Load
begin

section \<open>Memory statistics from /proc (src/zmalloc.c)\<close>

text \<open>
  The variants of \<open>zmalloc_get_rss\<close> and \<open>zmalloc_get_private_dirty\<close> for a system with \<open>/proc\<close>.
  What the file holds is an argument.  A buffer is the list of its characters from a pointer
  to its end; \<open>strchr\<close> stops at the character or at NUL, and running past the end is a fault.
\<close>

fun strchr :: "char \<Rightarrow> string \<Rightarrow> fault + string option" where
  "strchr c [] = Inl Out_of_bounds"
| "strchr c (x # xs) =
     (if x = c then Inr (Some (x # xs)) else if x = CHR 0x00 then Inr None else strchr c xs)"

fun skip_fields :: "nat \<Rightarrow> string \<Rightarrow> fault + string option" where
  "skip_fields 0 p = Inr (Some p)"
| "skip_fields (Suc count) p =
     bindR (strchr (CHR '' '') p) (\<lambda>q. case q of
         None \<Rightarrow> Inr None
       | Some r \<Rightarrow> skip_fields count (tl r))"

text \<open>
  \<open>file\<close> is what \<open>read\<close> stores, \<open>None\<close> when the file cannot be opened; \<open>rest\<close> is what the
  remaining bytes of the 4096 of \<open>buf\<close> happen to hold.
\<close>

definition zmalloc_get_rss_proc :: "string option \<Rightarrow> string \<Rightarrow> int \<Rightarrow> fault + size_t" where
  "zmalloc_get_rss_proc file rest page =
     (case file of
        None \<Rightarrow> Inr 0
      | Some data \<Rightarrow>
          if data = [] then Inr 0
          else
            bindR (skip_fields 23 (take 4096 (data @ rest))) (\<lambda>p. case p of
              None \<Rightarrow> Inr 0
            | Some p \<Rightarrow>
                bindR (strchr (CHR '' '') p) (\<lambda>x. case x of
                  None \<Rightarrow> Inr 0
                | Some x \<Rightarrow>
                    let field = take (length p - length x) p
                    in Inr (word_of_int (strtol10 field) * word_of_int page))))"

text \<open>\<open>lines\<close> is what the calls of \<open>fgets\<close> return.\<close>

definition PRIVATE_DIRTY :: string where "PRIVATE_DIRTY = ''Private_Dirty:''"

fun private_dirty_loop :: "string list \<Rightarrow> size_t \<Rightarrow> size_t" where
  "private_dirty_loop [] pd = pd"
| "private_dirty_loop (line # lines) pd =
     (if take 14 line = PRIVATE_DIRTY then
        (if CHR ''k'' \<in> set line
         then private_dirty_loop lines
                (pd + word_of_int (strtol10 (drop 14 (takeWhile (\<lambda>c. c \<noteq> CHR ''k'') line)) * 1024))
         else private_dirty_loop lines pd)
      else private_dirty_loop lines pd)"

definition zmalloc_get_private_dirty_smaps :: "string list option \<Rightarrow> size_t" where
  "zmalloc_get_private_dirty_smaps file =
     (case file of None \<Rightarrow> 0 | Some lines \<Rightarrow> private_dirty_loop lines 0)"

text \<open>The variant of macOS: \<open>for_pid\<close> is the answer of \<open>task_for_pid\<close>, \<open>resident\<close> the size that
  \<open>task_info\<close> stores.\<close>

definition KERN_SUCCESS :: int where "KERN_SUCCESS = 0"

definition zmalloc_get_rss_taskinfo :: "int \<Rightarrow> size_t \<Rightarrow> size_t" where
  "zmalloc_get_rss_taskinfo for_pid resident = (if for_pid \<noteq> KERN_SUCCESS then 0 else resident)"

text \<open>The ratio is a \<open>float\<close>; the conversion to this type and its division are arguments, as is
  which variant of \<open>zmalloc_get_rss\<close> is called.\<close>

definition zmalloc_get_fragmentation_ratio ::
  "(size_t \<Rightarrow> 'f) \<Rightarrow> ('f \<Rightarrow> 'f \<Rightarrow> 'f) \<Rightarrow> (zstate \<Rightarrow> size_t) \<Rightarrow> zstate \<Rightarrow> 'f" where
  "zmalloc_get_fragmentation_ratio to_float float_div get_rss z =
     float_div (to_float (get_rss z)) (to_float (zmalloc_used_memory z))"

text \<open>Without \<open>/proc\<close>.\<close>

definition zmalloc_get_private_dirty :: size_t where "zmalloc_get_private_dirty = 0"

subsection \<open>Which field is read\<close>

definition plain_field :: "string \<Rightarrow> bool" where
  "plain_field f \<longleftrightarrow> CHR '' '' \<notin> set f \<and> CHR 0x00 \<notin> set f"

lemma strchr_field:
  "plain_field f \<Longrightarrow> strchr (CHR '' '') (f @ CHR '' '' # r) = Inr (Some (CHR '' '' # r))"
  by (induction f) (auto simp: plain_field_def)

fun spaced :: "string list \<Rightarrow> string" where
  "spaced [] = []"
| "spaced (f # fs) = f @ CHR '' '' # spaced fs"

lemma skip_fields_spaced:
  "\<forall>f\<in>set fs. plain_field f \<Longrightarrow> skip_fields (length fs) (spaced fs @ r) = Inr (Some r)"
  by (induction fs) (simp_all add: strchr_field)

text \<open>The field after the first 23, however many of them the name of the process makes up.\<close>

lemma get_rss_field:
  assumes "\<forall>f\<in>set (fs @ [rss]). plain_field f" and "length fs = 23"
    and "data = spaced (fs @ [rss]) @ after" and "length data + length rest = 4096"
  shows "zmalloc_get_rss_proc (Some data) rest page = Inr (word_of_int (strtol10 rss) * word_of_int page)"
proof -
  have "spaced (fs @ [rss]) = spaced fs @ rss @ [CHR '' '']" by (induction fs) simp_all
  then have data: "data @ rest = spaced fs @ rss @ CHR '' '' # after @ rest" using assms(3) by simp
  then have all: "take 4096 (data @ rest) = spaced fs @ rss @ CHR '' '' # after @ rest"
    using assms(4) by (simp del: take_append add: take_all)
  have skip: "skip_fields 23 (spaced fs @ r) = Inr (Some r)" for r
    using skip_fields_spaced [of fs r] assms(1,2) by simp
  have "data \<noteq> []" using assms(3) by (cases fs) simp_all
  moreover have "take (length rss) (rss @ r) = rss" for r by simp
  ultimately show ?thesis
    using assms(1) by (simp add: zmalloc_get_rss_proc_def all skip strchr_field Let_def del: take_append)
qed

lemma private_dirty_sum:
  "private_dirty_loop lines pd = pd + sum_list (map (\<lambda>line.
     if take 14 line = PRIVATE_DIRTY \<and> CHR ''k'' \<in> set line
     then word_of_int (strtol10 (drop 14 (takeWhile (\<lambda>c. c \<noteq> CHR ''k'') line)) * 1024) else 0) lines)"
  by (induction lines pd rule: private_dirty_loop.induct) (simp_all add: add.assoc)

text \<open>Where the resident size is an estimate there appears to be no fragmentation, as the comment
  says; but with nothing allocated it is zero divided by zero.\<close>

lemma no_fragmentation:
  assumes "\<And>x. x \<noteq> nought \<Longrightarrow> float_div x x = one_f" and "\<And>n. to_float n = nought \<longleftrightarrow> n = 0"
  shows "z_used z \<noteq> 0 \<Longrightarrow> zmalloc_get_fragmentation_ratio to_float float_div zmalloc_get_rss z = one_f"
    and "z_used z = 0 \<Longrightarrow> zmalloc_get_fragmentation_ratio to_float float_div zmalloc_get_rss z = float_div nought nought"
  using assms(1) assms(2) [of "z_used z"] by (auto simp: zmalloc_get_fragmentation_ratio_def zmalloc_get_rss_def zmalloc_used_memory_def)

text \<open>A process name with a space in it shifts the fields: the size is taken from the one before.\<close>

lemma get_rss_shifted:
  assumes "\<forall>f\<in>set (fs @ [vsize, rss]). plain_field f" and "length fs = 20"
    and "data = ''1 (my'' @ CHR '' '' # ''proxy)'' @ CHR '' '' # spaced (fs @ [vsize, rss]) @ after"
    and "length data + length rest = 4096"
  shows "zmalloc_get_rss_proc (Some data) rest page = Inr (word_of_int (strtol10 vsize) * word_of_int page)"
proof (rule get_rss_field [where fs = "[''1'', ''(my'', ''proxy)''] @ fs" and after = "spaced [rss] @ after"])
  show "\<forall>f\<in>set (([''1'', ''(my'', ''proxy)''] @ fs) @ [vsize]). plain_field f"
    using assms(1) by (auto simp: plain_field_def)
  have "spaced (xs @ ys) = spaced xs @ spaced ys" for xs ys by (induction xs) simp_all
  then show "data = spaced (([''1'', ''(my'', ''proxy)''] @ fs) @ [vsize]) @ spaced [rss] @ after"
    using assms(3) by simp
qed (use assms in simp_all)

end
