(* ===== verification/Zmalloc_Usable.thy ===== *)
theory Zmalloc_Usable
  imports Zmalloc
begin

section \<open>The counting allocator on tcmalloc, jemalloc or macOS (src/zmalloc.c)\<close>

text \<open>
  With \<open>HAVE_MALLOC_SIZE\<close> the platform tells how large a block is: \<open>PREFIX_SIZE\<close> is 0, no header
  is written, and what is counted is the size that the block really has.  The state and the
  updates of the count are those of \<open>Zmalloc\<close>; here \<open>zb_cap\<close> is the size that the platform
  reports, which it chooses with each answer, and \<open>zb_size\<close> the size that was asked for, which
  the code does not keep.  \<open>null_size\<close> is what the platform reports for NULL.  There is no header to
  write through NULL, so a handler for the lack of memory that returns makes the functions
  return NULL.
\<close>

definition PREFIX_SIZE_usable :: size_t where "PREFIX_SIZE_usable = 0"

subsection \<open>The platform's allocator\<close>

text \<open>The answer of \<open>malloc\<close> is the size of the block it has found.  \<open>realloc\<close> may find none and
  leave the old one, give the old one back (for the size 0), keep its place, or move it.\<close>

datatype usable_ans = U_fails | U_frees | U_in_place size_t | U_moves size_t

definition c_malloc :: "size_t \<Rightarrow> size_t option \<Rightarrow> zstate \<Rightarrow> nat option \<times> zstate" where
  "c_malloc sz ans z =
     (case ans of
        None \<Rightarrow> (None, z)
      | Some cap \<Rightarrow>
          (Some (z_next z),
           z\<lparr>z_blocks := (z_blocks z)(z_next z \<mapsto> \<lparr>zb_cap = cap, zb_size = sz\<rparr>),
             z_next := z_next z + 1\<rparr>))"

definition c_free :: "nat \<Rightarrow> zstate \<Rightarrow> zstate" where
  "c_free p z = z\<lparr>z_blocks := (z_blocks z)(p := None)\<rparr>"

definition c_realloc :: "nat \<Rightarrow> size_t \<Rightarrow> usable_ans \<Rightarrow> zstate \<Rightarrow> nat option \<times> zstate" where
  "c_realloc p sz ans z =
     (case ans of
        U_fails \<Rightarrow> (None, z)
      | U_frees \<Rightarrow> (None, c_free p z)
      | U_in_place cap \<Rightarrow>
          (Some p, z\<lparr>z_blocks := (z_blocks z)(p \<mapsto> \<lparr>zb_cap = cap, zb_size = sz\<rparr>)\<rparr>)
      | U_moves cap \<Rightarrow> c_malloc sz (Some cap) (c_free p z))"

definition zmalloc_size_usable :: "size_t \<Rightarrow> nat option \<Rightarrow> zstate \<Rightarrow> fault + size_t" where
  "zmalloc_size_usable null_size ptr z =
     (case ptr of
        None \<Rightarrow> Inr null_size
      | Some p \<Rightarrow>
          (case z_blocks z p of None \<Rightarrow> Inl Use_after_free | Some b \<Rightarrow> Inr (zb_cap b)))"

subsection \<open>The operations\<close>

text \<open>\<open>if (!ptr) zmalloc_oom_handler(size)\<close>.\<close>

definition check_memory :: "nat option \<Rightarrow> zstate \<Rightarrow> fault + unit" where
  "check_memory ptr z =
     (case ptr of
        Some _ \<Rightarrow> Inr ()
      | None \<Rightarrow> (case z_oom z of Some f \<Rightarrow> Inl f | None \<Rightarrow> Inr ()))"

definition zmalloc_usable :: "size_t \<Rightarrow> size_t \<Rightarrow> size_t option \<Rightarrow> zstate \<Rightarrow> fault + (nat option \<times> zstate)" where
  "zmalloc_usable null_size sz ans z =
     (let (ptr, z1) = c_malloc (sz + PREFIX_SIZE_usable) ans z in
      bindR (check_memory ptr z1) (\<lambda>_.
      bindR (zmalloc_size_usable null_size ptr z1) (\<lambda>n.
        Inr (ptr, update_zmalloc_stat_alloc n z1))))"

definition zcalloc_usable :: "size_t \<Rightarrow> size_t \<Rightarrow> size_t option \<Rightarrow> zstate \<Rightarrow> fault + (nat option \<times> zstate)" where
  "zcalloc_usable null_size sz ans z =
     (let (ptr, z1) = c_malloc (sz + PREFIX_SIZE_usable) ans z in
      bindR (check_memory ptr z1) (\<lambda>_.
      bindR (zmalloc_size_usable null_size ptr z1) (\<lambda>n.
        Inr (ptr, update_zmalloc_stat_alloc n z1))))"

definition granted :: "usable_ans \<Rightarrow> size_t option" where
  "granted ans = (case ans of U_in_place cap \<Rightarrow> Some cap | U_moves cap \<Rightarrow> Some cap | _ \<Rightarrow> None)"

definition zrealloc_usable ::
  "size_t \<Rightarrow> nat option \<Rightarrow> size_t \<Rightarrow> usable_ans \<Rightarrow> zstate \<Rightarrow> fault + (nat option \<times> zstate)" where
  "zrealloc_usable null_size ptr sz ans z =
     (case ptr of
        None \<Rightarrow> zmalloc_usable null_size sz (granted ans) z
      | Some p \<Rightarrow>
          bindR (zmalloc_size_usable null_size ptr z) (\<lambda>oldsize.
            let (newptr, z1) = c_realloc p sz ans z in
            bindR (check_memory newptr z1) (\<lambda>_.
              let z2 = update_zmalloc_stat_free oldsize z1 in
              bindR (zmalloc_size_usable null_size newptr z2) (\<lambda>n.
                Inr (newptr, update_zmalloc_stat_alloc n z2)))))"

definition zfree_usable :: "size_t \<Rightarrow> nat option \<Rightarrow> zstate \<Rightarrow> fault + zstate" where
  "zfree_usable null_size ptr z =
     (case ptr of
        None \<Rightarrow> Inr z
      | Some p \<Rightarrow>
          bindR (zmalloc_size_usable null_size ptr z) (\<lambda>n.
            Inr (c_free p (update_zmalloc_stat_free n z))))"

text \<open>\<open>memcpy\<close> into NULL when the handler returns.\<close>

definition zstrdup_usable ::
  "size_t \<Rightarrow> byte list \<Rightarrow> size_t option \<Rightarrow> zstate \<Rightarrow> fault + (nat \<times> byte list \<times> zstate)" where
  "zstrdup_usable null_size s ans z =
     (let l = word_of_nat (length s) + 1 in
      bindR (zmalloc_usable null_size l ans z) (\<lambda>(p, z').
        case p of None \<Rightarrow> Inl Null_deref | Some p \<Rightarrow> Inr (p, take (unat l) (s @ [0]), z')))"

text \<open>\<open>zlibc_free\<close> reaches the C library's \<open>free\<close>; it does not touch the count.\<close>

definition zlibc_free :: "nat option \<Rightarrow> zstate \<Rightarrow> zstate" where
  "zlibc_free ptr z = (case ptr of None \<Rightarrow> z | Some p \<Rightarrow> c_free p z)"

subsection \<open>The accounting\<close>

definition usable_weight :: "zblock \<Rightarrow> size_t" where
  "usable_weight b = pad_long (zb_cap b)"

definition u_ok :: "zstate \<Rightarrow> bool" where
  "u_ok z \<longleftrightarrow> finite (dom (z_blocks z)) \<and> (\<forall>p\<ge>z_next z. z_blocks z p = None)
     \<and> z_used z = heap_sum usable_weight (z_blocks z)"

lemma pad_long_0 [simp]: "pad_long 0 = 0"
  by (simp add: pad_long_def)

lemma u_ok_start: "u_ok z_start"
  by (simp add: u_ok_def z_start_def)

lemma u_ok_new:
  assumes "u_ok z"
  shows "u_ok (update_zmalloc_stat_alloc (zb_cap b)
    (z\<lparr>z_blocks := (z_blocks z)(z_next z \<mapsto> b), z_next := z_next z + 1\<rparr>))"
  using assms heap_sum_insert [of "z_blocks z" "z_next z" usable_weight b]
  by (auto simp: u_ok_def usable_weight_def add.commute)

lemma u_ok_gone:
  assumes "u_ok z" and "z_blocks z p = Some b"
  shows "u_ok (update_zmalloc_stat_free (zb_cap b) (c_free p z))"
  using assms heap_sum_delete [of "z_blocks z" p b usable_weight]
  by (auto simp: u_ok_def usable_weight_def c_free_def)

lemma u_ok_resized:
  assumes "u_ok z" and "z_blocks z p = Some b"
  shows "u_ok (update_zmalloc_stat_alloc (zb_cap b') (update_zmalloc_stat_free (zb_cap b)
    (z\<lparr>z_blocks := (z_blocks z)(p \<mapsto> b')\<rparr>)))"
proof -
  have "p < z_next z" using assms by (metis u_ok_def not_less option.distinct(1))
  moreover have "usable_weight b + heap_sum usable_weight ((z_blocks z)(p \<mapsto> b'))
      = usable_weight b' + z_used z"
    using assms heap_sum_update [of "z_blocks z" p b usable_weight b'] by (simp add: u_ok_def)
  then have "heap_sum usable_weight ((z_blocks z)(p \<mapsto> b'))
      = z_used z - usable_weight b + usable_weight b'" by (simp add: algebra_simps)
  ultimately show ?thesis using assms by (auto simp: u_ok_def usable_weight_def)
qed

text \<open>The order of the update of the count and of the heap does not matter.\<close>

lemma stat_free_c_free:
  "c_free p (update_zmalloc_stat_free n z) = update_zmalloc_stat_free n (c_free p z)"
  by (simp add: c_free_def update_zmalloc_stat_free_def update_zmalloc_stat_sub_def)

lemma c_malloc_stat_free:
  "c_malloc sz ans (update_zmalloc_stat_free n z) = map_prod id (update_zmalloc_stat_free n) (c_malloc sz ans z)"
  by (cases ans) (simp_all add: c_malloc_def update_zmalloc_stat_free_def update_zmalloc_stat_sub_def)

lemma zmalloc_usable_ok:
  assumes "zmalloc_usable 0 sz ans z = Inr (ptr, z')" and "u_ok z"
  shows "u_ok z'"
proof (cases ans)
  case None
  with assms show ?thesis
    by (auto simp: zmalloc_usable_def c_malloc_def zmalloc_size_usable_def u_ok_def)
next
  case (Some cap)
  with assms(1) u_ok_new [OF assms(2), of "\<lparr>zb_cap = cap, zb_size = sz\<rparr>"] show ?thesis
    by (simp add: zmalloc_usable_def c_malloc_def zmalloc_size_usable_def check_memory_def PREFIX_SIZE_usable_def)
qed

lemma zcalloc_zmalloc_usable: "zcalloc_usable n sz ans z = zmalloc_usable n sz ans z"
  by (simp add: zcalloc_usable_def zmalloc_usable_def)

lemma zfree_usable_ok:
  assumes "zfree_usable null_size ptr z = Inr z'" and "u_ok z"
  shows "u_ok z'"
  using assms u_ok_gone
  by (auto simp: zfree_usable_def zmalloc_size_usable_def stat_free_c_free split: option.split_asm)

lemma zrealloc_usable_ok:
  assumes run: "zrealloc_usable 0 ptr sz ans z = Inr (q, z')" and ok: "u_ok z"
    and "ptr \<noteq> None \<longrightarrow> ans \<noteq> U_fails"
  shows "u_ok z'"
proof (cases ptr)
  case None
  with run ok show ?thesis by (simp add: zrealloc_usable_def zmalloc_usable_ok)
next
  case (Some p)
  with run obtain b where b: "z_blocks z p = Some b"
    by (auto simp: zrealloc_usable_def zmalloc_size_usable_def split: option.split_asm)
  note defs = zrealloc_usable_def zmalloc_size_usable_def c_realloc_def Let_def check_memory_def
  show ?thesis
  proof (cases ans)
    case U_fails
    with assms(3) Some show ?thesis by simp
  next
    case U_frees
    have "u_ok (update_zmalloc_stat_alloc 0 w)" if "u_ok w" for w
      using that by (simp add: u_ok_def)
    with U_frees Some run b u_ok_gone [OF ok b] show ?thesis by (auto simp: defs)
  next
    case (U_in_place cap)
    with Some run b u_ok_resized [OF ok b, of "\<lparr>zb_cap = cap, zb_size = sz\<rparr>"] show ?thesis
      by (simp add: defs)
  next
    case (U_moves cap)
    let ?z = "update_zmalloc_stat_free (zb_cap b) (c_free p z)"
    have "z' = update_zmalloc_stat_alloc cap (snd (c_malloc sz (Some cap) ?z))"
      using U_moves Some run b by (simp add: defs c_malloc_stat_free) (simp add: c_malloc_def)
    with u_ok_new [OF u_ok_gone [OF ok b], of "\<lparr>zb_cap = cap, zb_size = sz\<rparr>"] show ?thesis
      by (simp add: c_malloc_def)
  qed
qed

subsection \<open>The contract of the allocator\<close>

definition utake :: "zstate \<Rightarrow> nat \<Rightarrow> zblock \<Rightarrow> zstate \<Rightarrow> bool" where
  "utake z p b z' \<longleftrightarrow> zmalloc_usable 0 (zb_size b) (Some (zb_cap b)) z = Inr (Some p, z')"

definition ugive :: "nat \<Rightarrow> zstate \<Rightarrow> zstate option" where
  "ugive p z = (case zfree_usable 0 (Some p) z of Inl _ \<Rightarrow> None | Inr z' \<Rightarrow> Some z')"

interpretation uheap: accounted_heap utake ugive u_ok z_blocks z_used usable_weight
proof
  fix z p b z'
  assume ok: "u_ok z" and t: "utake z p b z'"
  from t have "z_blocks z' = (z_blocks z)(p \<mapsto> b)" "p = z_next z"
    by (auto simp: utake_def zmalloc_usable_def c_malloc_def zmalloc_size_usable_def check_memory_def
        PREFIX_SIZE_usable_def)
  with ok zmalloc_usable_ok [OF t [unfolded utake_def] ok]
  show "u_ok z' \<and> z_blocks z p = None \<and> z_blocks z' = (z_blocks z)(p \<mapsto> b)" by (simp add: u_ok_def [of z])
next
  fix z p b
  assume "u_ok z" and "z_blocks z p = Some b"
  with u_ok_gone [OF this] show "\<exists>z'. ugive p z = Some z' \<and> u_ok z' \<and> z_blocks z' = (z_blocks z)(p := None)"
    by (simp add: ugive_def zfree_usable_def zmalloc_size_usable_def stat_free_c_free) (simp add: c_free_def)
qed (simp add: u_ok_def)

subsection \<open>Properties\<close>

datatype uop =
    U_malloc size_t "size_t option"
  | U_calloc size_t "size_t option"
  | U_realloc "nat option" size_t usable_ans
  | U_free "nat option"
  | U_strdup "byte list" "size_t option"
  | U_thread_safe
  | U_oom_handler "fault option"

fun ustep :: "size_t \<Rightarrow> uop \<Rightarrow> zstate \<Rightarrow> fault + zstate" where
  "ustep n (U_malloc sz ans) z = bindR (zmalloc_usable n sz ans z) (\<lambda>(p, z'). Inr z')"
| "ustep n (U_calloc sz ans) z = bindR (zcalloc_usable n sz ans z) (\<lambda>(p, z'). Inr z')"
| "ustep n (U_realloc ptr sz ans) z = bindR (zrealloc_usable n ptr sz ans z) (\<lambda>(p, z'). Inr z')"
| "ustep n (U_free ptr) z = zfree_usable n ptr z"
| "ustep n (U_strdup s ans) z = bindR (zstrdup_usable n s ans z) (\<lambda>(p, bs, z'). Inr z')"
| "ustep n U_thread_safe z = Inr (zmalloc_enable_thread_safeness z)"
| "ustep n (U_oom_handler h) z = Inr (zmalloc_set_oom_handler h z)"

fun run_uops :: "size_t \<Rightarrow> uop list \<Rightarrow> zstate \<Rightarrow> fault + zstate" where
  "run_uops n [] z = Inr z"
| "run_uops n (op # ops) z = bindR (ustep n op z) (run_uops n ops)"

text \<open>A \<open>realloc\<close> that finds no memory.\<close>

fun fails_realloc :: "uop \<Rightarrow> bool" where
  "fails_realloc (U_realloc (Some p) sz U_fails) = True"
| "fails_realloc _ = False"

lemma ustep_ok:
  assumes "ustep 0 op z = Inr z'" and "u_ok z" and "\<not> fails_realloc op"
  shows "u_ok z'"
proof (cases op)
  case (U_realloc ptr sz ans)
  from assms(3) have "ptr \<noteq> None \<longrightarrow> ans \<noteq> U_fails" unfolding U_realloc by (cases ptr; cases ans) simp_all
  moreover from assms(1) U_realloc obtain q where "zrealloc_usable 0 ptr sz ans z = Inr (q, z')" by auto
  ultimately show ?thesis using assms(2) zrealloc_usable_ok by blast
next
  case (U_strdup s ans)
  with assms(1) obtain q where "zmalloc_usable 0 (word_of_nat (length s) + 1) ans z = Inr (q, z')"
    by (auto simp: zstrdup_usable_def Let_def split: option.split_asm)
  with assms(2) zmalloc_usable_ok show ?thesis by blast
next
  case (U_malloc sz ans)
  with assms(1) obtain q where "zmalloc_usable 0 sz ans z = Inr (q, z')" by auto
  with assms(2) zmalloc_usable_ok show ?thesis by blast
next
  case (U_calloc sz ans)
  with assms(1) obtain q where "zmalloc_usable 0 sz ans z = Inr (q, z')" by (auto simp: zcalloc_zmalloc_usable)
  with assms(2) zmalloc_usable_ok show ?thesis by blast
next
  case (U_free ptr)
  with assms(1,2) zfree_usable_ok show ?thesis by simp
next
  case U_thread_safe
  with assms(1,2) show ?thesis by (auto simp: zmalloc_enable_thread_safeness_def u_ok_def)
next
  case (U_oom_handler h)
  with assms(1,2) show ?thesis by (auto simp: zmalloc_set_oom_handler_def u_ok_def)
qed

lemma run_uops_ok:
  "run_uops 0 ops z = Inr z' \<Longrightarrow> u_ok z \<Longrightarrow> \<not> list_ex fails_realloc ops \<Longrightarrow> u_ok z'"
  by (induction ops arbitrary: z) (auto dest: ustep_ok)

text \<open>C34: On a platform that tells the size of a block, which for NULL is 0, the count of used memory is exact
  after any sequence of the allocator's operations, whatever sizes the platform rounds up to and
  with a handler for the lack of memory that returns or not, as long as no \<open>realloc\<close> fails: it is
  the sum of the sizes, rounded up to words, of the blocks in use, so a block that is taken and given back
  leaves it as it was.  A \<open>realloc\<close> that fails under a handler that returns takes the
  old block from the count while it stays in use.\<close>

theorem usable_memory_exact:
  assumes "null_size = 0" and "run_uops null_size ops z_start = Inr z" and "\<not> list_ex fails_realloc ops"
  shows "zmalloc_used_memory z
      = (\<Sum>p\<in>dom (z_blocks z). case zmalloc_size_usable null_size (Some p) z of Inl _ \<Rightarrow> 0 | Inr n \<Rightarrow> pad_long n)
    \<and> (\<forall>p b z1. utake z p b z1 \<longrightarrow> (\<exists>z2. zfree_usable null_size (Some p) z1 = Inr z2
          \<and> z_blocks z2 = z_blocks z \<and> zmalloc_used_memory z2 = zmalloc_used_memory z))
    \<and> (\<forall>p b sz. z_oom z = None \<and> z_blocks z p = Some b \<longrightarrow>
          (\<exists>z'. zrealloc_usable null_size (Some p) sz U_fails z = Inr (None, z')
            \<and> z_blocks z' = z_blocks z \<and> zmalloc_used_memory z' = zmalloc_used_memory z - pad_long (zb_cap b)))"
proof (intro conjI allI impI)
  have ok: "u_ok z" using run_uops_ok [OF _ u_ok_start] assms by blast
  have "(\<Sum>p\<in>dom (z_blocks z). case zmalloc_size_usable null_size (Some p) z of Inl _ \<Rightarrow> 0 | Inr n \<Rightarrow> pad_long n)
      = heap_sum usable_weight (z_blocks z)"
    unfolding heap_sum_def by (rule sum.cong) (auto simp: zmalloc_size_usable_def usable_weight_def)
  with ok show "zmalloc_used_memory z
      = (\<Sum>p\<in>dom (z_blocks z). case zmalloc_size_usable null_size (Some p) z of Inl _ \<Rightarrow> 0 | Inr n \<Rightarrow> pad_long n)"
    by (simp add: u_ok_def zmalloc_used_memory_def)
  fix p b z1
  assume "utake z p b z1"
  from uheap.acquire [OF ok this] ok have z1: "u_ok z1" "z_blocks z p = None" "z_blocks z1 = (z_blocks z)(p \<mapsto> b)"
    by simp_all
  then have "set [p] = dom (z_blocks z1) - dom (z_blocks z)" "z_blocks z \<subseteq>\<^sub>m z_blocks z1"
    by (auto simp: map_le_def)
  from uheap.give_back_all [OF z1(1) ok _ this] show "\<exists>z2. zfree_usable null_size (Some p) z1 = Inr z2
      \<and> z_blocks z2 = z_blocks z \<and> zmalloc_used_memory z2 = zmalloc_used_memory z"
    using assms(1) by (auto simp: ugive_def zmalloc_used_memory_def split: sum.split_asm option.split_asm)
next
  fix p b sz
  assume "z_oom z = None \<and> z_blocks z p = Some b"
  then show "\<exists>z'. zrealloc_usable null_size (Some p) sz U_fails z = Inr (None, z')
        \<and> z_blocks z' = z_blocks z \<and> zmalloc_used_memory z' = zmalloc_used_memory z - pad_long (zb_cap b)"
    using assms(1)
    by (simp add: zrealloc_usable_def zmalloc_size_usable_def c_realloc_def check_memory_def zmalloc_used_memory_def Let_def)
qed

text \<open>Blocks of 16 and 48 bytes, the second moved, the first given back; then a handler that returns.\<close>

theorem usable_memory_exact_witness:
  "\<exists>z z'. run_uops 0 [U_malloc 13 (Some 16), U_thread_safe, U_calloc 40 (Some 48), U_realloc (Some 1) 50 (U_moves 60),
      U_oom_handler None, U_malloc 1000 None, U_free (Some 0)] z_start = Inr z
    \<and> zmalloc_used_memory z = 64
    \<and> (\<Sum>p\<in>dom (z_blocks z). case zmalloc_size_usable 0 (Some p) z of Inl _ \<Rightarrow> 0 | Inr n \<Rightarrow> pad_long n) = 64
    \<and> zrealloc_usable 0 (Some 2) 100 U_fails z = Inr (None, z') \<and> zmalloc_used_memory z' = 0
    \<and> z_blocks z' 2 = Some \<lparr>zb_cap = 60, zb_size = 50\<rparr>"
proof -
  let ?ops = "[U_malloc 13 (Some 16), U_thread_safe, U_calloc 40 (Some 48), U_realloc (Some 1) 50 (U_moves 60),
      U_oom_handler None, U_malloc 1000 None, U_free (Some 0)]"
  have "case run_uops 0 ?ops z_start of Inl _ \<Rightarrow> False
    | Inr z \<Rightarrow> zmalloc_used_memory z = 64 \<and> z_oom z = None
        \<and> map_option (\<lambda>b. (zb_cap b, zb_size b)) (z_blocks z 2) = Some (60, 50)"
    by code_simp
  then obtain z where z: "run_uops 0 ?ops z_start = Inr z" "zmalloc_used_memory z = 64" "z_oom z = None"
    "z_blocks z 2 = Some \<lparr>zb_cap = 60, zb_size = 50\<rparr>"
    by (fastforce split: sum.splits)
  have "pad_long 60 = 64" by (simp add: pad_long_def)
  with usable_memory_exact [OF refl z(1)] z show ?thesis by fastforce
qed

end
