(* ===== verification/Align.thy ===== *)
theory Align
  imports Zmalloc
begin

section \<open>Rounding up to a power of two (src/xtp\_config.h)\<close>

text \<open>
  \<open>ngx_align\<close> on a length and \<open>ngx_align_ptr\<close> on an address, as 64-bit words.  The rounding of
  the allocator, which \<open>zmalloc\<close> writes with a test, is the same function.
\<close>

definition ngx_align :: "size_t \<Rightarrow> size_t \<Rightarrow> size_t" where
  "ngx_align d a = (d + (a - 1)) AND (NOT (a - 1))"

definition ngx_align_ptr :: "64 word \<Rightarrow> 64 word \<Rightarrow> 64 word" where
  "ngx_align_ptr p a = (p + (a - 1)) AND (NOT (a - 1))"

definition NGX_ALIGNMENT :: size_t where "NGX_ALIGNMENT = 8"

lemma unat_take_bit_mod: "unat (take_bit k (x :: size_t)) = unat x mod 2 ^ k"
  unfolding unsigned_take_bit_eq by (rule take_bit_eq_mod)

lemma and_not_mask: "(x :: size_t) AND (NOT (mask k)) = x - take_bit k x"
proof -
  have "x AND (NOT (mask k)) = push_bit k (drop_bit k x)"
    by (rule bit_word_eqI) (auto simp: bit_simps)
  with bits_ident [of k x] show ?thesis by (metis add_diff_cancel_right')
qed

lemma ngx_align_take_bit:
  "ngx_align d (2 ^ k) = (d + mask k) - take_bit k (d + mask k)"
  by (simp add: ngx_align_def and_not_mask flip: mask_eq_exp_minus_1)

text \<open>The least multiple of the alignment that is not below the length, when the sum does not
  wrap around.\<close>

lemma ngx_align_least:
  assumes "k < 64" and "unat d + 2 ^ k \<le> 2 ^ 64"
  shows "2 ^ k dvd unat (ngx_align d (2 ^ k))"
    and "unat d \<le> unat (ngx_align d (2 ^ k))" and "unat (ngx_align d (2 ^ k)) < unat d + 2 ^ k"
proof -
  let ?x = "d + mask k"
  have m: "unat (mask k :: size_t) = 2 ^ k - 1"
  proof -
    have "(2 :: nat) ^ k < 2 ^ 64" using assms(1) by (rule power_strict_increasing) simp
    then have "(2 ^ k :: nat) mod 18446744073709551616 = 2 ^ k" by simp
    then have p: "unat (word_of_nat (2 ^ k) :: size_t) = 2 ^ k" by (simp only: unat_of_nat) simp
    then have "word_of_nat (2 ^ k) \<noteq> (0 :: size_t)" by (metis power_not_zero unsigned_0 zero_neq_numeral)
    with p unat_minus_one [of "word_of_nat (2 ^ k) :: size_t"] show ?thesis
      by (simp add: mask_eq_exp_minus_1)
  qed
  have "unat d + (2 ^ k - 1) < 2 ^ 64"
    using assms(2) zero_less_power [of "2 :: nat" k] by linarith
  then have x: "unat ?x = unat d + (2 ^ k - 1)"
    using m by (simp add: unat_word_ariths)
  have t: "unat (take_bit k ?x) = unat ?x mod 2 ^ k"
    by (simp add: unat_take_bit_mod)
  then have "take_bit k ?x \<le> ?x" by (simp add: word_le_nat_alt)
  with t have a: "unat (ngx_align d (2 ^ k)) = unat ?x - unat ?x mod 2 ^ k"
    by (simp add: ngx_align_take_bit unat_sub)
  show "2 ^ k dvd unat (ngx_align d (2 ^ k))" unfolding a by (rule dvd_minus_mod)
  have "unat ?x mod 2 ^ k < 2 ^ k" by simp
  with a x show "unat d \<le> unat (ngx_align d (2 ^ k))" by linarith
  have "0 < (2 :: nat) ^ k" by simp
  with a x show "unat (ngx_align d (2 ^ k)) < unat d + 2 ^ k" by linarith
qed

text \<open>\<open>zmalloc\<close> rounds with \<open>ngx_align\<close> to \<open>NGX_ALIGNMENT\<close>, where the sum wraps around too.\<close>

lemma take_bit_3_add_7:
  "take_bit 3 (n + 7) = (if take_bit 3 n = 0 then 7 else take_bit 3 (n :: size_t) - 1)"
proof -
  have "unat (take_bit 3 n) = unat n mod 8" by (simp add: unat_take_bit_mod)
  then have "take_bit 3 n = word_of_nat (unat n mod 8)"
    by (metis of_int_of_nat_eq of_nat_unat word_of_int_uint)
  then have mem: "take_bit 3 n \<in> word_of_nat ` set [0..<8]" by simp
  have "\<forall>t\<in>word_of_nat ` set [0..<8]. take_bit 3 (t + 7) = (if t = 0 then 7 else t - 1 :: size_t)"
    by code_simp
  note bspec [OF this mem]
  moreover have "take_bit 3 (n + 7) = take_bit 3 (take_bit 3 n + 7)"
  proof (rule unsigned_word_eqI)
    have e: "8 dvd (18446744073709551616 :: nat)" by simp
    show "unat (take_bit 3 (n + 7)) = unat (take_bit 3 (take_bit 3 n + 7))"
      by (simp add: unat_take_bit_mod unat_word_ariths mod_mod_cancel [OF e] mod_add_left_eq)
  qed
  ultimately show ?thesis by simp
qed

lemma pad_long_align: "pad_long n = ngx_align n NGX_ALIGNMENT"
proof -
  have m: "(7 :: size_t) = mask 3" "(8 :: size_t) = 2 ^ 3" by (simp_all add: mask_eq_exp_minus_1)
  have "ngx_align n NGX_ALIGNMENT = (n + 7) - take_bit 3 (n + 7)"
    unfolding NGX_ALIGNMENT_def m by (rule ngx_align_take_bit)
  moreover have "n AND 7 = take_bit 3 n" unfolding m by (simp add: take_bit_eq_mask)
  ultimately show ?thesis by (simp add: pad_long_def take_bit_3_add_7)
qed

end
