(* ===== verification/Display.thy ===== *)
theory Display
  imports Prelude
begin

unbundle bit_operations_syntax

section \<open>The printing macros (src/display.h)\<close>

text \<open>
  Macros that print an expression with its text and the place it stands at.  The text \<open>#x\<close>,
  \<open>__FILE__\<close> and \<open>__LINE__\<close> of a use are arguments, and whether \<open>DEBUG_PRINT_INFO\<close> is defined,
  which turns the macros off.  The result is what is written, with the stream; \<open>None\<close> says that
  the macro is not defined, so that its use does not compile.  A \<open>char\<close> is a byte; reading past
  the end of an array is a fault.
\<close>

datatype stream = Stdout | Stderr

datatype display_fault = Past_end | Bad_format

record site =
  at_file :: string
  at_line :: nat

type_synonym prints = "(stream \<times> string) list"

subsection \<open>What printf writes\<close>

definition fmt_d :: "int \<Rightarrow> string" where
  "fmt_d x = (if x < 0 then ''-'' @ dec (nat (- x)) else dec (nat x))"

definition hex_digit :: "nat \<Rightarrow> char" where
  "hex_digit d = ''0123456789abcdef'' ! d"

fun fmt_x :: "nat \<Rightarrow> string" where
  "fmt_x n = (if n < 16 then [hex_digit n] else fmt_x (n div 16) @ [hex_digit (n mod 16)])"

declare fmt_x.simps [simp del]

definition c_string :: "string \<Rightarrow> display_fault + string" where
  "c_string s = (if CHR 0x00 \<in> set s then Inr (takeWhile (\<lambda>c. c \<noteq> CHR 0x00) s) else Inl Past_end)"

text \<open>\<open>%.*s\<close>: at most \<open>n\<close> characters; a negative precision is none.\<close>

definition fmt_prec_s :: "int \<Rightarrow> string \<Rightarrow> display_fault + string" where
  "fmt_prec_s n s =
     (if n < 0 then c_string s
      else if nat n \<le> length s then Inr (takeWhile (\<lambda>c. c \<noteq> CHR 0x00) (take (nat n) s))
      else c_string s)"

definition nl :: string where "nl = [CHR 0x0A]"

definition place :: "site \<Rightarrow> string" where
  "place p = '' in file=['' @ at_file p @ ''] line=['' @ dec (at_line p) @ '']'' @ nl @ nl"

definition shown :: "stream \<Rightarrow> string \<Rightarrow> string \<Rightarrow> site \<Rightarrow> display_fault + prints" where
  "shown st x v p =
     (if CHR 0x25 \<in> set x then Inl Bad_format
      else Inr [(st, x @ ''=['' @ v @ '']'' @ place p)])"

subsection \<open>The macros\<close>

text \<open>\<open>off\<close> is the \<open>#else\<close> branch of the header: the macro is empty there.\<close>

definition unless_off :: "bool \<Rightarrow> display_fault + prints \<Rightarrow> (display_fault + prints) option" where
  "unless_off off out = Some (if off then Inr [] else out)"

definition PINT :: "bool \<Rightarrow> string \<Rightarrow> int \<Rightarrow> site \<Rightarrow> (display_fault + prints) option" where
  "PINT off x v p = unless_off off (shown Stdout x (fmt_d v) p)"

definition PEINT :: "bool \<Rightarrow> string \<Rightarrow> int \<Rightarrow> site \<Rightarrow> (display_fault + prints) option" where
  "PEINT off x v p = unless_off off (shown Stderr x (fmt_d v) p)"

definition PSTR :: "bool \<Rightarrow> string \<Rightarrow> string \<Rightarrow> site \<Rightarrow> (display_fault + prints) option" where
  "PSTR off x v p = unless_off off (bindR (c_string v) (\<lambda>s. shown Stdout x s p))"

definition PESTR :: "bool \<Rightarrow> string \<Rightarrow> string \<Rightarrow> site \<Rightarrow> (display_fault + prints) option" where
  "PESTR off x v p = unless_off off (bindR (c_string v) (\<lambda>s. shown Stderr x s p))"

text \<open>The two with a prefix are missing in the \<open>#else\<close> branch.\<close>

definition PPSTR :: "bool \<Rightarrow> string \<Rightarrow> string \<Rightarrow> string \<Rightarrow> site \<Rightarrow> (display_fault + prints) option" where
  "PPSTR off x v y p = (if off then None else Some (bindR (c_string v) (\<lambda>s. bindR (c_string y) (\<lambda>s'.
     shown Stdout x (s @ ''  '' @ s') p))))"

definition PPESTR :: "bool \<Rightarrow> string \<Rightarrow> string \<Rightarrow> string \<Rightarrow> site \<Rightarrow> (display_fault + prints) option" where
  "PPESTR off x v y p = (if off then None else Some (bindR (c_string v) (\<lambda>s. bindR (c_string y) (\<lambda>s'.
     shown Stderr x (s @ ''  '' @ s') p))))"

definition PNSTR :: "bool \<Rightarrow> string \<Rightarrow> string \<Rightarrow> int \<Rightarrow> site \<Rightarrow> (display_fault + prints) option" where
  "PNSTR off x v n p = unless_off off (bindR (fmt_prec_s n v) (\<lambda>s. shown Stdout x s p))"

definition PENSTR :: "bool \<Rightarrow> string \<Rightarrow> string \<Rightarrow> int \<Rightarrow> site \<Rightarrow> (display_fault + prints) option" where
  "PENSTR off x v n p = unless_off off (bindR (fmt_prec_s n v) (\<lambda>s. shown Stderr x s p))"

definition PINTU :: "bool \<Rightarrow> string \<Rightarrow> u32 \<Rightarrow> site \<Rightarrow> (display_fault + prints) option" where
  "PINTU off x v p = unless_off off (shown Stdout x (dec (unat v)) p)"

definition PEINTU :: "bool \<Rightarrow> string \<Rightarrow> u32 \<Rightarrow> site \<Rightarrow> (display_fault + prints) option" where
  "PEINTU off x v p = unless_off off (shown Stderr x (dec (unat v)) p)"

text \<open>\<open>fmt_p\<close> is what the C library makes of \<open>%p\<close>, \<open>fmt_f\<close> of \<open>%f\<close>.\<close>

definition PINTX :: "('v \<Rightarrow> string) \<Rightarrow> bool \<Rightarrow> string \<Rightarrow> 'v \<Rightarrow> site \<Rightarrow> (display_fault + prints) option" where
  "PINTX fmt_p off x v p = unless_off off (shown Stdout x (fmt_p v) p)"

definition PEINTX :: "bool \<Rightarrow> string \<Rightarrow> u32 \<Rightarrow> site \<Rightarrow> (display_fault + prints) option" where
  "PEINTX off x v p = unless_off off (shown Stderr x (fmt_x (unat (v AND 0xff))) p)"

definition PFLOAT :: "('v \<Rightarrow> string) \<Rightarrow> bool \<Rightarrow> string \<Rightarrow> 'v \<Rightarrow> site \<Rightarrow> (display_fault + prints) option" where
  "PFLOAT fmt_f off x v p = unless_off off (shown Stdout x (fmt_f v) p)"

text \<open>\<open>PEFLOAT\<close> calls \<open>printf\<close> and not \<open>fprintf\<close>: the stream is taken for the format, a pointer to
  something that is no text.\<close>

definition PEFLOAT :: "bool \<Rightarrow> string \<Rightarrow> 'v \<Rightarrow> site \<Rightarrow> (display_fault + prints) option" where
  "PEFLOAT off x v p = unless_off off (Inl Bad_format)"

text \<open>
  The dumps of an array of \<open>char\<close>: a line with the place, the bytes, and the place again.  An
  element is promoted to \<open>int\<close>, with its sign, before the mask is applied.
\<close>

definition stars :: "site \<Rightarrow> string" where
  "stars p = ''******'' @ place p"

definition masked :: "byte \<Rightarrow> nat" where
  "masked c = unat ((scast c :: u32) AND 0xff)"

definition dump_x :: "byte \<Rightarrow> string" where
  "dump_x c = '' '' @ fmt_x (masked c)"

definition dump_x2 :: "byte \<Rightarrow> string" where
  "dump_x2 c = '' ['' @ fmt_x (masked c) @ '' '' @ [char_of (unat c)] @ '']''"

fun dump_loop :: "(byte \<Rightarrow> string) \<Rightarrow> stream \<Rightarrow> byte list \<Rightarrow> nat \<Rightarrow> nat \<Rightarrow> display_fault + prints" where
  "dump_loop f st x i 0 = Inr []"
| "dump_loop f st x i (Suc k) =
     (if length x \<le> i then Inl Past_end
      else bindR (dump_loop f st x (i + 1) k) (\<lambda>out. Inr ((st, f (x ! i)) # out)))"

definition dump :: "(byte \<Rightarrow> string) \<Rightarrow> stream \<Rightarrow> byte list \<Rightarrow> int \<Rightarrow> site \<Rightarrow> display_fault + prints" where
  "dump f st x n p =
     bindR (dump_loop f st x 0 (nat n)) (\<lambda>out.
       Inr ((st, stars p) # out @ [(st, nl @ nl @ stars p)]))"

definition PNSTRX :: "bool \<Rightarrow> byte list \<Rightarrow> int \<Rightarrow> site \<Rightarrow> (display_fault + prints) option" where
  "PNSTRX off x n p = unless_off off (dump dump_x Stdout x n p)"

definition PENSTRX :: "bool \<Rightarrow> byte list \<Rightarrow> int \<Rightarrow> site \<Rightarrow> (display_fault + prints) option" where
  "PENSTRX off x n p = unless_off off (dump dump_x Stderr x n p)"

definition PNSTRX2 :: "bool \<Rightarrow> byte list \<Rightarrow> int \<Rightarrow> site \<Rightarrow> (display_fault + prints) option" where
  "PNSTRX2 off x n p = unless_off off (dump dump_x2 Stdout x n p)"

definition PENSTRX2 :: "bool \<Rightarrow> byte list \<Rightarrow> int \<Rightarrow> site \<Rightarrow> (display_fault + prints) option" where
  "PENSTRX2 off x n p = unless_off off (dump dump_x2 Stderr x n p)"


text \<open>
  The address of \<open>inet_ntop\<close> in dotted decimal; it needs room for the text and its NUL, or
  fails.  A port comes in network order.
\<close>

definition dotted :: "byte \<times> byte \<times> byte \<times> byte \<Rightarrow> string" where
  "dotted a = (case a of (a1, a2, a3, a4) \<Rightarrow>
     dec (unat a1) @ ''.'' @ dec (unat a2) @ ''.'' @ dec (unat a3) @ ''.'' @ dec (unat a4))"

definition inet_ntop :: "byte \<times> byte \<times> byte \<times> byte \<Rightarrow> nat \<Rightarrow> string option" where
  "inet_ntop a room = (if length (dotted a) < room then Some (dotted a) else None)"

definition show_ip :: "stream \<Rightarrow> byte \<times> byte \<times> byte \<times> byte \<Rightarrow> site \<Rightarrow> display_fault + prints" where
  "show_ip st a p = (case inet_ntop a 20 of Some szStr \<Rightarrow> shown st ''ip'' szStr p | None \<Rightarrow> shown st ''ip'' ''error'' p)"

definition PIP :: "bool \<Rightarrow> byte \<times> byte \<times> byte \<times> byte \<Rightarrow> site \<Rightarrow> (display_fault + prints) option" where
  "PIP off a p = unless_off off (show_ip Stdout a p)"

definition PEIP :: "bool \<Rightarrow> byte \<times> byte \<times> byte \<times> byte \<Rightarrow> site \<Rightarrow> (display_fault + prints) option" where
  "PEIP off a p = unless_off off (show_ip Stderr a p)"

definition ntohs :: "16 word \<Rightarrow> 16 word" where
  "ntohs w = push_bit 8 w OR drop_bit 8 w"

text \<open>These two are missing in the \<open>#else\<close> branch as well.\<close>

definition PPORT :: "bool \<Rightarrow> string \<Rightarrow> 16 word \<Rightarrow> site \<Rightarrow> (display_fault + prints) option" where
  "PPORT off x v p = (if off then None else Some (shown Stdout x (dec (unat (ntohs v))) p))"

definition PEPORT :: "bool \<Rightarrow> string \<Rightarrow> 16 word \<Rightarrow> site \<Rightarrow> (display_fault + prints) option" where
  "PEPORT off x v p = (if off then None else Some (shown Stderr x (dec (unat (ntohs v))) p))"

text \<open>\<open>gk_string\<close> is the text that the XML library makes of an object; \<open>None\<close> is NULL.\<close>

definition PGK_XML :: "('v \<Rightarrow> string) \<Rightarrow> bool \<Rightarrow> string \<Rightarrow> 'v option \<Rightarrow> site \<Rightarrow> (display_fault + prints) option" where
  "PGK_XML gk_string off x v p = unless_off off
     (case v of Some y \<Rightarrow> shown Stdout x (gk_string y) p
      | None \<Rightarrow> Inr [(Stdout, ''GK_XML=[error]'' @ place p)])"

subsection \<open>Addresses always fit, and masks are the bytes\<close>

lemma length_dotted: "length (dotted a) \<le> 15"
proof (cases a)
  case (fields a1 a2 a3 a4)
  have "length (dec (unat x)) \<le> 3" for x :: byte
    using length_dec_byte [of "unat x"] unsigned_less [of x, where 'a = nat] by simp
  from this [of a1] this [of a2] this [of a3] this [of a4] fields show ?thesis by (simp add: dotted_def)
qed

lemma show_ip_text: "show_ip st a p = shown st ''ip'' (dotted a) p"
  using length_dotted [of a] by (simp add: show_ip_def inet_ntop_def)

text \<open>The sign extension of a \<open>char\<close> is undone by the mask.\<close>

lemma masked_byte: "masked c = unat c"
proof -
  have "(scast c :: u32) AND 0xff = take_bit 8 (scast c)"
    by (simp add: take_bit_eq_mask mask_eq_exp_minus_1)
  also have "\<dots> = ucast c"
  proof (rule bit_word_eqI)
    fix n
    assume "n < LENGTH(32)"
    consider "n < 7" | "n = 7" | "8 \<le> n" by linarith
    then show "bit (take_bit 8 (scast c :: u32)) n = bit (ucast c :: u32) n"
      using bit_imp_le_length [of c n] by cases (auto simp: bit_simps min_def)
  qed
  finally have "masked c = unat (ucast c :: u32)" by (simp add: masked_def)
  also have "\<dots> = unat c"
    using unsigned_less [of c, where 'a = nat] by (simp add: unsigned_ucast_eq take_bit_nat_eq_self_iff)
  finally show ?thesis .
qed


subsection \<open>Reading a dump back\<close>

definition hex_value :: "char \<Rightarrow> nat" where
  "hex_value c = (let k = of_char c in if k < 58 then k - 48 else k - 87)"

definition read_hex :: "string \<Rightarrow> nat" where
  "read_hex s = foldl (\<lambda>a c. 16 * a + hex_value c) 0 s"

text \<open>The words of a text, each after the space before it.\<close>

fun words :: "string \<Rightarrow> string list" where
  "words [] = []"
| "words (c # s) =
     (if c = CHR '' '' then [] # words s
      else case words s of [] \<Rightarrow> [[c]] | w # ws \<Rightarrow> (c # w) # ws)"

definition read_dump :: "string \<Rightarrow> nat list" where
  "read_dump s = map read_hex (tl (words s))"

lemma hex_digits:
  assumes "d < 16"
  shows "hex_value (hex_digit d) = d" and "hex_digit d \<noteq> CHR '' ''"
proof -
  have "\<forall>d\<in>set [0..<16]. hex_value (hex_digit d) = d \<and> hex_digit d \<noteq> CHR '' ''" by code_simp
  with assms show "hex_value (hex_digit d) = d" and "hex_digit d \<noteq> CHR '' ''" by simp_all
qed

lemma fmt_x_reads: "read_hex (fmt_x n) = n"
proof (induction n rule: fmt_x.induct)
  case (1 n)
  show ?case
  proof (cases "n < 16")
    case True
    with hex_digits show ?thesis by (simp add: fmt_x.simps [of n] read_hex_def)
  next
    case False
    with 1 hex_digits(1) [of "n mod 16"] show ?thesis by (simp add: fmt_x.simps [of n] read_hex_def)
  qed
qed

lemma fmt_x_chars: "fmt_x n \<noteq> [] \<and> CHR '' '' \<notin> set (fmt_x n)"
proof (induction n rule: fmt_x.induct)
  case (1 n)
  with hex_digits(2) [of n] hex_digits(2) [of "n mod 16"] show ?case
    by (cases "n < 16") (auto simp: fmt_x.simps [of n])
qed

lemma words_word: "w \<noteq> [] \<Longrightarrow> CHR '' '' \<notin> set w \<Longrightarrow> words w = [w]"
proof (induction w)
  case (Cons c w)
  then show ?case by (cases w) auto
qed simp

lemma words_append: "w \<noteq> [] \<Longrightarrow> CHR '' '' \<notin> set w \<Longrightarrow> words (w @ CHR '' '' # s) = w # words s"
proof (induction w)
  case (Cons c w)
  then show ?case by (cases w) auto
qed simp

lemma read_dump_Cons:
  assumes "s = [] \<or> hd s = CHR '' ''"
  shows "read_dump (dump_x c @ s) = unat c # read_dump s"
proof -
  have w: "fmt_x (masked c) \<noteq> []" "CHR '' '' \<notin> set (fmt_x (masked c))" using fmt_x_chars by simp_all
  have "tl (words (dump_x c @ s)) = fmt_x (masked c) # tl (words s)"
  proof (cases s)
    case Nil
    with words_word [OF w] show ?thesis by (simp add: dump_x_def)
  next
    case (Cons d s')
    with assms words_append [OF w, of s'] show ?thesis by (simp add: dump_x_def)
  qed
  then show ?thesis by (simp add: read_dump_def fmt_x_reads masked_byte)
qed

lemma dump_loop_texts:
  "i + k \<le> length x \<Longrightarrow> dump_loop f st x i k = Inr (map (\<lambda>c. (st, f c)) (take k (drop i x)))"
proof (induction k arbitrary: i)
  case (Suc k)
  have "take (Suc k) (drop i x) = x ! i # take k (drop (i + 1) x)"
    using Suc.prems by (simp add: Cons_nth_drop_Suc [symmetric])
  with Suc show ?case by simp
qed simp

lemma read_dump_texts: "read_dump (concat (map dump_x xs)) = map unat xs"
proof (induction xs)
  case (Cons c xs)
  have "concat (map dump_x xs) = [] \<or> hd (concat (map dump_x xs)) = CHR '' ''"
    by (cases xs) (simp_all add: dump_x_def)
  with read_dump_Cons Cons show ?case by simp
qed (simp add: read_dump_def)

lemma dump_loop_past: "length x < i + k \<Longrightarrow> i \<le> length x \<Longrightarrow> dump_loop f st x i k = Inl Past_end"
proof (induction k arbitrary: i)
  case (Suc k)
  then show ?case by (cases "length x \<le> i") simp_all
qed simp

subsection \<open>Properties\<close>

text \<open>C38: A hexadecimal dump can be read back: of an array of at least \<open>n\<close> characters \<open>PNSTRX\<close> and \<open>PENSTRX\<close>
  print, between two lines with the place, on standard output and on standard error, a text whose
  words, read as hexadecimal numbers of any length, are the first \<open>n\<close> bytes as numbers from 0 to
  255: a negative character has no digits of its sign extension.  Of a shorter array they
  read past the end; and with \<open>DEBUG_PRINT_INFO\<close> they print nothing.\<close>

theorem dump_reads_back:
  "(nat n \<le> length x \<longrightarrow>
      (\<exists>out. PNSTRX False x n p = Some (Inr ((Stdout, stars p) # map (Pair Stdout) out @ [(Stdout, nl @ nl @ stars p)]))
        \<and> PENSTRX False x n p = Some (Inr ((Stderr, stars p) # map (Pair Stderr) out @ [(Stderr, nl @ nl @ stars p)]))
        \<and> read_dump (concat out) = map unat (take (nat n) x)))
   \<and> (length x < nat n \<longrightarrow> PNSTRX False x n p = Some (Inl Past_end) \<and> PENSTRX False x n p = Some (Inl Past_end))
   \<and> PNSTRX True x n p = Some (Inr []) \<and> PENSTRX True x n p = Some (Inr [])"
proof (intro conjI impI)
  assume "nat n \<le> length x"
  then show "\<exists>out. PNSTRX False x n p = Some (Inr ((Stdout, stars p) # map (Pair Stdout) out @ [(Stdout, nl @ nl @ stars p)]))
        \<and> PENSTRX False x n p = Some (Inr ((Stderr, stars p) # map (Pair Stderr) out @ [(Stderr, nl @ nl @ stars p)]))
        \<and> read_dump (concat out) = map unat (take (nat n) x)"
    by (intro exI [of _ "map dump_x (take (nat n) x)"])
      (simp add: PNSTRX_def PENSTRX_def unless_off_def dump_def dump_loop_texts read_dump_texts comp_def)
qed (simp_all add: PNSTRX_def PENSTRX_def unless_off_def dump_def dump_loop_past)

text \<open>The bytes 0, 10 and 255 of an array of four.\<close>

lemma dump_reads_back_witness:
  "(\<exists>out. PNSTRX False [0, 10, 255, 7] 3 \<lparr>at_file = ''log.c'', at_line = 20\<rparr>
      = Some (Inr ((Stdout, stars \<lparr>at_file = ''log.c'', at_line = 20\<rparr>) # map (Pair Stdout) out
          @ [(Stdout, nl @ nl @ stars \<lparr>at_file = ''log.c'', at_line = 20\<rparr>)]))
      \<and> read_dump (concat out) = [0, 10, 255])
   \<and> PNSTRX False [0, 10, 255, 7] 5 \<lparr>at_file = ''log.c'', at_line = 20\<rparr> = Some (Inl Past_end)"
  using dump_reads_back [of 3 "[0, 10, 255, 7]" "\<lparr>at_file = ''log.c'', at_line = 20\<rparr>"]
    dump_reads_back [of 5 "[0, 10, 255, 7]" "\<lparr>at_file = ''log.c'', at_line = 20\<rparr>"] by auto

end
