(* ===== verification/Spec2Isabelle.thy ===== *)
theory Spec2Isabelle
  imports Program Progress Delivery Work Sockets Buffers Waiting_Queue Simpleq Slist Lists Circleq Tailq_Debug
    Bufpool_Heap Log_Threads Zmalloc_Threads Zmalloc_Stats Zmalloc_Usable Align Display
begin

text \<open>
  tcpFunnel: a TCP proxy that accepts many clients and serves them over a bounded number of
  connections to its upstream servers (src/src, in C, on libev).

  \<^bold>\<open>The program.\<close>  \<open>main\<close> (xtp.c) reads options and the XML configuration (xtp\_conf.c), starts
  the log (log.c) and one thread (xtp\_server.c, xtp\_thread.c), whose function \<open>x_access_in\<close>
  (xtp\_access.c) binds a socket and runs an event loop.  A client that sends something is put in
  a queue of waiting connections; while fewer than \<open>working_num_max\<close> upstream connections are
  open, the head of the queue gets one (xtp\_upstream.c).  From then on bytes read from either
  socket are stored in a chain of buffers from a pool (xtp\_bufpool.c) and written to the other
  (xtp\_nio.c).  Queues and chains are made with the macros of queue.h, memory comes from
  zmalloc.c.

  \<^bold>\<open>The theories\<close>, each after the ones it uses:

  \<^item> \<open>Prelude\<close>: faults, the result type \<open>fault + 'a\<close> with \<open>bindR\<close> and the predicate \<open>okR\<close> (the result
    satisfies a predicate, or the program stops for lack of memory or of answers; \<open>okE\<close> allows
    further faults), counting
    and summing over heaps, decimal digits.
  \<^item> \<open>Nio\<close> (xtp\_nio.c): \<open>x_recvn\<close>, \<open>x_sendn\<close>, \<open>x_setNonBlock\<close>, \<open>x_socket_bind\<close>, with the kernel's
    answers taken from lists.
  \<^item> \<open>Bufpool\<close> (xtp\_bufpool.c): the pool and its buffers, the free list being a list; the locale
    \<open>buffer_pool\<close> is what a client of the pool relies on.  \<open>Bufpool_Heap\<close>: the same functions on
    blocks with addresses, chained through \<open>next\<close>, and that they refine the former.
  \<^item> \<open>Pipe\<close> (the loops of the four data callbacks): \<open>recv2buf\<close>, \<open>send_while\<close> and the two outer send
    loops; the locale \<open>byte_stream\<close> says that a chain is a queue of bytes, for each direction.
  \<^item> \<open>Conf\<close>, \<open>Connection\<close> (xtp\_conf.h, xtp\_connection.h): the structs.  \<open>world\<close> is the state of a
    thread: the listener's fields (\<open>ln_\<close>), the heap of connections (\<open>w_conns\<close>), the answers still to
    come (\<open>o_\<close>) and the trace of system calls.
  \<^item> \<open>Upstream\<close>, \<open>Access\<close> (xtp\_upstream.c, xtp\_access.c): every function and callback.
  \<^item> \<open>Invariant\<close>, \<open>Admission\<close>, \<open>Handlers\<close>: the state invariant \<open>proxy_inv\<close> (heap, queue, counters) and
    its preservation by the mutual recursion of admission and by each callback.
  \<^item> \<open>Proxy\<close>: the event loop as the relation \<open>ev_reach\<close>, the locale \<open>event_loop\<close>, and what holds in every
    reachable state; \<open>refused_watcher\<close> names the events in which the code gives libev a watcher it does not
    accept.  \<open>Progress\<close>: what becomes of the head of the queue.  \<open>Delivery\<close>: runs of the loop
    with what each callback received and sent (\<open>history\<close>), and what the four streams of a
    connection have to do with each other; \<open>handle_induct\<close> is the induction over admission that the
    next three share.  \<open>Work\<close>: no place at the upstream servers stays free while a client waits, but
    for those that a refused socket or a failed \<open>connect\<close> accounts for.  \<open>Sockets\<close>: the sockets open, by
    the system calls in the trace, against the counters and the connections.  \<open>Buffers\<close>: every buffer of the
    pool is on its free list or in one chain of one connection.
  \<^item> \<open>Zmalloc\<close>, \<open>Zmalloc_Stats\<close> (zmalloc.c): the counting allocator; the statistics read from /proc.
    The locale \<open>accounted_heap\<close> is what a client relies on when it gives its blocks back.
    \<open>Zmalloc_Usable\<close>: the configuration where the platform tells the size of a block, the second
    model of that locale.  \<open>Zmalloc_Threads\<close>: the updates of the count step by step, interleaved between threads, with
    and without the mutex, and with atomic operations.
  \<^item> \<open>Conf_Load\<close> (xtp\_conf.c), \<open>Log\<close> (log.c), \<open>Server\<close> (xtp\_server.c, xtp\_thread.c), \<open>Program\<close> (xtp.c).
    \<open>Log_Threads\<close>: calls of the logger step by step, interleaved between threads and interrupted
    by the signal handler, with the mutex of each handler.
  \<^item> \<open>Queue_Contract\<close>, \<open>Slist\<close>, \<open>Lists\<close>, \<open>Simpleq\<close>, \<open>Stailq\<close>, \<open>Tailq\<close>, \<open>Circleq\<close> (queue.h): all families of
    macros at the level of pointers.  The locale \<open>linked_list\<close> says what inserting, removing and
    looking at the first do to the list of elements; \<open>linked_queue\<close> and \<open>linked_stack\<close> extend it for
    insertion at the tail and at the front, and each family is a model of one of them.
    \<open>Tailq_Debug\<close>: the tail queue with the checks of QUEUEDEBUG.  \<open>Waiting_Queue\<close> ties the list
    \<open>ln_cq_waiting\<close> to the tail queue, with the faults for connections that have been freed.
  \<^item> \<open>Align\<close> (xtp\_config.h): rounding up to a power of two, which is what zmalloc does to a size.
  \<^item> \<open>Display\<close> (display.h): what the printing macros write.
  \<^item> this theory: the properties of the program from the command line to the event loop.

  \<^bold>\<open>What is shown.\<close>  Memory safety of all callbacks in all reachable states, with the
  exceptions the code has: the timer of a waiting connection frees it without taking it
  from the queue, and the next admission reads it; and libev is given a watcher on the descriptor -1 after an
  \<open>accept\<close> that failed, and negative timeouts if the document has them.  The two byte streams: what is written to
  one side is what was read from the other, in order, but for what the chains still hold, for
  each loop and from the command line to any state the event loop reaches.  The limits on
  clients and upstream connections, and by how much the second is missed, counted in open sockets;
  that the queue of
  waiting clients is served as long as there are places, and that no callback loses a buffer or
  gives one back twice.  The pool, the
  allocator, the queues, the configuration, the log and the options each against their
  specification; the error paths, and the leaks and overflows there are on them.  With
  several threads: calls of the logger are serial, the count of used memory is exact once its
  guard is on; and where that ends: a signal delivered to a thread that holds the mutex of the error log
  keeps the program from exiting and from logging errors, and an update without the guard may be lost.

  \<^bold>\<open>Loops and bounds.\<close>  Loops over the kernel's answers end because each call uses one up
  (\<open>Script_end\<close> is the lack of an answer, a state of the model and not of the program); the
  property \<open>connect_failure_recursion\<close> shows where that bound is all that ends a recursion.
  \<open>x_buf_alloc\<close>, the search for a free log name and the traversals of the queues are
  \<open>partial_function (option)\<close>: not returning is the value \<open>None\<close>, and termination is proved.
  Buffer sizes and lengths are computed in 32-bit words, the allocator's in 64-bit ones.
  The counters \<open>ln_c_count\<close>, \<open>ln_working_num\<close>, \<open>ln_cq_waiting_num\<close>, \<open>bp_n\<close>, \<open>bp_max\<close> and \<open>h_cursize\<close> are
  unbounded integers where the code has \<open>int\<close>, whose overflow is undefined.  The first cannot overflow
  (it lies between 0 and the configured limit); for the others the properties hold as long as
  the values stay below \<open>2 ^ 31\<close>.  Numbers that come from the configuration are cut to 32 bits by \<open>atoi\<close>.
  Pointers are natural numbers; an address is not used twice, so that every access to freed
  memory is a fault.

  \<^bold>\<open>Not modelled.\<close>  libev and iksemel (not in the repository): the event loop and the parser's
  results are parameters.  Of libev the model has what it demands of its caller: no
  \<open>ev_io_init\<close> or \<open>ev_timer_init\<close> on a started watcher (\<open>Active_watcher\<close>), no freeing of one (\<open>Use_after_free\<close>), no
  negative descriptor and no negative repeat (\<open>Bad_watcher\<close>).  \<open>socket\<close> is taken to return -1 or a
  descriptor that is not negative.  The text of most log messages, and time.  Data races other than those
  on the log's handlers and on the count of used memory: the thread is alone in using its
  listener.  Rounding of the one \<open>float\<close> there is (its type is an argument),
  and the headers that hold only prototypes and the settings of the build.
\<close>

section \<open>The program as a whole\<close>

lemma conf_new_srv_ok:
  assumes "x_server_conf_new api (Some f) oks z = Inr (Some cm, oks', z')"
    and "sc_upstream (cm_conf cm) \<noteq> []"
  shows "srv_ok (cm_conf cm)"
proof -
  from conf_new_spec [OF assms(1)] obtain conf where "cm_conf cm = conf_spec api conf" by blast
  with assms(2) show ?thesis by (simp add: conf_spec_def srv_ok_def Let_def)
qed

lemma program_main_serving:
  assumes "program_main env api oks argv lg z = Inr (Serving srv thr lg' z')"
  obtains o1 cm oks1 z1 oks2 where
    "parse_options (pe_stat env) (getopt [] argv) default_options = Inr o1"
    "x_server_conf_new api (Some (conf_path o1)) oks1 z1 = Inr (Some cm, oks2, z')"
    "sv_srvconf srv = Some cm" "thr = x_access_new (pe_create env) (pe_detach env) srv blank_thread"
    "lg_is_debug lg' = op_level o1"
  using assms
  by (auto simp: program_main_def Let_def set_log_level_def split: if_split_asm option.split_asm)

lemma logger_init_returns:
  assumes "\<forall>d. dir = Some d \<longrightarrow> length d < 1024"
  shows "\<exists>st'. logger_init cwd dirs (True, True) now filesize is_debug dir st = Inr st'"
proof -
  define path where "path = (case dir of
      None \<Rightarrow> (case cwd of None \<Rightarrow> [] | Some d \<Rightarrow> if length d < XNET_PATH_LEN - 1 then d else [])
    | Some r \<Rightarrow> take XNET_PATH_LEN r)"
  have "\<not> XNET_PATH_LEN \<le> length path"
    using assms by (auto simp: path_def XNET_PATH_LEN_def split: option.split)
  then show ?thesis by (simp add: logger_init_def Let_def path_def [symmetric])
qed

lemma program_starts:
  assumes "program_main env api oks argv lg z = Inr (Serving srv thr lg' z')"
    and "sv_srvconf srv = Some cm" and "sc_upstream (cm_conf cm) \<noteq> []"
    and "x_thread_func sock fc bnd lst zs ms thr = Inr (Some w0)"
  shows "proxy_inv w0 \<and> w_conns w0 = (\<lambda>_. None) \<and> ev_started w0 Ev_accept
    \<and> settled (ac_timeout (sc_access (cm_conf cm))) (set (sc_upstream (cm_conf cm))) 0 w0"
proof -
  from program_main_serving [OF assms(1)] assms(2) obtain o1 oks1 z1 oks2 where
    conf: "x_server_conf_new api (Some (conf_path o1)) oks1 z1 = Inr (Some cm, oks2, z')"
    and thr: "thr = x_access_new (pe_create env) (pe_detach env) srv blank_thread"
    by (metis option.inject)
  have listen: "x_access_listen (cm_conf cm) sock fc bnd lst zs ms = Inr w0"
    using assms(2,4) thr
    by (auto simp: x_thread_func_def x_access_new_def x_thread_fork_def Let_def split: sum.split_asm)
  then have "ln_srvcf w0 = cm_conf cm" "w_trace w0 = []" "ln_timeout w0 = ac_timeout (sc_access (cm_conf cm))"
    by (auto simp: x_access_listen_def split: if_split_asm)
  with x_access_listen_start [OF listen conf_new_srv_ok [OF conf assms(3)]] start_settled [of w0]
  show ?thesis by simp
qed

text \<open>C3: From the command line to the event loop: once \<open>main\<close> serves, whatever the arguments and the
  document were, and the thread it has started has brought up the listener (on a descriptor that
  is not -1), no callback of any reachable state does what C1 excludes, provided the document
  lists an upstream server and no timer fires for a waiting connection.  With timeouts that are
  not negative in the configuration read, and as long as \<open>accept\<close> does not fail with anything
  but \<open>EAGAIN\<close>, libev is never given a watcher that it does not accept either.\<close>

theorem program_safe:
  assumes "program_main env api oks argv lg z = Inr (Serving srv thr lg' z')"
    and "sv_srvconf srv = Some cm" and "sc_upstream (cm_conf cm) \<noteq> []"
    and "x_thread_func sock fc bnd lst zs ms thr = Inr (Some w0)"
    and "ev_reach ev_started dispatch timely w0 w"
    and "ev_started w e" and "timely w e" and "dispatch e a w = Inl f"
  shows "f = Aborted \<or> f = No_return \<or> f = Script_end
    \<or> f = Bad_watcher
      \<and> (e = Ev_accept \<and> (\<exists>fd addr as. accept_loop (a_accept a) = Inr (fd, addr, as) \<and> fd < 0)
        \<or> ac_timeout (sc_access (cm_conf cm)) < 0
        \<or> (\<exists>u\<in>set (sc_upstream (cm_conf cm)). uc_timeout u < 0))"
proof -
  note start = program_starts [OF assms(1-4)]
  let ?T = "ac_timeout (sc_access (cm_conf cm))" and ?U = "set (sc_upstream (cm_conf cm))"
  have inv: "settled ?T ?U 0 w" using sockets.reach_inv [OF assms(5), of ?T ?U 0] start by simp
  have "soft f \<or> refuses w e a f" using proxy.reach_no_fault [OF assms(5) _ assms(6-8)] start by simp
  then show ?thesis
    using inv by (auto simp: soft_def refuses_def refused_watcher_def on_conn_def settled_def good_conn_def
        split: event.splits option.splits sum.splits)
qed

text \<open>Streams end to end, from the command line over every run of the event loop (in which no timer fires
  for a waiting connection): what the upstream server has been sent for a client is a prefix of
  what that client has sent, and what the client has been sent is a prefix of what the server
  has sent for it; nothing is lost, reordered, repeated or mixed up between connections.  As
  long as both sides are open, what is missing is exactly what the two chains hold; when only
  the upstream side has been closed, what the chain holds comes next for the client.\<close>

theorem program_delivers:
  assumes "program_main env api oks argv lg z = Inr (Serving srv thr lg' z')"
    and "sv_srvconf srv = Some cm" and "sc_upstream (cm_conf cm) \<noteq> []"
    and "x_thread_func sock fc bnd lst zs ms thr = Inr (Some w0)"
    and "history w0 h w"
  shows "prefix (to_server c h) (from_client c h) \<and> prefix (to_client c h) (from_server c h)
    \<and> (\<forall>p. w_conns w c = Some p \<longrightarrow>
         (c_status p \<noteq> CONN_CLOSE \<and> c_upc_status p \<noteq> CONN_CLOSE \<longrightarrow>
            from_client c h = to_server c h @ pipe_bytes (c_pipe1 p)
            \<and> from_server c h = to_client c h @ pipe_bytes (c_pipe2 p))
       \<and> (c_status p \<noteq> CONN_CLOSE \<longrightarrow>
            prefix (to_client c h @ pipe_bytes (c_pipe2 p)) (from_server c h)))"
  by (rule books_streams [OF history_books [OF assms(5)]]) (use program_starts [OF assms(1-4)] in simp_all)

text \<open>C4: The program gets to serve: with acceptable options, an existing file, a well-formed document and
  enough memory, \<open>main\<close> reads the configuration that the document describes, sets the log level
  that the options ask for, and starts the thread with the server as its argument.\<close>

theorem main_serves:
  assumes "parse_options (pe_stat env) (getopt [] argv) default_options = Inr o1"
    and "pe_access env (conf_path o1) \<noteq> -1" and "op_daemon o1 = 0 \<or> pe_fork env = 0"
    and "\<forall>d. op_log o1 = Some d \<longrightarrow> length d < 1024" and "pe_mem env = (True, True)"
    and "ik_load api (conf_path o1) = Some conf"
    and "kids = ik_children api (ik_find api (ik_find api (Some conf) ''server'') ''upstream'')"
    and "\<forall>c\<in>set kids. ik_name api c \<noteq> None \<and> (is_element api c \<longrightarrow> has_ip api c)"
    and "length kids < 2 ^ 32" and "length kids + 4 \<le> length oks" and "set oks \<subseteq> {True}"
  shows "\<exists>srv thr lg z' cm. program_main env api oks argv logger_static z = Inr (Serving srv thr lg z')
    \<and> sv_srvconf srv = Some cm \<and> cm_conf cm = conf_spec api conf
    \<and> th_func thr = Some X_access_in \<and> th_arg thr = Some srv
    \<and> (lg_is_inited lg \<longrightarrow> log_ok lg) \<and> lg_is_debug lg = op_level o1"
proof -
  obtain lg1 where lg1: "logger_init (pe_cwd env) (pe_dirs env) (pe_mem env) (env_now (pe_log env)) 100
      LOG_LEVEL_DEBUG (op_log o1) logger_static = Inr lg1"
    using logger_init_returns assms(4,5) by metis
  from assms(10) obtain o1' o2' oks2 where "oks = o1' # o2' # oks2" by (auto simp: Suc_le_length_iff numeral_eq_Suc)
  with assms(10,11) have oks: "oks = True # True # oks2" "length kids + 2 \<le> length oks2" "set oks2 \<subseteq> {True}"
    by auto
  obtain srv z1 where new: "x_server_new oks z = Inr (srv, oks2, z1)"
    by (simp add: x_server_new_def zalloc_def oks(1) zmalloc_def sizeof_server_def sizeof_thread_def
        PREFIX_SIZE_def Let_def)
  from conf_new_accepts [OF assms(6) refl, folded assms(7), OF assms(8,9) oks(2,3), of z1]
  obtain cm oks3 z2 where conf: "x_server_conf_new api (Some (conf_path o1)) oks2 z1 = Inr (Some cm, oks3, z2)"
    by blast
  have "daemonize (pe_fork env) o1 = Inr ()" using assms(3) by (auto simp: daemonize_def)
  moreover have "x_file_exists (pe_access env) (Some (conf_path o1)) = 1"
    using assms(2) by (simp add: x_file_exists_def)
  ultimately have run: "program_main env api oks argv logger_static z
      = Inr (Serving (srv\<lparr>sv_srvconf := Some cm\<rparr>)
          (x_access_new (pe_create env) (pe_detach env) (srv\<lparr>sv_srvconf := Some cm\<rparr>) blank_thread)
          (set_log_level (op_level o1) lg1) z2)"
    using assms(1) lg1 new conf by (simp add: program_main_def Let_def)
  from conf_new_spec [OF conf] assms(6) have "cm_conf cm = conf_spec api conf" by (metis option.inject)
  moreover have "lg_is_inited lg1 \<longrightarrow> log_ok (set_log_level (op_level o1) lg1)"
    using logger_init_cases [OF lg1] by (auto simp: set_log_level_def log_ok_def handler_ok_def)
  ultimately show ?thesis
    using run by (auto simp: x_access_new_def x_thread_fork_def Let_def set_log_level_def split: sum.split)
qed

definition example_doc :: xml where
  "example_doc = sample_doc [(''ip'', ''10.0.0.1'')]"

theorem main_serves_witness:
  "\<exists>srv thr lg z cm. program_main example_penv (tree_api example_doc) (replicate 7 True) [''-l'', ''INFO'']
      logger_static z_start = Inr (Serving srv thr lg z)
    \<and> sv_srvconf srv = Some cm \<and> cm_conf cm = conf_spec (tree_api example_doc) example_doc
    \<and> lg_is_debug lg = LOG_LEVEL_INFO"
proof -
  let ?o = "default_options\<lparr>op_level := LOG_LEVEL_INFO\<rparr>"
  have o1: "parse_options (pe_stat example_penv) (getopt [] [''-l'', ''INFO'']) default_options = Inr ?o"
    by (simp add: log_level_of_def)
  have path: "conf_path ?o = ''etc/conf.xml''"
    by (simp add: conf_path_def default_options_def DEFAULT_CONF_FILE_def)
  show ?thesis
    using main_serves [OF o1, of "tree_api example_doc" example_doc, OF _ _ _ _ _ refl, of "replicate 7 True" z_start]
    by (simp add: path) (simp add: example_penv_def default_options_def tree_api_def example_doc_def sample_doc_def
        is_element_def has_ip_def, blast)
qed

lemma example_start:
  obtains srv thr lg z cm w0 where
    "program_main example_penv (tree_api example_doc) (replicate 7 True) [] logger_static z_start
      = Inr (Serving srv thr lg z)"
    "sv_srvconf srv = Some cm" "sc_upstream (cm_conf cm) \<noteq> []"
    "x_thread_func 3 [2, 0] 0 0 [True, True] [True] thr = Inr (Some w0)"
    "0 \<le> ac_timeout (sc_access (cm_conf cm))" "\<forall>u\<in>set (sc_upstream (cm_conf cm)). 0 \<le> uc_timeout u"
proof -
  have "case program_main example_penv (tree_api example_doc) (replicate 7 True) [] logger_static z_start of
      Inl _ \<Rightarrow> False
    | Inr (Returned rc lg z) \<Rightarrow> False
    | Inr (Serving srv thr lg z) \<Rightarrow> (case sv_srvconf srv of None \<Rightarrow> False
        | Some cm \<Rightarrow> sc_upstream (cm_conf cm) \<noteq> [] \<and> ac_port (sc_access (cm_conf cm)) = 9000
            \<and> 0 \<le> ac_timeout (sc_access (cm_conf cm)) \<and> (\<forall>u\<in>set (sc_upstream (cm_conf cm)). 0 \<le> uc_timeout u))"
    unfolding example_doc_def by code_simp
  then obtain srv thr lg z cm where run:
    "program_main example_penv (tree_api example_doc) (replicate 7 True) [] logger_static z_start
      = Inr (Serving srv thr lg z)"
    and cm: "sv_srvconf srv = Some cm" "sc_upstream (cm_conf cm) \<noteq> []" "ac_port (sc_access (cm_conf cm)) = 9000"
      "0 \<le> ac_timeout (sc_access (cm_conf cm))" "\<forall>u\<in>set (sc_upstream (cm_conf cm)). 0 \<le> uc_timeout u"
    by (auto split: sum.split_asm outcome.split_asm option.split_asm)
  from program_main_serving [OF run] have thr: "thr = x_access_new (Inr 7) 0 srv blank_thread"
    by (metis example_penv_def program_env.select_convs(8) program_env.select_convs(9))
  obtain w0 where "x_access_listen (cm_conf cm) 3 [2, 0] 0 0 [True, True] [True] = Inr w0"
    by (simp add: x_access_listen_def x_socket_bind_def x_setNonBlock_def x_buf_init_def Let_def)
  then have "x_thread_func 3 [2, 0] 0 0 [True, True] [True] thr = Inr (Some w0)"
    using cm by (simp add: thr x_thread_func_def x_access_new_def x_thread_fork_def)
  with run cm show ?thesis using that by blast
qed

theorem program_safe_witness:
  "\<exists>srv thr lg z w0. program_main example_penv (tree_api example_doc) (replicate 7 True) [] logger_static z_start
      = Inr (Serving srv thr lg z)
    \<and> x_thread_func 3 [2, 0] 0 0 [True, True] [True] thr = Inr (Some w0) \<and> ev_started w0 Ev_accept
    \<and> (\<forall>a f. dispatch Ev_accept a w0 = Inl f \<longrightarrow> f = Aborted \<or> f = No_return \<or> f = Script_end
        \<or> f = Bad_watcher \<and> (\<exists>fd addr as. accept_loop (a_accept a) = Inr (fd, addr, as) \<and> fd < 0))"
proof -
  obtain srv thr lg z cm w0 where run:
    "program_main example_penv (tree_api example_doc) (replicate 7 True) [] logger_static z_start
      = Inr (Serving srv thr lg z)"
    "sv_srvconf srv = Some cm" "sc_upstream (cm_conf cm) \<noteq> []"
    "x_thread_func 3 [2, 0] 0 0 [True, True] [True] thr = Inr (Some w0)"
    "0 \<le> ac_timeout (sc_access (cm_conf cm))" "\<forall>u\<in>set (sc_upstream (cm_conf cm)). 0 \<le> uc_timeout u"
    by (rule example_start)
  have "ev_started w0 Ev_accept"
    using run(4) by (auto simp: x_thread_func_def x_access_listen_def split: option.split_asm thread_fun.split_asm if_split_asm)
  moreover have "timely w0 Ev_accept" by simp
  moreover have "\<not> ac_timeout (sc_access (cm_conf cm)) < 0" "\<not> (\<exists>u\<in>set (sc_upstream (cm_conf cm)). uc_timeout u < 0)"
    using run(5,6) by auto
  ultimately show ?thesis
    using program_safe [OF run(1-4) ev_reach.start] run(1,4) by blast
qed

end
